(* ===== verification/Prelude.thy ===== *)
theory Prelude
  imports Main "HOL-Library.Word" "HOL-Library.Monad_Syntax" "HOL-Library.Multiset"
begin

text \<open>
  Shared vocabulary of the development: the machine integers of \<^verbatim>\<open>kernel/src/runtime\<close>,
  the bit macros of \<^verbatim>\<open>runtime.h\<close> and \<^verbatim>\<open>machine.h\<close>, the collections of rewrite
  rules that the component theories extend, and generic lemmas on lists, options and words.

  An \<^verbatim>\<open>assert\<close> or a \<^verbatim>\<open>halt\<close> of the C code stops the kernel. Operations that
  contain one return an \<open>option\<close>; \<open>None\<close> is the stopped kernel, so a theorem that an
  operation yields \<open>Some\<close> also says that none of its assertions fails.
\<close>

unbundle bit_operations_syntax

type_synonym u8 = "8 word"
type_synonym u16 = "16 word"
type_synonym u32 = "32 word"
type_synonym u64 = "64 word"

named_theorems inorder_simps \<open>effect of a tree operation on the in-order sequence\<close>
named_theorems parent_simps \<open>effect of a tree operation on the parent links\<close>
named_theorems bit_effects \<open>effect of a bitmap operation on single bits\<close>

section \<open>Assertions\<close>

text \<open>\<^verbatim>\<open>assert(x)\<close> of \<^verbatim>\<open>runtime.h\<close>: the rest of the function runs only if \<open>x\<close> holds.\<close>

definition assert_ok :: "bool \<Rightarrow> unit option" where
  "assert_ok b = (if b then Some () else None)"

lemma assert_ok_bind [simp]: "(assert_ok b \<bind> f) = (if b then f () else None)"
  by (simp add: assert_ok_def)

lemma assert_ok_Some [simp]: "assert_ok b = Some u \<longleftrightarrow> b"
  by (simp add: assert_ok_def)

section \<open>Lists\<close>

lemma sorted_wrt_filter_id:
  "(\<And>x. x \<in> set xs \<Longrightarrow> P x) \<Longrightarrow> filter P xs = xs"
  by (simp add: filter_id_conv)

section \<open>Successors of words\<close>

lemma unat_plus_1: "(p :: 'a::len word) + 1 \<noteq> 0 \<Longrightarrow> unat (p + 1) = Suc (unat p)"
  using unatSuc [of p] by (simp add: add.commute)

lemma less_plus_1_nonzero: "(p :: 'a::len word) < q \<Longrightarrow> p + 1 \<noteq> 0"
  by (metis add_eq_0_iff2 minus_add_cancel word_order.extremum_strict)

lemma less_plus_1_iff: "(p :: 'a::len word) + 1 \<noteq> 0 \<Longrightarrow> r < p + 1 \<longleftrightarrow> r \<le> p"
  by (simp add: word_less_nat_alt word_le_nat_alt unat_plus_1 less_Suc_eq_le)

end
