(* ===== verification/Rbtree.thy ===== *)
theory Rbtree
  imports Prelude
begin

text \<open>
  The left-leaning red-black tree of \<^verbatim>\<open>kernel/src/runtime/rbtree.c\<close>.

  A pointer to a \<^verbatim>\<open>struct rbnode\<close> is modelled by the tree that hangs below it. Every
  node keeps its own address and the parent link that the C code stores in
  \<^verbatim>\<open>parent_color\<close> (address 0 is the null pointer), so the rotations and the removal
  update parent links exactly where the code does. The nodes of one tree are never shared
  between two places of it, which is why the tree is a value and not a heap. The user data
  around the embedded node is \<open>'a\<close>; the \<^verbatim>\<open>key_compare\<close> closure is the parameter
  \<open>cmp\<close>.
\<close>

section \<open>Nodes and local operations\<close>

datatype color = Black | Red

datatype hand = Lft | Rgt

datatype 'a rbt =
    Null
  | Rbn nat nat color 'a "'a rbt" "'a rbt"

fun other :: "hand \<Rightarrow> hand" where
  "other Lft = Rgt"
| "other Rgt = Lft"

text \<open>Field accesses; the call sites have tested the pointer before.\<close>

fun addr :: "'a rbt \<Rightarrow> nat" where
  "addr Null = 0"
| "addr (Rbn p q c v l r) = p"

fun parent :: "'a rbt \<Rightarrow> nat" where
  "parent Null = 0"
| "parent (Rbn p q c v l r) = q"

fun get_color :: "'a rbt \<Rightarrow> color" where
  "get_color Null = Black"
| "get_color (Rbn p q c v l r) = c"

fun child :: "'a rbt \<Rightarrow> hand \<Rightarrow> 'a rbt" where
  "child Null i = Null"
| "child (Rbn p q c v l r) Lft = l"
| "child (Rbn p q c v l r) Rgt = r"

fun set_child :: "'a rbt \<Rightarrow> hand \<Rightarrow> 'a rbt \<Rightarrow> 'a rbt" where
  "set_child Null i t = Null"
| "set_child (Rbn p q c v l r) Lft t = Rbn p q c v t r"
| "set_child (Rbn p q c v l r) Rgt t = Rbn p q c v l t"

text \<open>\<^verbatim>\<open>if (n) set_parent(n, p)\<close>\<close>

fun set_parent :: "'a rbt \<Rightarrow> nat \<Rightarrow> 'a rbt" where
  "set_parent Null p' = Null"
| "set_parent (Rbn p q c v l r) p' = Rbn p p' c v l r"

fun set_color :: "'a rbt \<Rightarrow> color \<Rightarrow> 'a rbt" where
  "set_color Null c' = Null"
| "set_color (Rbn p q c v l r) c' = Rbn p q c' v l r"

fun flip :: "color \<Rightarrow> color" where
  "flip Black = Red"
| "flip Red = Black"

fun invert_color :: "'a rbt \<Rightarrow> 'a rbt" where
  "invert_color Null = Null"
| "invert_color (Rbn p q c v l r) = Rbn p q (flip c) v l r"

fun is_red :: "'a rbt \<Rightarrow> bool" where
  "is_red Null = False"
| "is_red (Rbn p q c v l r) = (c = Red)"

definition is_leaf :: "'a rbt \<Rightarrow> bool" where
  "is_leaf n = (child n Lft = Null \<and> child n Rgt = Null)"

fun rotate_node :: "hand \<Rightarrow> 'a rbt \<Rightarrow> 'a rbt option" where
  "rotate_node Lft (Rbn p q c v l (Rbn px qx cx vx lx rx)) =
     Some (Rbn px q c vx (Rbn p px Red v l (set_parent lx p)) rx)"
| "rotate_node Rgt (Rbn p q c v (Rbn px qx cx vx lx rx) r) =
     Some (Rbn px q c vx lx (Rbn p px Red v (set_parent rx p) r))"
| "rotate_node hand h = None"

fun color_flip :: "'a rbt \<Rightarrow> 'a rbt option" where
  "color_flip (Rbn p q c v l r) =
     (if l = Null \<or> r = Null then None
      else Some (Rbn p q (flip c) v (invert_color l) (invert_color r)))"
| "color_flip Null = None"

definition check_move_red :: "'a rbt \<Rightarrow> hand \<Rightarrow> 'a rbt option" where
  "check_move_red h hand =
     (let hh = child h hand in
      if hh = Null \<or> (\<not> is_red hh \<and> \<not> is_red (child hh Lft)) then do {
        h1 \<leftarrow> color_flip h;
        let ho = child h1 (other hand);
        if ho = Null \<or> \<not> is_red (child ho Lft) then Some h1
        else do {
          h2 \<leftarrow> (if hand = Lft
                 then map_option (set_child h1 Rgt) (rotate_node Rgt (child h1 Rgt))
                 else Some h1);
          h3 \<leftarrow> rotate_node hand h2;
          color_flip h3
        }
      } else Some h)"

definition fix_up :: "'a rbt \<Rightarrow> 'a rbt option" where
  "fix_up h = do {
     assert_ok (h \<noteq> Null);
     h1 \<leftarrow> (if \<not> is_red (child h Lft) \<and> is_red (child h Rgt) then rotate_node Lft h else Some h);
     h2 \<leftarrow> (if is_red (child h1 Lft) \<and> is_red (child (child h1 Lft) Lft)
            then rotate_node Rgt h1 else Some h1);
     if is_red (child h2 Lft) \<and> is_red (child h2 Rgt) then color_flip h2 else Some h2
   }"

section \<open>Searching\<close>

fun find_limit :: "'a rbt \<Rightarrow> bool \<Rightarrow> 'a rbt option" where
  "find_limit Null mx = None"
| "find_limit (Rbn p q c v l r) mx =
     (if (if mx then r else l) = Null then Some (Rbn p q c v l r)
      else if mx then find_limit r mx else find_limit l mx)"

text \<open>The node an address points to, inside the tree \<open>root\<close>.\<close>

fun node_at :: "'a rbt \<Rightarrow> nat \<Rightarrow> 'a rbt" where
  "node_at Null a = Null"
| "node_at (Rbn p q c v l r) a =
     (if a = p then Rbn p q c v l r
      else if node_at l a \<noteq> Null then node_at l a else node_at r a)"

text \<open>
  The climb along parent links. The outer \<open>None\<close> is a climb that never ends or follows a
  dangling link, the inner \<open>None\<close> is \<^verbatim>\<open>INVALID_ADDRESS\<close>.
\<close>

partial_function (option) find_ancestor_of_hand ::
  "'a rbt \<Rightarrow> 'a rbt \<Rightarrow> hand \<Rightarrow> 'a rbt option option" where
  "find_ancestor_of_hand root h hand =
     (if h = Null then None
      else if parent h = 0 then Some None
      else let p = node_at root (parent h) in
        if addr (child p (other hand)) = addr h then Some (Some p)
        else find_ancestor_of_hand root p hand)"

definition get_adjacent_inorder :: "'a rbt \<Rightarrow> 'a rbt \<Rightarrow> hand \<Rightarrow> 'a rbt option option" where
  "get_adjacent_inorder root h hand =
     (let hh = child h hand in
      if hh \<noteq> Null then map_option Some (find_limit hh (hand = Lft))
      else find_ancestor_of_hand root h hand)"

definition rbnode_get_prev :: "'a rbt \<Rightarrow> 'a rbt \<Rightarrow> 'a rbt option option" where
  "rbnode_get_prev root h = get_adjacent_inorder root h Lft"

definition rbnode_get_next :: "'a rbt \<Rightarrow> 'a rbt \<Rightarrow> 'a rbt option option" where
  "rbnode_get_next root h = get_adjacent_inorder root h Rgt"

definition rbtree_find_first :: "'a rbt \<Rightarrow> 'a rbt option option" where
  "rbtree_find_first root =
     (if root = Null then Some None else map_option Some (find_limit root False))"

fun rbtree_lookup :: "('a \<Rightarrow> 'a \<Rightarrow> int) \<Rightarrow> 'a rbt \<Rightarrow> 'a \<Rightarrow> 'a rbt option" where
  "rbtree_lookup cmp Null k = None"
| "rbtree_lookup cmp (Rbn p q c v l r) k =
     (let d = cmp k v in
      if d = 0 then Some (Rbn p q c v l r)
      else rbtree_lookup cmp (if d < 0 then l else r) k)"

fun val_opt :: "'a rbt \<Rightarrow> 'a option" where
  "val_opt Null = None"
| "val_opt (Rbn p q c v l r) = Some v"

fun max_lte_internal :: "('a \<Rightarrow> 'a \<Rightarrow> int) \<Rightarrow> 'a rbt \<Rightarrow> 'a \<Rightarrow> 'a rbt option" where
  "max_lte_internal cmp Null k = None"
| "max_lte_internal cmp (Rbn p q c v l r) k =
     (let d = cmp k v; h = Rbn p q c v l r in
      if d = 0 then Some h
      else if d > 0 then
        (if r = Null then Some h
         else case max_lte_internal cmp r k of
             None \<Rightarrow> Some h
           | Some nxt \<Rightarrow>
               (case val_opt nxt of
                  None \<Rightarrow> Some h
                | Some w \<Rightarrow> if cmp w k > 0 then Some h else Some nxt))
      else if l = Null then None
      else max_lte_internal cmp l k)"

definition rbtree_lookup_max_lte :: "('a \<Rightarrow> 'a \<Rightarrow> int) \<Rightarrow> 'a rbt \<Rightarrow> 'a \<Rightarrow> 'a rbt option" where
  "rbtree_lookup_max_lte cmp root k =
     (if root = Null then None else max_lte_internal cmp root k)"

section \<open>Removal\<close>

fun nodes :: "'a rbt \<Rightarrow> nat" where
  "nodes Null = 0"
| "nodes (Rbn p q c v l r) = Suc (nodes l + nodes r)"

lemma nodes_set_parent [simp]: "nodes (set_parent t p) = nodes t"
  by (cases t) auto

lemma nodes_invert_color [simp]: "nodes (invert_color t) = nodes t"
  by (cases t) auto

lemma nodes_rotate: "rotate_node hand h = Some h' \<Longrightarrow> nodes h' = nodes h"
  by (induction hand h rule: rotate_node.induct) auto

lemma nodes_color_flip: "color_flip h = Some h' \<Longrightarrow> nodes h' = nodes h"
  by (induction h rule: color_flip.induct) (auto split: if_splits)

lemma nodes_child: "h \<noteq> Null \<Longrightarrow> nodes (child h i) < nodes h"
  by (cases h; cases i) auto

lemma nodes_set_child:
  "nodes t = nodes (child h i) \<Longrightarrow> nodes (set_child h i t) = nodes h"
  by (cases h; cases i) auto

lemma nodes_check_move_red: "check_move_red h hand = Some h' \<Longrightarrow> nodes h' = nodes h"
  by (auto simp: check_move_red_def Let_def nodes_set_child split: if_splits bind_splits
      dest!: nodes_rotate nodes_color_flip)

lemma nodes_rotate_child:
  "rotate_node hand h = Some h' \<Longrightarrow> nodes (child h' i) < nodes h"
  by (cases i; induction hand h rule: rotate_node.induct) auto

lemma nodes_check_move_red_child:
  assumes "check_move_red h hand = Some h'" and "h \<noteq> Null"
  shows "nodes (child h' i) < nodes h"
proof -
  have eq: "nodes h' = nodes h" using assms(1) by (rule nodes_check_move_red)
  with assms(2) have "h' \<noteq> Null" by (cases h) auto
  then show ?thesis using nodes_child [of h' i] eq by simp
qed

function remove_min :: "'a rbt \<Rightarrow> ('a rbt \<times> 'a rbt) option" where
  "remove_min h =
     (if h = Null then None
      else if child h Lft = Null then Some (Null, h)
      else do {
        h1 \<leftarrow> check_move_red h Lft;
        (l', removed) \<leftarrow> remove_min (child h1 Lft);
        h2 \<leftarrow> fix_up (set_child h1 Lft l');
        Some (h2, removed)
      })"
  by pat_completeness auto
termination
  by (relation "measure nodes") (auto dest: nodes_check_move_red_child)

declare remove_min.simps [simp del]

text \<open>
  \<^verbatim>\<open>remove_internal\<close>: the boolean is the final value of \<^verbatim>\<open>*result\<close>. When a match is
  replaced by the minimum of its right subtree, the C code also writes that node into the
  child slot of \<^verbatim>\<open>parent(h)\<close>; the caller stores the returned node in the same slot, so the
  model only returns it.
\<close>

function remove_internal ::
  "('a \<Rightarrow> 'a \<Rightarrow> int) \<Rightarrow> 'a rbt \<Rightarrow> 'a \<Rightarrow> ('a rbt \<times> bool) option" where
  "remove_internal cmp Null k = Some (Null, False)"
| "remove_internal cmp (Rbn p q c v l r) k =
     (let h = Rbn p q c v l r; d = cmp k v in
      if d < 0 then
        (if l = Null then Some (h, False)
         else do {
           h1 \<leftarrow> check_move_red h Lft;
           (l', result) \<leftarrow> remove_internal cmp (child h1 Lft) k;
           h2 \<leftarrow> fix_up (set_child h1 Lft l');
           Some (h2, result)
         })
      else if d > 0 \<and> r = Null then Some (h, False)
      else do {
        h1 \<leftarrow> (if is_red l then rotate_node Rgt h else Some h);
        v1 \<leftarrow> val_opt h1;
        if cmp k v1 = 0 \<and> is_leaf h1 then Some (Null, True)
        else do {
          h2 \<leftarrow> check_move_red h1 Rgt;
          v2 \<leftarrow> val_opt h2;
          if cmp k v2 \<noteq> 0 then
            (if child h2 Rgt = Null then Some (h2, False)
             else do {
               (r', result) \<leftarrow> remove_internal cmp (child h2 Rgt) k;
               h3 \<leftarrow> fix_up (set_child h2 Rgt r');
               Some (h3, result)
             })
          else do {
            assert_ok (child h2 Rgt \<noteq> Null);
            (rnew, rmin) \<leftarrow> remove_min (child h2 Rgt);
            w \<leftarrow> val_opt rmin;
            assert_ok (child rmin Lft = Null);
            h3 \<leftarrow> fix_up (Rbn (addr rmin) (parent h2) (get_color h2) w
                            (set_parent (child h2 Lft) (addr rmin))
                            (set_parent rnew (addr rmin)));
            Some (h3, True)
          }
        }
      })"
  by pat_completeness auto
termination
proof (relation "measure (\<lambda>(cmp, h, k). nodes h)", goal_cases)
  case 1
  show ?case by simp
next
  case (2 cmp p q c v l r k h d h1)
  then show ?case using nodes_check_move_red_child [of h Lft h1 Lft] by auto
next
  case (3 cmp p q c v l r k h d h1 v1 h2 v2)
  from 3 have "nodes h1 = nodes h" by (auto split: if_splits dest: nodes_rotate)
  moreover from 3 have "h1 \<noteq> Null" by auto
  ultimately show ?case using 3 nodes_check_move_red_child [of h1 Rgt h2 Rgt] by auto
qed

declare remove_internal.simps(2) [simp del]

record 'a rbtree =
  rb_root :: "'a rbt"
  rb_count :: nat

definition rbtree_remove_by_key ::
  "('a \<Rightarrow> 'a \<Rightarrow> int) \<Rightarrow> 'a rbtree \<Rightarrow> 'a \<Rightarrow> ('a rbtree \<times> bool) option" where
  "rbtree_remove_by_key cmp t k = do {
     (root', result) \<leftarrow> remove_internal cmp (rb_root t) k;
     assert_ok (result \<longrightarrow> rb_count t > 0);
     Some (t\<lparr>rb_root := set_color root' Black,
             rb_count := (if result then rb_count t - 1 else rb_count t)\<rparr>, result)
   }"

text \<open>\<^verbatim>\<open>rbtree_remove_node\<close> (rbtree.h): removal by key that must succeed.\<close>

definition rbtree_remove_node ::
  "('a \<Rightarrow> 'a \<Rightarrow> int) \<Rightarrow> 'a rbtree \<Rightarrow> 'a \<Rightarrow> 'a rbtree option" where
  "rbtree_remove_node cmp t k = do {
     (t', result) \<leftarrow> rbtree_remove_by_key cmp t k;
     assert_ok result;
     Some t'
   }"

section \<open>Insertion\<close>

fun insert_node_internal ::
  "('a \<Rightarrow> 'a \<Rightarrow> int) \<Rightarrow> 'a rbt \<Rightarrow> 'a rbt \<Rightarrow> ('a rbt \<times> bool) option" where
  "insert_node_internal cmp Null n = None"
| "insert_node_internal cmp (Rbn p q c v l r) n = do {
     w \<leftarrow> val_opt n;
     let d = cmp w v;
     (h1, result) \<leftarrow>
       (if d < 0 then
          (if l = Null then Some (Rbn p q c v (set_parent n p) r, True)
           else map_option (map_prod (\<lambda>l'. Rbn p q c v l' r) id) (insert_node_internal cmp l n))
        else if d > 0 then
          (if r = Null then Some (Rbn p q c v l (set_parent n p), True)
           else map_option (map_prod (\<lambda>r'. Rbn p q c v l r') id) (insert_node_internal cmp r n))
        else Some (Rbn p q c v l r, False));
     h2 \<leftarrow> fix_up h1;
     Some (h2, result)
   }"

definition rbtree_insert_node ::
  "('a \<Rightarrow> 'a \<Rightarrow> int) \<Rightarrow> 'a rbtree \<Rightarrow> 'a rbt \<Rightarrow> ('a rbtree \<times> bool) option" where
  "rbtree_insert_node cmp t n = do {
     (root', result) \<leftarrow>
       (if rb_root t = Null then Some (n, True)
        else insert_node_internal cmp (rb_root t) (set_color n Red));
     Some (t\<lparr>rb_root := set_color root' Black,
             rb_count := (if result then Suc (rb_count t) else rb_count t)\<rparr>, result)
   }"

text \<open>\<^verbatim>\<open>init_rbnode\<close> (rbtree.h): a node outside any tree, with address \<open>p\<close> and data \<open>v\<close>.\<close>

definition init_rbnode :: "nat \<Rightarrow> 'a \<Rightarrow> 'a rbt" where
  "init_rbnode p v = Rbn p 0 Black v Null Null"

definition init_rbtree :: "'a rbtree" where
  "init_rbtree = \<lparr>rb_root = Null, rb_count = 0\<rparr>"

section \<open>Traversal and validation\<close>

text \<open>
  A \<^verbatim>\<open>rbnode_handler\<close> closure is a function from the node and the state bound by the closure
  to the boolean it returns and the new state; \<open>None\<close> is a handler that does not return.
\<close>

type_synonym ('a, 's) rbnode_handler = "'a rbt \<Rightarrow> 's \<Rightarrow> (bool \<times> 's) option"

fun traverse_inorder :: "'a rbt \<Rightarrow> ('a, 's) rbnode_handler \<Rightarrow> 's \<Rightarrow> (bool \<times> 's) option" where
  "traverse_inorder Null rh s = Some (True, s)"
| "traverse_inorder (Rbn p q c v l r) rh s = do {
     (ok, s1) \<leftarrow> traverse_inorder l rh s;
     if \<not> ok then Some (False, s1)
     else do {
       (ok, s2) \<leftarrow> rh (Rbn p q c v l r) s1;
       if \<not> ok then Some (False, s2) else traverse_inorder r rh s2
     }
   }"

fun traverse_preorder :: "'a rbt \<Rightarrow> ('a, 's) rbnode_handler \<Rightarrow> 's \<Rightarrow> (bool \<times> 's) option" where
  "traverse_preorder Null rh s = Some (True, s)"
| "traverse_preorder (Rbn p q c v l r) rh s = do {
     (ok, s1) \<leftarrow> rh (Rbn p q c v l r) s;
     if \<not> ok then Some (False, s1)
     else do {
       (ok, s2) \<leftarrow> traverse_preorder l rh s1;
       if \<not> ok then Some (False, s2) else traverse_preorder r rh s2
     }
   }"

fun traverse_postorder :: "'a rbt \<Rightarrow> ('a, 's) rbnode_handler \<Rightarrow> 's \<Rightarrow> (bool \<times> 's) option" where
  "traverse_postorder Null rh s = Some (True, s)"
| "traverse_postorder (Rbn p q c v l r) rh s = do {
     (ok, s1) \<leftarrow> traverse_postorder l rh s;
     if \<not> ok then Some (False, s1)
     else do {
       (ok, s2) \<leftarrow> traverse_postorder r rh s1;
       if \<not> ok then Some (False, s2) else rh (Rbn p q c v l r) s2
     }
   }"

datatype rb_order = RB_INORDER | RB_PREORDER | RB_POSTORDER

fun rbtree_traverse ::
  "'a rbtree \<Rightarrow> rb_order \<Rightarrow> ('a, 's) rbnode_handler \<Rightarrow> 's \<Rightarrow> (bool \<times> 's) option" where
  "rbtree_traverse t RB_INORDER rh s = traverse_inorder (rb_root t) rh s"
| "rbtree_traverse t RB_PREORDER rh s = traverse_preorder (rb_root t) rh s"
| "rbtree_traverse t RB_POSTORDER rh s = traverse_postorder (rb_root t) rh s"

text \<open>
  \<^verbatim>\<open>destruct_rbtree\<close> applies the destructor in postorder and forgets the root. The node
  count keeps its value.
\<close>

definition destruct_rbtree ::
  "'a rbtree \<Rightarrow> ('a, 's) rbnode_handler \<Rightarrow> 's \<Rightarrow> ('a rbtree \<times> 's) option" where
  "destruct_rbtree t destructor s = do {
     (_, s') \<leftarrow> rbtree_traverse t RB_POSTORDER destructor s;
     Some (t\<lparr>rb_root := Null\<rparr>, s')
   }"

text \<open>The failures that \<^verbatim>\<open>rbtree_validate\<close> reports, without the text of their messages.\<close>

datatype rb_fault =
    Parent_Mismatch nat hand
  | Both_Red nat hand
  | Black_Count_Mismatch
  | Right_Leaning nat
  | Prev_Mismatch nat
  | Next_Mismatch nat
  | First_Prev nat
  | Last_Next

type_synonym rb_status = "rb_fault option"

definition parent_child_check :: "'a rbt \<Rightarrow> hand \<Rightarrow> rb_status" where
  "parent_child_check p hand =
     (let c = child p hand in
      if c = Null then None
      else if parent c \<noteq> addr p then Some (Parent_Mismatch (addr p) hand)
      else if is_red p \<and> is_red c then Some (Both_Red (addr p) hand)
      else None)"

text \<open>The status and the final value of \<^verbatim>\<open>*black_count\<close>, whose initial value is -1.\<close>

fun validate_tree_invariants :: "'a rbt \<Rightarrow> u64 \<Rightarrow> u64 \<Rightarrow> rb_status \<times> u64" where
  "validate_tree_invariants Null black_links black_count = (None, black_count)"
| "validate_tree_invariants (Rbn p q c v nl nr) black_links black_count =
     (let n = Rbn p q c v nl nr in
      if nl = Null \<and> nr = Null then
        (if black_count \<noteq> -1 then
           (if black_count \<noteq> black_links then (Some Black_Count_Mismatch, black_count)
            else (None, black_count))
         else (None, black_links))
      else if \<not> is_red nl \<and> is_red nr then (Some (Right_Leaning p), black_count)
      else case parent_child_check n Lft of
        Some f \<Rightarrow> (Some f, black_count)
      | None \<Rightarrow>
        (case parent_child_check n Rgt of
           Some f \<Rightarrow> (Some f, black_count)
         | None \<Rightarrow>
             (let (s, bc) =
                (if nl \<noteq> Null then
                   validate_tree_invariants nl (black_links + (if is_red nl then 0 else 1)) black_count
                 else (None, black_count))
              in if s = None \<and> nr \<noteq> Null then
                   validate_tree_invariants nr (black_links + (if is_red nr then 0 else 1)) bc
                 else (s, bc))))"

text \<open>
  \<^verbatim>\<open>test_inorder_node\<close> binds the last node visited (\<open>Null\<close> for the null pointer) and the
  result. Pointers are compared by address.
\<close>

definition test_inorder_node ::
  "'a rbt \<Rightarrow> ('a, 'a rbt \<times> rb_status) rbnode_handler" where
  "test_inorder_node root n = (\<lambda>(last, result).
     if last \<noteq> Null then do {
       prev \<leftarrow> rbnode_get_prev root n;
       if map_option addr prev \<noteq> Some (addr last)
       then Some (False, last, Some (Prev_Mismatch (addr n)))
       else do {
         nxt \<leftarrow> rbnode_get_next root last;
         if map_option addr nxt \<noteq> Some (addr n)
         then Some (False, last, Some (Next_Mismatch (addr n)))
         else Some (True, n, result)
       }
     } else do {
       prev \<leftarrow> rbnode_get_prev root n;
       if prev \<noteq> None then Some (False, last, Some (First_Prev (addr n)))
       else Some (True, n, result)
     })"

definition test_inorder :: "'a rbtree \<Rightarrow> rb_status option" where
  "test_inorder t = do {
     (_, last, result) \<leftarrow> rbtree_traverse t RB_INORDER (test_inorder_node (rb_root t)) (Null, None);
     if result = None then
       (if last \<noteq> Null then do {
          nxt \<leftarrow> rbnode_get_next (rb_root t) last;
          Some (if nxt \<noteq> None then Some Last_Next else None)
        } else Some None)
     else Some result
   }"

definition rbtree_validate :: "'a rbtree \<Rightarrow> rb_status option" where
  "rbtree_validate t =
     (case validate_tree_invariants (rb_root t) 0 (-1) of
        (Some f, _) \<Rightarrow> Some (Some f)
      | (None, _) \<Rightarrow> test_inorder t)"

section \<open>The in-order sequence and the parent links\<close>

fun inorder :: "'a rbt \<Rightarrow> (nat \<times> 'a) list" where
  "inorder Null = []"
| "inorder (Rbn p q c v l r) = inorder l @ (p, v) # inorder r"

fun par_ok :: "nat \<Rightarrow> 'a rbt \<Rightarrow> bool" where
  "par_ok q' Null = True"
| "par_ok q' (Rbn p q c v l r) = (q = q' \<and> par_ok p l \<and> par_ok p r)"

lemma inorder_set_parent [simp]: "inorder (set_parent t p) = inorder t"
  by (cases t) auto

lemma inorder_set_color [simp]: "inorder (set_color t c) = inorder t"
  by (cases t) auto

lemma inorder_invert_color [simp]: "inorder (invert_color t) = inorder t"
  by (cases t) auto

lemma par_ok_set_parent [simp]: "par_ok q t \<Longrightarrow> par_ok q' (set_parent t q')"
  by (cases t) auto

lemma par_ok_set_color [simp]: "par_ok q (set_color t c) = par_ok q t"
  by (cases t) auto

lemma par_ok_invert_color [simp]: "par_ok q (invert_color t) = par_ok q t"
  by (cases t) auto

lemma set_parent_Null [simp]: "set_parent t q = Null \<longleftrightarrow> t = Null"
  by (cases t) auto

lemma invert_color_Null [simp]: "invert_color t = Null \<longleftrightarrow> t = Null"
  by (cases t) auto

lemma set_color_Null [simp]: "set_color t c = Null \<longleftrightarrow> t = Null"
  by (cases t) auto

lemma inorder_rotate [inorder_simps]: "rotate_node hand h = Some h' \<Longrightarrow> inorder h' = inorder h"
  by (induction hand h rule: rotate_node.induct) auto

lemma inorder_color_flip [inorder_simps]: "color_flip h = Some h' \<Longrightarrow> inorder h' = inorder h"
  by (induction h rule: color_flip.induct) (auto split: if_splits)

lemma inorder_set_child:
  "inorder t = inorder (child h i) \<Longrightarrow> inorder (set_child h i t) = inorder h"
  by (cases h; cases i) auto

lemma inorder_check_move_red [inorder_simps]:
  "check_move_red h hand = Some h' \<Longrightarrow> inorder h' = inorder h"
  by (auto simp: check_move_red_def Let_def inorder_set_child split: if_splits bind_splits
      dest!: inorder_rotate inorder_color_flip)

lemma inorder_fix_up [inorder_simps]: "fix_up h = Some h' \<Longrightarrow> inorder h' = inorder h"
  by (auto simp: fix_up_def split: if_splits bind_splits
      dest!: inorder_rotate inorder_color_flip)

lemma par_ok_rotate [parent_simps]:
  "rotate_node hand h = Some h' \<Longrightarrow> par_ok q h \<Longrightarrow> par_ok q h'"
  by (induction hand h rule: rotate_node.induct) auto

lemma par_ok_color_flip [parent_simps]:
  "color_flip h = Some h' \<Longrightarrow> par_ok q h \<Longrightarrow> par_ok q h'"
  by (induction h rule: color_flip.induct) (auto split: if_splits)

lemma par_ok_child: "par_ok q h \<Longrightarrow> par_ok (addr h) (child h i)"
  by (cases h; cases i) auto

lemma par_ok_set_child: "par_ok q h \<Longrightarrow> par_ok (addr h) t \<Longrightarrow> par_ok q (set_child h i t)"
  by (cases h; cases i) auto

lemma par_ok_parent: "par_ok q h \<Longrightarrow> h \<noteq> Null \<Longrightarrow> parent h = q"
  by (cases h) auto

lemma par_ok_check_move_red [parent_simps]:
  "check_move_red h hand = Some h' \<Longrightarrow> par_ok q h \<Longrightarrow> par_ok q h'"
  by (auto simp: check_move_red_def Let_def split: if_splits bind_splits)
    (meson par_ok_rotate par_ok_color_flip par_ok_set_child par_ok_child)+

lemma par_ok_fix_up [parent_simps]: "fix_up h = Some h' \<Longrightarrow> par_ok q h \<Longrightarrow> par_ok q h'"
  by (auto simp: fix_up_def split: if_splits bind_splits)
    (meson par_ok_rotate par_ok_color_flip)+

lemma par_ok_remove_min [parent_simps]:
  "remove_min h = Some (h', m) \<Longrightarrow> par_ok q h \<Longrightarrow> par_ok q h'"
proof (induction h arbitrary: q h' m rule: remove_min.induct)
  case (1 h)
  show ?case
  proof (cases "child h Lft = Null")
    case True
    with 1 show ?thesis by (auto simp: remove_min.simps [of h] split: if_splits)
  next
    case False
    with "1.prems" obtain h1 l' where
      cmr: "check_move_red h Lft = Some h1" and
      rm: "remove_min (child h1 Lft) = Some (l', m)" and
      fu: "fix_up (set_child h1 Lft l') = Some h'" and "h \<noteq> Null"
      by (auto simp: remove_min.simps [of h] split: if_splits bind_splits)
    from cmr "1.prems"(2) have p1: "par_ok q h1" by (rule par_ok_check_move_red)
    then have "par_ok (addr h1) l'"
      using "1.IH" \<open>h \<noteq> Null\<close> False cmr rm par_ok_child by blast
    with p1 fu show ?thesis by (blast intro: par_ok_fix_up par_ok_set_child)
  qed
qed

end
