(* ===== verification/Rbtree_Inv.thy ===== *)
theory Rbtree_Inv
  imports Rbtree
begin

text \<open>
  The invariant of the left-leaning red-black tree and its preservation. Insertion and
  removal are treated separately; both are shown to return (no assertion fails), to keep
  colours and black heights, and to have the intended effect on the in-order sequence.
\<close>

section \<open>Colours and black heights\<close>

fun bh :: "'a rbt \<Rightarrow> nat" where
  "bh Null = 0"
| "bh (Rbn p q c v l r) = (if c = Black then Suc (bh l) else bh l)"

text \<open>No red right child, no red node with a red left child.\<close>

fun invc :: "'a rbt \<Rightarrow> bool" where
  "invc Null = True"
| "invc (Rbn p q c v l r) =
     (\<not> is_red r \<and> (c = Red \<longrightarrow> \<not> is_red l) \<and> invc l \<and> invc r)"

fun invh :: "'a rbt \<Rightarrow> bool" where
  "invh Null = True"
| "invh (Rbn p q c v l r) = (bh l = bh r \<and> invh l \<and> invh r)"

abbreviation rb_ok :: "'a rbt \<Rightarrow> bool" where
  "rb_ok t \<equiv> invc t \<and> invh t"

lemma color_not [simp]: "c \<noteq> Black \<longleftrightarrow> c = Red" "c \<noteq> Red \<longleftrightarrow> c = Black"
  by (cases c; simp)+

lemma flip_eq [simp]: "flip c = Red \<longleftrightarrow> c = Black" "flip c = Black \<longleftrightarrow> c = Red"
  "flip (flip c) = c"
  by (cases c; simp)+

lemma set_parent_simps [simp]:
  "is_red (set_parent t q) = is_red t" "bh (set_parent t q) = bh t"
  "invc (set_parent t q) = invc t" "invh (set_parent t q) = invh t"
  by (cases t; simp)+

lemma invh_invert_color [simp]: "invh (invert_color t) = invh t"
  by (cases t) auto

lemma bh_0_Null: "bh t = 0 \<Longrightarrow> \<not> is_red t \<Longrightarrow> t = Null"
  by (cases t) (auto split: if_splits)

lemma red_not_Null [simp]: "is_red t \<Longrightarrow> t \<noteq> Null"
  by auto

text \<open>A red node and a black node, taken apart.\<close>

lemma redE:
  assumes "is_red t"
  obtains p q v l r where "t = Rbn p q Red v l r"
  using assms by (cases t) auto

lemma blackE:
  assumes "\<not> is_red t" and "t \<noteq> Null"
  obtains p q v l r where "t = Rbn p q Black v l r"
  using assms by (cases t) auto

text \<open>
  The precondition of the recursive removals: the current node is not a 2-node, since it or
  its left child is red.
\<close>

definition del_pre :: "'a rbt \<Rightarrow> bool" where
  "del_pre h \<longleftrightarrow> h \<noteq> Null \<and> rb_ok h \<and> (is_red h \<or> is_red (child h Lft))"

text \<open>What a removal guarantees of its result, seen from the node \<open>h\<close> it was applied to.\<close>

definition del_post :: "'a rbt \<Rightarrow> 'a rbt \<Rightarrow> bool" where
  "del_post h t \<longleftrightarrow> rb_ok t \<and> bh t = bh h \<and> (is_red t \<longrightarrow> is_red h)"

lemma del_post_refl: "del_pre h \<Longrightarrow> del_post h h"
  by (simp add: del_pre_def del_post_def)

lemma invc_red_left: "invc t \<Longrightarrow> is_red t \<Longrightarrow> \<not> is_red (child t Lft)"
  by (cases t) auto

lemma fix_up_id: "invc l \<Longrightarrow> \<not> is_red r \<Longrightarrow> fix_up (Rbn p q c v l r) = Some (Rbn p q c v l r)"
  by (auto simp: fix_up_def dest: invc_red_left)

lemmas del_defs = check_move_red_def fix_up_def del_pre_def del_post_def Let_def

lemma move_red_left:
  assumes pre: "del_pre h" and ne: "child h Lft \<noteq> Null"
  shows "\<exists>h1. check_move_red h Lft = Some h1 \<and> del_pre (child h1 Lft) \<and>
    (\<forall>l'. del_post (child h1 Lft) l' \<longrightarrow>
       (\<exists>h2. fix_up (set_child h1 Lft l') = Some h2 \<and> del_post h h2))"
proof -
  obtain p q c v l r where h: "h = Rbn p q c v l r" using pre by (cases h) (auto simp: del_pre_def)
  show ?thesis
  proof (cases "is_red l \<or> is_red (child l Lft)")
    case True
    then have "check_move_red h Lft = Some h" using ne h by (auto simp: check_move_red_def)
    moreover have "fix_up (set_child h Lft l') = Some (set_child h Lft l')"
      if "del_post l l'" for l'
      using that pre h by (auto simp: del_post_def del_pre_def fix_up_id)
    ultimately show ?thesis using True pre h by (auto simp: del_pre_def del_post_def)
  next
    case False
    with ne h obtain pl ql vl ll lr where l: "l = Rbn pl ql Black vl ll lr"
      by (auto elim: blackE)
    have c: "c = Red" and "\<not> is_red r" and "bh r \<noteq> 0"
      using pre False l h by (auto simp: del_pre_def)
    then obtain pr qr vr rl rr where r: "r = Rbn pr qr Black vr rl rr"
      by (cases r) auto
    show ?thesis
    proof (cases "is_red rl")
      case True
      then obtain px qx vx xl xr where "rl = Rbn px qx Red vx xl xr" by (rule redE)
      then show ?thesis using pre h l c r False by (auto simp: del_defs)
    next
      case rl: False
      have "\<exists>h2. fix_up (Rbn p q Black v l' (Rbn pr qr Red vr rl rr)) = Some h2 \<and> del_post h h2"
        if "del_post (Rbn pl ql Red vl ll lr) l'" for l'
        using that pre h l c r rl False by (cases l') (auto simp: del_defs)
      then show ?thesis using pre h l c r False rl
        by (auto simp: check_move_red_def Let_def del_pre_def)
    qed
  qed
qed

lemma remove_min_correct:
  assumes "del_pre h"
  shows "\<exists>t m w. remove_min h = Some (t, m) \<and> val_opt m = Some w \<and> child m Lft = Null \<and>
    inorder h = (addr m, w) # inorder t \<and> del_post h t"
  using assms
proof (induction h rule: remove_min.induct)
  case (1 h)
  then have ne: "h \<noteq> Null" by (simp add: del_pre_def)
  show ?case
  proof (cases "child h Lft = Null")
    case True
    with "1.prems" obtain p q v r where "h = Rbn p q Red v Null r" and "\<not> is_red r" and "bh r = 0"
      by (cases h) (auto simp: del_pre_def)
    moreover from this have "r = Null" by (simp add: bh_0_Null)
    ultimately show ?thesis
      by (simp add: remove_min.simps [of "Rbn p q Red v Null Null"] del_post_def)
  next
    case False
    from move_red_left [OF "1.prems" False] obtain h1 where
      cmr: "check_move_red h Lft = Some h1" and pre1: "del_pre (child h1 Lft)" and
      post: "\<And>l'. del_post (child h1 Lft) l' \<Longrightarrow>
        \<exists>h2. fix_up (set_child h1 Lft l') = Some h2 \<and> del_post h h2"
      by blast
    from "1.IH" [OF ne False cmr pre1] obtain l' m w where
      rm: "remove_min (child h1 Lft) = Some (l', m)" "val_opt m = Some w" "child m Lft = Null"
      and io: "inorder (child h1 Lft) = (addr m, w) # inorder l'"
      and dp: "del_post (child h1 Lft) l'"
      by blast
    from post [OF dp] obtain h2 where fu: "fix_up (set_child h1 Lft l') = Some h2"
      and "del_post h h2" by blast
    moreover have "inorder h = (addr m, w) # inorder h2"
      using io inorder_check_move_red [OF cmr] inorder_fix_up [OF fu] by (cases h1) auto
    ultimately show ?thesis using ne False cmr rm by (simp add: remove_min.simps [of h])
  qed
qed


section \<open>Moving red links down the right spine\<close>

text \<open>
  \<^verbatim>\<open>check_move_red(h, right)\<close> may leave its right child with a red right link. The
  removal enters such a node only with a key that is not below it.
\<close>

fun del_pre_right :: "'a rbt \<Rightarrow> bool" where
  "del_pre_right Null = False"
| "del_pre_right (Rbn p q c v l r) \<longleftrightarrow>
     c = Black \<and> \<not> is_red l \<and> is_red r \<and> rb_ok l \<and> rb_ok r \<and> bh l = bh r"

text \<open>The first two steps of the right descent of \<^verbatim>\<open>remove_internal\<close>.\<close>

definition descend_right :: "'a rbt \<Rightarrow> 'a rbt option" where
  "descend_right h = do {
     h1 \<leftarrow> (if is_red (child h Lft) then rotate_node Rgt h else Some h);
     check_move_red h1 Rgt
   }"

text \<open>
  \<open>rebuild_ok h h2\<close>: once the right child of \<open>h2\<close> has been replaced by the result of a
  removal, \<^verbatim>\<open>fix_up\<close> restores what a removal at \<open>h\<close> promises. Addresses and data
  play no role, so this also covers the node that takes the place of a match.
\<close>

definition rebuild_ok :: "'a rbt \<Rightarrow> 'a rbt \<Rightarrow> bool" where
  "rebuild_ok h h2 \<longleftrightarrow> (\<forall>p' q' v' l' r'.
     del_post (child h2 Rgt) r' \<and> rb_ok l' \<and> bh l' = bh (child h2 Lft) \<and>
     is_red l' = is_red (child h2 Lft) \<longrightarrow>
     (\<exists>h3. fix_up (Rbn p' q' (get_color h2) v' l' r') = Some h3 \<and> del_post h h3))"

lemma rebuild_okD:
  "rebuild_ok h h2 \<Longrightarrow> del_post (child h2 Rgt) r' \<Longrightarrow> rb_ok l' \<Longrightarrow> bh l' = bh (child h2 Lft) \<Longrightarrow>
   is_red l' = is_red (child h2 Lft) \<Longrightarrow>
   \<exists>h3. fix_up (Rbn p' q' (get_color h2) v' l' r') = Some h3 \<and> del_post h h3"
  by (simp add: rebuild_ok_def)

lemma inorder_descend_right [inorder_simps]:
  "descend_right h = Some h2 \<Longrightarrow> inorder h2 = inorder h"
  by (auto simp: descend_right_def split: if_splits bind_splits
      dest!: inorder_rotate inorder_check_move_red)

lemma nodes_descend_right:
  assumes "descend_right h = Some h2" and "h \<noteq> Null"
  shows "nodes (child h2 i) < nodes h"
proof -
  obtain h1 where h1: "check_move_red h1 Rgt = Some h2" "h1 = h \<or> rotate_node Rgt h = Some h1"
    using assms(1) by (auto simp: descend_right_def split: if_splits bind_splits)
  then have "nodes h1 = nodes h" and "h1 \<noteq> Null"
    using assms(2) nodes_rotate [of Rgt h h1] by (auto, metis nodes.simps nat.distinct(1) nodes.elims)
  then show ?thesis using nodes_check_move_red_child [OF h1(1)] by simp
qed

lemma del_post_set_parent [simp]: "del_post h (set_parent t p) = del_post h t"
  by (simp add: del_post_def)

lemma fix_up_lean_left:
  assumes "rb_ok l" "rb_ok r" "\<not> is_red l" "bh l = bh r"
  shows "\<exists>h. fix_up (Rbn p q Black v l r) = Some h \<and> rb_ok h \<and> bh h = Suc (bh l) \<and> \<not> is_red h"
  using assms by (cases r) (auto simp: fix_up_def)

lemma fix_up_split_4node:
  assumes "rb_ok l" "rb_ok r" "is_red l" "bh l = bh r"
  shows "\<exists>h. fix_up (Rbn p q Black v l r) = Some h \<and> rb_ok h \<and> bh h = Suc (bh l)"
  using assms by (cases r; cases l) (auto simp: fix_up_def dest: invc_red_left)

lemma fix_up_same:
  assumes "rb_ok l" "rb_ok r" "\<not> is_red l" "\<not> is_red r" "bh l = bh r"
  shows "fix_up (Rbn p q c v l r) = Some (Rbn p q c v l r) \<and> rb_ok (Rbn p q c v l r)"
  using assms by (simp add: fix_up_id)

lemma rebuild_okI_lean_left:
  assumes "get_color h2 = Black" "\<not> is_red (child h2 Lft)" "bh (child h2 Lft) = bh (child h2 Rgt)"
    "bh h = Suc (bh (child h2 Lft))"
  shows "rebuild_ok h h2"
  unfolding rebuild_ok_def
proof (intro allI impI)
  fix p' q' :: nat and v' :: 'a and l' r' :: "'a rbt"
  assume *: "del_post (child h2 Rgt) r' \<and> rb_ok l' \<and> bh l' = bh (child h2 Lft) \<and>
    is_red l' = is_red (child h2 Lft)"
  then have "\<exists>h3. fix_up (Rbn p' q' Black v' l' r') = Some h3 \<and> rb_ok h3 \<and> bh h3 = Suc (bh l') \<and>
    \<not> is_red h3"
    using assms by (intro fix_up_lean_left) (auto simp: del_post_def)
  then show "\<exists>h3. fix_up (Rbn p' q' (get_color h2) v' l' r') = Some h3 \<and> del_post h h3"
    using * assms by (auto simp: del_post_def)
qed

definition descend_post :: "'a rbt \<Rightarrow> 'a rbt \<Rightarrow> bool" where
  "descend_post h h2 \<longleftrightarrow> child h2 Rgt \<noteq> Null \<and> rebuild_ok h h2 \<and> rb_ok (child h2 Lft) \<and>
     (case h of Null \<Rightarrow> False | Rbn p q c v l r \<Rightarrow>
       (val_opt h2 = Some v \<and> inorder (child h2 Lft) = inorder l \<and>
        inorder (child h2 Rgt) = inorder r \<and> del_pre (child h2 Rgt)) \<or>
       ((\<exists>ys. inorder (child h2 Rgt) = ys @ (p, v) # inorder r) \<and>
        (del_pre (child h2 Rgt) \<or> del_pre_right (child h2 Rgt) \<and> val_opt (child h2 Rgt) = Some v)))"

lemma descend_right_left_red:
  assumes pre: "del_pre h" and red: "is_red (child h Lft)"
  shows "\<exists>h2. descend_right h = Some h2 \<and> descend_post h h2"
proof -
  obtain p q c v l r where h: "h = Rbn p q c v l r" using pre by (cases h) (auto simp: del_pre_def)
  with red obtain px qx vx xl xr where l: "l = Rbn px qx Red vx xl xr" by (auto elim: redE)
  let ?y = "Rbn p px Red v (set_parent xr p) r"
  let ?x = "Rbn px q c vx xl ?y"
  have facts: "c = Black" "rb_ok xl" "rb_ok xr" "rb_ok r" "\<not> is_red xl" "\<not> is_red xr" "\<not> is_red r"
    "bh xl = bh r" "bh xr = bh r"
    using pre h l by (auto simp: del_pre_def)
  have eq: "descend_right h = Some ?x"
    using facts h l by (simp add: descend_right_def check_move_red_def)
  have "rebuild_ok h ?x" by (rule rebuild_okI_lean_left) (use facts h l in auto)
  moreover have "del_pre ?y" using facts by (simp add: del_pre_def)
  moreover have "inorder ?y = inorder xr @ (p, v) # inorder r" by simp
  ultimately show ?thesis using eq h facts by (auto simp: descend_post_def)
qed

lemma descend_right_red_right:
  assumes pre: "del_pre_right h"
  shows "\<exists>h2. descend_right h = Some h2 \<and> descend_post h h2"
proof -
  obtain p q c v l r where h: "h = Rbn p q c v l r" using pre by (cases h) auto
  have "descend_right h = Some h"
    using pre h by (auto simp: descend_right_def check_move_red_def)
  moreover have "rebuild_ok h h" by (rule rebuild_okI_lean_left) (use pre h in auto)
  moreover have "del_pre r" using pre h by (simp add: del_pre_def)
  ultimately show ?thesis using pre h by (auto simp: descend_post_def)
qed

lemma rebuild_okI_same:
  assumes "\<not> is_red (child h2 Lft)" "\<not> is_red (child h2 Rgt)" "bh (child h2 Lft) = bh (child h2 Rgt)"
    "get_color h2 = Red" "is_red h" "bh h = bh (child h2 Lft)"
  shows "rebuild_ok h h2"
  unfolding rebuild_ok_def
proof (intro allI impI)
  fix p' q' :: nat and v' :: 'a and l' r' :: "'a rbt"
  assume *: "del_post (child h2 Rgt) r' \<and> rb_ok l' \<and> bh l' = bh (child h2 Lft) \<and>
    is_red l' = is_red (child h2 Lft)"
  then have "fix_up (Rbn p' q' (get_color h2) v' l' r') = Some (Rbn p' q' (get_color h2) v' l' r') \<and>
    rb_ok (Rbn p' q' (get_color h2) v' l' r')"
    using assms by (intro fix_up_same) (auto simp: del_post_def)
  then show "\<exists>h3. fix_up (Rbn p' q' (get_color h2) v' l' r') = Some h3 \<and> del_post h h3"
    using * assms by (auto simp: del_post_def)
qed

lemma rebuild_okI_split:
  assumes "is_red (child h2 Lft)" "is_red h" "bh (child h2 Lft) = bh (child h2 Rgt)"
    "get_color h2 = Black" "bh h = Suc (bh (child h2 Lft))"
  shows "rebuild_ok h h2"
  unfolding rebuild_ok_def
proof (intro allI impI)
  fix p' q' :: nat and v' :: 'a and l' r' :: "'a rbt"
  assume *: "del_post (child h2 Rgt) r' \<and> rb_ok l' \<and> bh l' = bh (child h2 Lft) \<and>
    is_red l' = is_red (child h2 Lft)"
  then have "\<exists>h3. fix_up (Rbn p' q' Black v' l' r') = Some h3 \<and> rb_ok h3 \<and> bh h3 = Suc (bh l')"
    using assms by (intro fix_up_split_4node) (auto simp: del_post_def)
  then show "\<exists>h3. fix_up (Rbn p' q' (get_color h2) v' l' r') = Some h3 \<and> del_post h h3"
    using * assms by (auto simp: del_post_def)
qed

lemma descend_right_red:
  assumes pre: "del_pre h" and black: "\<not> is_red (child h Lft)" and nl: "\<not> is_leaf h"
  shows "\<exists>h2. descend_right h = Some h2 \<and> descend_post h h2"
proof -
  obtain p q c v l r where h: "h = Rbn p q c v l r" using pre by (cases h) (auto simp: del_pre_def)
  have facts: "c = Red" "rb_ok l" "rb_ok r" "\<not> is_red l" "\<not> is_red r" "bh l = bh r"
    using pre h black by (auto simp: del_pre_def)
  have ne: "l \<noteq> Null" "r \<noteq> Null" using nl facts h bh_0_Null [of l] bh_0_Null [of r]
    by (auto simp: is_leaf_def)
  obtain pl ql vl ll lr where l: "l = Rbn pl ql Black vl ll lr" using facts ne by (blast elim: blackE)
  obtain pr qr vr rl rr where r: "r = Rbn pr qr Black vr rl rr" using facts ne by (blast elim: blackE)
  consider "is_red rl" | "\<not> is_red rl" "\<not> is_red ll" | "\<not> is_red rl" "is_red ll" by blast
  then show ?thesis
  proof cases
    case 1
    have "descend_right h = Some h"
      using 1 h l r by (simp add: descend_right_def check_move_red_def)
    moreover have "rebuild_ok h h" by (rule rebuild_okI_same) (use facts h in auto)
    moreover have "del_pre r" using 1 r facts by (simp add: del_pre_def)
    ultimately show ?thesis using h r facts by (auto simp: descend_post_def)
  next
    case 2
    let ?l = "Rbn pl ql Red vl ll lr" and ?r = "Rbn pr qr Red vr rl rr"
    let ?h = "Rbn p q Black v ?l ?r"
    have "descend_right h = Some ?h"
      using 2 h l r facts by (simp add: descend_right_def check_move_red_def)
    moreover have "rebuild_ok h ?h" by (rule rebuild_okI_split) (use facts h l r in auto)
    moreover have "del_pre ?r" "rb_ok ?l" using 2 l r facts by (auto simp: del_pre_def)
    ultimately show ?thesis using h l r by (auto simp: descend_post_def)
  next
    case 3
    then obtain px qx vx xl xr where ll: "ll = Rbn px qx Red vx xl xr" by (auto elim: redE)
    let ?r = "Rbn pr qr Red vr rl rr"
    let ?y = "Rbn p pl Black v (set_parent lr p) ?r"
    let ?h = "Rbn pl q Red vl (Rbn px qx Black vx xl xr) ?y"
    have "descend_right h = Some ?h"
      using 3 h l r ll facts by (simp add: descend_right_def check_move_red_def)
    moreover have "rebuild_ok h ?h" by (rule rebuild_okI_same) (use facts h l r ll in auto)
    moreover have "del_pre_right ?y" using 3 l r ll facts by auto
    moreover have "inorder ?y = inorder lr @ (p, v) # inorder r" using r by simp
    ultimately show ?thesis using h l ll facts by (auto simp: descend_post_def)
  qed
qed

lemma descend_right_correct:
  assumes "del_pre h \<and> \<not> is_leaf h \<or> del_pre_right h"
  shows "\<exists>h2. descend_right h = Some h2 \<and> descend_post h h2"
  using assms descend_right_left_red descend_right_red descend_right_red_right by blast

lemma rotate_left_prefix:
  "rotate_node Lft h = Some h' \<Longrightarrow> \<exists>ys. inorder (child h' Lft) = inorder (child h Lft) @ ys"
  by (cases "(Lft, h)" rule: rotate_node.cases) auto

lemma color_flip_child:
  "color_flip h = Some h' \<Longrightarrow> inorder (child h' i) = inorder (child h i)"
  by (cases h; cases i) (auto split: if_splits)

lemma child_set_child [simp]: "child (set_child h Rgt t) Lft = child h Lft"
  by (cases h) auto

lemma check_move_red_left_prefix:
  assumes "check_move_red h Lft = Some h'"
  shows "\<exists>ys. inorder (child h' Lft) = inorder (child h Lft) @ ys"
proof (cases "color_flip h")
  case None
  with assms have "h' = h" by (auto simp: check_move_red_def Let_def split: if_splits)
  then show ?thesis by simp
next
  case (Some h1)
  have pre: "inorder (child h1 Lft) = inorder (child h Lft)" using Some by (rule color_flip_child)
  have "h' = h \<or> h' = h1 \<or> (\<exists>r h3. rotate_node Lft (set_child h1 Rgt r) = Some h3 \<and>
      color_flip h3 = Some h')"
    using assms Some by (auto simp: check_move_red_def Let_def split: if_splits bind_splits)
  then show ?thesis
  proof (elim disjE exE conjE)
    fix r h3
    assume "rotate_node Lft (set_child h1 Rgt r) = Some h3" and "color_flip h3 = Some h'"
    then show ?thesis using pre rotate_left_prefix color_flip_child [of h3 h' Lft] by fastforce
  qed (use pre in auto)
qed

section \<open>Removal is correct\<close>

text \<open>
  The contract of the \<^verbatim>\<open>key_compare\<close> closure that a client of the tree supplies: a total
  preorder. Nodes that compare equal have the same key.
\<close>

locale key_compare =
  fixes cmp :: "'a \<Rightarrow> 'a \<Rightarrow> int"
  assumes cmp_sym: "cmp a b < 0 \<longleftrightarrow> 0 < cmp b a"
    and cmp_trans: "cmp a b < 0 \<Longrightarrow> cmp b c < 0 \<Longrightarrow> cmp a c < 0"
    and cmp_eq: "cmp a b = 0 \<Longrightarrow> sgn (cmp a c) = sgn (cmp b c)"
begin

definition sorted_nodes :: "(nat \<times> 'a) list \<Rightarrow> bool" where
  "sorted_nodes xs = sorted_wrt (\<lambda>x y. cmp (snd x) (snd y) < 0) xs"

abbreviation differs :: "'a \<Rightarrow> nat \<times> 'a \<Rightarrow> bool" where
  "differs k x \<equiv> cmp k (snd x) \<noteq> 0"

lemma cmp_refl [simp]: "cmp a a = 0"
  using cmp_sym [of a a] by linarith

lemma cmp_zero_sym: "cmp a b = 0 \<longleftrightarrow> cmp b a = 0"
  using cmp_sym [of a b] cmp_sym [of b a] by linarith

lemma cmp_le_less_trans: "cmp a b \<le> 0 \<Longrightarrow> cmp b c < 0 \<Longrightarrow> cmp a c < 0"
  using cmp_trans [of a b c] cmp_eq [of a b c] by (cases "cmp a b = 0") (auto simp: sgn_if split: if_splits)

lemma cmp_less_le_trans: "cmp a b < 0 \<Longrightarrow> cmp b c \<le> 0 \<Longrightarrow> cmp a c < 0"
  using cmp_trans [of a b c] cmp_eq [of c b a] cmp_sym [of a c] cmp_sym [of a b] cmp_zero_sym [of b c]
  by (cases "cmp b c = 0") (auto simp: sgn_if split: if_splits)

lemma cmp_ge_greater_trans: "0 \<le> cmp a b \<Longrightarrow> cmp c b < 0 \<Longrightarrow> 0 < cmp a c"
  using cmp_less_le_trans [of c b a] cmp_sym [of c a] cmp_sym [of b a] cmp_zero_sym [of a b]
  by linarith

lemma sorted_nodes_append:
  "sorted_nodes (xs @ ys) \<longleftrightarrow> sorted_nodes xs \<and> sorted_nodes ys \<and>
     (\<forall>x \<in> set xs. \<forall>y \<in> set ys. cmp (snd x) (snd y) < 0)"
  by (auto simp: sorted_nodes_def sorted_wrt_append)

lemma sorted_nodes_Cons:
  "sorted_nodes (x # xs) \<longleftrightarrow> (\<forall>y \<in> set xs. cmp (snd x) (snd y) < 0) \<and> sorted_nodes xs"
  by (simp add: sorted_nodes_def)

text \<open>Elements above a node whose key is above \<open>k\<close> differ from \<open>k\<close>; so do those below.\<close>

lemma above_differs:
  "sorted_nodes ((p, v) # xs) \<Longrightarrow> cmp k v < 0 \<Longrightarrow> \<forall>x \<in> set ((p, v) # xs). cmp k (snd x) < 0"
  using cmp_trans [of k v] by (auto simp: sorted_nodes_Cons)

lemma below_differs:
  "sorted_nodes (xs @ (p, v) # ys) \<Longrightarrow> 0 \<le> cmp k v \<Longrightarrow> \<forall>x \<in> set xs. 0 < cmp k (snd x)"
  using cmp_ge_greater_trans [of k v] by (auto simp: sorted_nodes_append)

end

lemma rotate_not_leaf: "rotate_node Rgt h = Some h' \<Longrightarrow> \<not> is_leaf h'"
  by (cases "(Rgt, h)" rule: rotate_node.cases) (auto simp: is_leaf_def)

lemma rotate_val: "rotate_node hand h = Some h' \<Longrightarrow> \<exists>w. val_opt h' = Some w"
  by (induction hand h rule: rotate_node.induct) auto

text \<open>The part of \<^verbatim>\<open>remove_internal\<close> after the second \<^verbatim>\<open>check_move_red\<close>.\<close>

definition remove_tail :: "('a \<Rightarrow> 'a \<Rightarrow> int) \<Rightarrow> 'a rbt \<Rightarrow> 'a \<Rightarrow> ('a rbt \<times> bool) option" where
  "remove_tail cmp h2 k = do {
     v2 \<leftarrow> val_opt h2;
     if cmp k v2 \<noteq> 0 then
       (if child h2 Rgt = Null then Some (h2, False)
        else do {
          (r', result) \<leftarrow> remove_internal cmp (child h2 Rgt) k;
          h3 \<leftarrow> fix_up (set_child h2 Rgt r');
          Some (h3, result)
        })
     else do {
       assert_ok (child h2 Rgt \<noteq> Null);
       (rnew, rmin) \<leftarrow> remove_min (child h2 Rgt);
       w \<leftarrow> val_opt rmin;
       assert_ok (child rmin Lft = Null);
       h3 \<leftarrow> fix_up (Rbn (addr rmin) (parent h2) (get_color h2) w
                       (set_parent (child h2 Lft) (addr rmin))
                       (set_parent rnew (addr rmin)));
       Some (h3, True)
     }
   }"

lemma remove_internal_tail:
  "remove_internal cmp (Rbn p q c v l r) k =
     (let h = Rbn p q c v l r; d = cmp k v in
      if d < 0 then
        (if l = Null then Some (h, False)
         else do {
           h1 \<leftarrow> check_move_red h Lft;
           (l', result) \<leftarrow> remove_internal cmp (child h1 Lft) k;
           h2 \<leftarrow> fix_up (set_child h1 Lft l');
           Some (h2, result)
         })
      else if d > 0 \<and> r = Null then Some (h, False)
      else do {
        h1 \<leftarrow> (if is_red l then rotate_node Rgt h else Some h);
        v1 \<leftarrow> val_opt h1;
        if cmp k v1 = 0 \<and> is_leaf h1 then Some (Null, True)
        else do { h2 \<leftarrow> check_move_red h1 Rgt; remove_tail cmp h2 k }
      })"
  unfolding remove_internal.simps(2) remove_tail_def by (rule refl)

lemma remove_internal_descend:
  assumes h: "h = Rbn p q c v l r" and d: "0 \<le> cmp k v" "\<not> (0 < cmp k v \<and> r = Null)"
    and nl: "\<not> is_leaf h"
  shows "remove_internal cmp h k = (do { h2 \<leftarrow> descend_right h; remove_tail cmp h2 k })"
proof (cases "is_red l")
  case True
  then obtain h1 where h1: "rotate_node Rgt h = Some h1" using h by (auto elim: redE)
  then show ?thesis using True h d rotate_not_leaf [OF h1] rotate_val [OF h1]
    by (auto simp: remove_internal_tail descend_right_def Let_def)
next
  case False
  then show ?thesis using h d nl
    by (auto simp: remove_internal_tail descend_right_def Let_def)
qed

lemma del_pre_leaf:
  assumes "del_pre h" "is_leaf h"
  shows "bh h = 0 \<and> is_red h"
  using assms by (cases h) (auto simp: del_pre_def is_leaf_def)

context key_compare
begin

definition remove_spec :: "'a rbt \<Rightarrow> 'a \<Rightarrow> 'a rbt \<Rightarrow> bool \<Rightarrow> bool" where
  "remove_spec h k t res \<longleftrightarrow>
     inorder t = filter (differs k) (inorder h) \<and>
     res = (\<exists>x \<in> set (inorder h). cmp k (snd x) = 0) \<and> del_post h t"

definition remove_pre :: "'a rbt \<Rightarrow> 'a \<Rightarrow> bool" where
  "remove_pre h k \<longleftrightarrow> sorted_nodes (inorder h) \<and>
     (del_pre h \<or> del_pre_right h \<and> (\<exists>v. val_opt h = Some v \<and> 0 \<le> cmp k v))"

lemma remove_left_step:
  assumes pre: "remove_pre (Rbn p q c v l r) k" and d: "cmp k v < 0"
    and IH: "\<And>h1. check_move_red (Rbn p q c v l r) Lft = Some h1 \<Longrightarrow> remove_pre (child h1 Lft) k \<Longrightarrow>
       \<exists>t res. remove_internal cmp (child h1 Lft) k = Some (t, res) \<and> remove_spec (child h1 Lft) k t res"
  shows "\<exists>t res. remove_internal cmp (Rbn p q c v l r) k = Some (t, res) \<and>
    remove_spec (Rbn p q c v l r) k t res"
proof -
  let ?h = "Rbn p q c v l r"
  from pre d have del: "del_pre ?h" and sorted: "sorted_nodes (inorder ?h)"
    by (auto simp: remove_pre_def)
  have above: "\<forall>x \<in> set ((p, v) # inorder r). cmp k (snd x) < 0"
    using sorted d by (intro above_differs) (auto simp: sorted_nodes_append)
  show ?thesis
  proof (cases "l = Null")
    case True
    with above d have "filter (differs k) (inorder ?h) = inorder ?h"
      by (auto simp: filter_id_conv)
    then show ?thesis using True d above del_post_refl [OF del]
      by (auto simp: remove_internal.simps(2) remove_spec_def)
  next
    case False
    then obtain h1 where cmr: "check_move_red ?h Lft = Some h1" and pre1: "del_pre (child h1 Lft)"
      and post: "\<And>l'. del_post (child h1 Lft) l' \<Longrightarrow>
        \<exists>h2. fix_up (set_child h1 Lft l') = Some h2 \<and> del_post ?h h2"
      using move_red_left [OF del] by auto
    obtain p1 q1 c1 v1 l1 r1 where h1: "h1 = Rbn p1 q1 c1 v1 l1 r1"
      using pre1 by (cases h1) (auto simp: del_pre_def)
    obtain ys where ys: "inorder l1 = inorder l @ ys"
      using check_move_red_left_prefix [OF cmr] h1 by auto
    have io: "inorder ?h = inorder l1 @ (p1, v1) # inorder r1"
      using inorder_check_move_red [OF cmr] h1 by simp
    then have "(p, v) # inorder r = ys @ (p1, v1) # inorder r1" using ys by simp
    then have rest: "\<forall>x \<in> set ((p1, v1) # inorder r1). cmp k (snd x) < 0"
      using above by (metis Un_iff set_append)
    have "sorted_nodes (inorder l1)"
      using sorted unfolding io by (simp add: sorted_nodes_append)
    then have "remove_pre (child h1 Lft) k" using pre1 h1 by (simp add: remove_pre_def)
    then obtain t res where rm: "remove_internal cmp l1 k = Some (t, res)"
      and spec: "remove_spec l1 k t res" using IH [OF cmr] h1 by auto
    then obtain h2 where fu: "fix_up (Rbn p1 q1 c1 v1 t r1) = Some h2" and dp: "del_post ?h h2"
      using post [of t] h1 by (auto simp: remove_spec_def)
    have "filter (differs k) ((p1, v1) # inorder r1) = (p1, v1) # inorder r1"
      using rest by (intro sorted_wrt_filter_id) auto
    then have "inorder h2 = filter (differs k) (inorder ?h)"
      using inorder_fix_up [OF fu] spec io by (simp add: remove_spec_def)
    moreover have "res = (\<exists>x \<in> set (inorder ?h). cmp k (snd x) = 0)"
      using spec rest unfolding io remove_spec_def by force
    ultimately have "remove_spec ?h k h2 res" using dp by (simp add: remove_spec_def)
    moreover have "remove_internal cmp ?h k = Some (h2, res)"
      using d False cmr rm fu h1 by (simp add: remove_internal.simps(2))
    ultimately show ?thesis by blast
  qed
qed

lemma remove_match_step:
  assumes desc: "descend_right h = Some h2" and h: "h = Rbn p q c v l r" and d: "cmp k v = 0"
    and v2: "val_opt h2 = Some v" and io2: "inorder (child h2 Lft) = inorder l"
      "inorder (child h2 Rgt) = inorder r"
    and inv2: "rb_ok (child h2 Lft)" "del_pre (child h2 Rgt)" and rebuild: "rebuild_ok h h2"
    and sorted: "sorted_nodes (inorder h)" and nl: "\<not> is_leaf h"
  shows "\<exists>t res. remove_internal cmp h k = Some (t, res) \<and> remove_spec h k t res"
proof -
  from remove_min_correct [OF inv2(2)] obtain t m w where
    rm: "remove_min (child h2 Rgt) = Some (t, m)" "val_opt m = Some w" "child m Lft = Null"
    and io: "inorder (child h2 Rgt) = (addr m, w) # inorder t" and dp: "del_post (child h2 Rgt) t"
    by blast
  have ne: "child h2 Rgt \<noteq> Null" using inv2 by (simp add: del_pre_def)
  let ?n = "Rbn (addr m) (parent h2) (get_color h2) w
     (set_parent (child h2 Lft) (addr m)) (set_parent t (addr m))"
  from rebuild_okD [OF rebuild, of "set_parent t (addr m)" "set_parent (child h2 Lft) (addr m)"
      "addr m" "parent h2" w]
  obtain h3 where fu: "fix_up ?n = Some h3" and dp3: "del_post h h3"
    using dp inv2(1) by auto
  have below: "\<forall>x \<in> set (inorder l). 0 < cmp k (snd x)"
    using sorted h d by (intro below_differs) auto
  have above: "\<forall>x \<in> set (inorder r). cmp k (snd x) < 0"
    using sorted h d cmp_le_less_trans [of k v] by (auto simp: sorted_nodes_append sorted_nodes_Cons)
  have fl: "filter (differs k) (inorder l) = inorder l" "filter (differs k) (inorder r) = inorder r"
    using below above by (auto intro!: sorted_wrt_filter_id)
  have "inorder h3 = inorder l @ inorder r"
    using inorder_fix_up [OF fu] io io2 by simp
  then have "inorder h3 = filter (differs k) (inorder h)" using fl h d by simp
  moreover have "\<exists>x \<in> set (inorder h). cmp k (snd x) = 0" using h d by auto
  ultimately have "remove_spec h k h3 True" using dp3 by (simp add: remove_spec_def)
  moreover have "remove_internal cmp h k = Some (h3, True)"
    using d by (subst remove_internal_descend [where cmp = cmp and k = k, OF h _ _ nl]) (simp_all add: desc rm fu ne v2 remove_tail_def)
  ultimately show ?thesis by blast
qed

lemma remove_right_step:
  assumes desc: "descend_right h = Some h2" and h: "h = Rbn p q c v l r" and d: "0 \<le> cmp k v"
      "\<not> (0 < cmp k v \<and> r = Null)"
    and h2: "h2 = Rbn p2 q2 c2 v2 l2 r2" and ne: "r2 \<noteq> Null"
    and rebuild: "rebuild_ok h h2" and inv2: "rb_ok l2"
    and sorted: "sorted_nodes (inorder h)" and nl: "\<not> is_leaf h"
    and below: "\<forall>x \<in> set (inorder l2 @ [(p2, v2)]). 0 < cmp k (snd x)"
    and rm: "remove_internal cmp r2 k = Some (t, res)" and spec: "remove_spec r2 k t res"
  shows "\<exists>t res. remove_internal cmp h k = Some (t, res) \<and> remove_spec h k t res"
proof -
  have io: "inorder h = (inorder l2 @ [(p2, v2)]) @ inorder r2"
    using inorder_descend_right [OF desc] h2 by simp
  from rebuild_okD [OF rebuild, of t l2 p2 q2 v2] obtain h3
    where fu: "fix_up (Rbn p2 q2 c2 v2 l2 t) = Some h3" and dp: "del_post h h3"
    using spec inv2 h2 by (auto simp: remove_spec_def)
  have "filter (differs k) (inorder l2) = inorder l2" "cmp k v2 \<noteq> 0"
    using below by (auto intro!: sorted_wrt_filter_id)
  then have "inorder h3 = filter (differs k) (inorder h)"
    using inorder_fix_up [OF fu] spec io by (simp add: remove_spec_def)
  moreover have "res = (\<exists>x \<in> set (inorder h). cmp k (snd x) = 0)"
    using spec below unfolding io remove_spec_def by force
  ultimately have "remove_spec h k h3 res" using dp by (simp add: remove_spec_def)
  moreover have "remove_internal cmp h k = Some (h3, res)"
    using below by (subst remove_internal_descend [where cmp = cmp and k = k, OF h d nl]) (simp add: desc rm fu ne h2 remove_tail_def)
  ultimately show ?thesis by blast
qed

lemma remove_descend_step:
  assumes pre: "remove_pre h k" and h: "h = Rbn p q c v l r"
    and d: "0 \<le> cmp k v" "\<not> (0 < cmp k v \<and> r = Null)" and nl: "\<not> is_leaf h"
    and IH: "\<And>h2. descend_right h = Some h2 \<Longrightarrow> remove_pre (child h2 Rgt) k \<Longrightarrow>
       \<exists>t res. remove_internal cmp (child h2 Rgt) k = Some (t, res) \<and> remove_spec (child h2 Rgt) k t res"
  shows "\<exists>t res. remove_internal cmp h k = Some (t, res) \<and> remove_spec h k t res"
proof -
  have "del_pre h \<and> \<not> is_leaf h \<or> del_pre_right h" and sorted: "sorted_nodes (inorder h)"
    using pre nl by (auto simp: remove_pre_def)
  from descend_right_correct [OF this(1)] obtain h2 where desc: "descend_right h = Some h2"
    and post: "descend_post h h2" by blast
  then obtain p2 q2 c2 v2 l2 r2 where h2: "h2 = Rbn p2 q2 c2 v2 l2 r2"
    by (cases h2) (auto simp: descend_post_def)
  have ne: "r2 \<noteq> Null" and rb: "rebuild_ok h h2" using post h2 by (auto simp: descend_post_def)
  have io: "inorder h = inorder l2 @ (p2, v2) # inorder r2"
    using inorder_descend_right [OF desc] h2 by simp
  have sorted2: "sorted_nodes (inorder r2)"
    using sorted unfolding io by (simp add: sorted_nodes_append sorted_nodes_Cons)
  have below: "\<forall>x \<in> set (inorder l). 0 < cmp k (snd x)"
    using sorted h d by (intro below_differs) auto
  consider
      (same) "v2 = v" "inorder l2 = inorder l" "inorder r2 = inorder r" "rb_ok l2" "del_pre r2"
    | (rotated) ys where "inorder r2 = ys @ (p, v) # inorder r" "rb_ok l2"
        "del_pre r2 \<or> del_pre_right r2 \<and> val_opt r2 = Some v"
    using post h h2 by (auto simp: descend_post_def)
  then show ?thesis
  proof cases
    case same
    show ?thesis
    proof (cases "cmp k v = 0")
      case True
      show ?thesis
        by (rule remove_match_step [OF desc h True]) (use same h2 rb sorted nl in auto)
    next
      case False
      have "remove_pre (child h2 Rgt) k" using same sorted2 h2 by (simp add: remove_pre_def)
      then obtain t res where rm: "remove_internal cmp r2 k = Some (t, res)" "remove_spec r2 k t res"
        using IH [OF desc] h2 by auto
      have "\<forall>x \<in> set (inorder l2 @ [(p2, v2)]). 0 < cmp k (snd x)"
        using below same False d by auto
      then show ?thesis
        using remove_right_step [OF desc h d h2 ne rb] same(4) sorted nl rm by blast
    qed
  next
    case rotated
    have "remove_pre (child h2 Rgt) k"
      using rotated sorted2 h2 d by (auto simp: remove_pre_def)
    then obtain t res where rm: "remove_internal cmp r2 k = Some (t, res)" "remove_spec r2 k t res"
      using IH [OF desc] h2 by auto
    have "inorder l = inorder l2 @ (p2, v2) # ys" using io rotated(1) h by simp
    then have "\<forall>x \<in> set (inorder l2 @ [(p2, v2)]). 0 < cmp k (snd x)"
      using below by auto
    then show ?thesis
      using remove_right_step [OF desc h d h2 ne rb] rotated(2) sorted nl rm by blast
  qed
qed

lemma remove_absent:
  assumes "\<forall>x \<in> set (inorder h). 0 < cmp k (snd x)" and "del_pre h"
  shows "remove_spec h k h False"
proof -
  have "filter (differs k) (inorder h) = inorder h"
    using assms(1) by (intro sorted_wrt_filter_id) auto
  then show ?thesis using assms by (auto simp: remove_spec_def del_post_refl)
qed

lemma remove_internal_correct:
  assumes "remove_pre h k"
  shows "\<exists>t res. remove_internal cmp h k = Some (t, res) \<and> remove_spec h k t res"
  using assms
proof (induction "nodes h" arbitrary: h rule: less_induct)
  case less
  obtain p q c v l r where h: "h = Rbn p q c v l r"
    using less.prems by (cases h) (auto simp: remove_pre_def del_pre_def)
  consider "cmp k v < 0" | "0 < cmp k v" "r = Null" | "cmp k v = 0" "is_leaf h"
    | "0 \<le> cmp k v" "\<not> (0 < cmp k v \<and> r = Null)" "\<not> is_leaf h"
    using h by (cases "r = Null"; cases "l = Null"; cases "cmp k v < 0"; cases "cmp k v = 0")
      (auto simp: is_leaf_def)
  then show ?case
  proof cases
    case 1
    have "nodes (child h1 Lft) < nodes h" if "check_move_red h Lft = Some h1" for h1
      using nodes_check_move_red_child [OF that] h by simp
    with less 1 h show ?thesis by (auto intro!: remove_left_step)
  next
    case 2
    then have "del_pre h" using less.prems h by (auto simp: remove_pre_def)
    moreover have "\<forall>x \<in> set (inorder h). 0 < cmp k (snd x)"
      using 2 h less.prems below_differs [of "inorder l" p v "[]" k] by (auto simp: remove_pre_def)
    ultimately have "remove_spec h k h False" by (intro remove_absent)
    then show ?thesis using 2 h by (auto simp: remove_internal.simps(2))
  next
    case 3
    then have z: "l = Null" "r = Null" using h by (auto simp: is_leaf_def)
    then have "del_pre h" using less.prems h by (auto simp: remove_pre_def)
    then have "remove_spec h k Null True" using 3 z h del_pre_leaf [of h]
      by (auto simp: remove_spec_def del_post_def)
    then show ?thesis using 3 z h by (auto simp: remove_internal.simps(2))
  next
    case 4
    have "nodes (child h2 Rgt) < nodes h" if "descend_right h = Some h2" for h2
      using nodes_descend_right [OF that] h by simp
    then show ?thesis
      using less by (intro remove_descend_step [OF less.prems h 4]) auto
  qed
qed

end

section \<open>Removal at the root\<close>

text \<open>
  The root is black and may be a 2-node, which the recursive removals do not expect. No step
  reads the colour of the node it works on, so a removal at a black root gives the result
  of a removal at the same root in red, with the root colour inverted.
\<close>

lemma child_invert [simp]: "child (invert_color h) i = child h i"
  by (cases h; cases i) auto

lemma val_opt_invert [simp]: "val_opt (invert_color h) = val_opt h"
  by (cases h) auto

lemma is_leaf_invert [simp]: "is_leaf (invert_color h) = is_leaf h"
  by (simp add: is_leaf_def)

lemma set_child_invert: "set_child (invert_color h) i t = invert_color (set_child h i t)"
  by (cases h; cases i) auto

lemma rotate_invert: "rotate_node i (invert_color h) = map_option invert_color (rotate_node i h)"
  by (cases "(i, h)" rule: rotate_node.cases) auto

lemma color_flip_invert: "color_flip (invert_color h) = map_option invert_color (color_flip h)"
  by (cases h) auto

lemmas invert_simps = set_child_invert rotate_invert color_flip_invert

lemma check_move_red_invert:
  "check_move_red (invert_color h) i = map_option invert_color (check_move_red h i)"
  by (cases "color_flip h")
    (auto simp: check_move_red_def Let_def invert_simps option.map_comp bind_map_option
      map_option_bind o_def cong: if_cong intro!: Option.bind_cong split: option.splits)

lemma fix_up_invert:
  "fix_up (invert_color h) = map_option invert_color (fix_up h)"
  by (cases "rotate_node Lft h"; cases "rotate_node Rgt h")
    (auto simp: fix_up_def invert_simps option.map_comp bind_map_option
      map_option_bind o_def cong: if_cong intro!: Option.bind_cong split: option.splits)

abbreviation invert_fst :: "'a rbt \<times> 'b \<Rightarrow> 'a rbt \<times> 'b" where
  "invert_fst \<equiv> map_prod invert_color id"

lemma parent_invert [simp]: "parent (invert_color h) = parent h"
  by (cases h) auto

lemma get_color_invert: "h \<noteq> Null \<Longrightarrow> get_color (invert_color h) = flip (get_color h)"
  by (cases h) auto

lemma fix_up_flip:
  "fix_up (Rbn p q (flip c) v l r) = map_option invert_color (fix_up (Rbn p q c v l r))"
  using fix_up_invert [of "Rbn p q c v l r"] by simp

lemma get_color_invert_val: "val_opt h = Some v \<Longrightarrow> get_color (invert_color h) = flip (get_color h)"
  by (cases h) auto

text \<open>The two ways a removal continues below a node that has been prepared.\<close>

lemma continue_invert:
  "(do { (t, result) \<leftarrow> f; h2 \<leftarrow> fix_up (set_child (invert_color h1) i t); Some (h2, result) }) =
   map_option invert_fst (do { (t, result) \<leftarrow> f; h2 \<leftarrow> fix_up (set_child h1 i t); Some (h2, result) })"
  by (cases f)
    (auto simp: set_child_invert fix_up_invert bind_map_option map_option_bind o_def)

lemma replace_invert:
  assumes "val_opt h2 = Some v2"
  shows "(do { (rnew, rmin) \<leftarrow> f; w \<leftarrow> val_opt rmin; assert_ok (child rmin Lft = Null);
      h3 \<leftarrow> fix_up (Rbn (addr rmin) (parent h2) (get_color (invert_color h2)) w
        (set_parent (child h2 Lft) (addr rmin)) (set_parent rnew (addr rmin)));
      Some (h3, True) }) =
    map_option invert_fst (do { (rnew, rmin) \<leftarrow> f; w \<leftarrow> val_opt rmin;
      assert_ok (child rmin Lft = Null);
      h3 \<leftarrow> fix_up (Rbn (addr rmin) (parent h2) (get_color h2) w
        (set_parent (child h2 Lft) (addr rmin)) (set_parent rnew (addr rmin)));
      Some (h3, True) })"
  using assms by (cases f)
    (auto simp: get_color_invert_val fix_up_flip bind_map_option map_option_bind o_def
      intro!: Option.bind_cong)

lemma remove_tail_invert:
  "remove_tail cmp (invert_color h2) k = map_option invert_fst (remove_tail cmp h2 k)"
proof (cases "val_opt h2")
  case (Some v2)
  then show ?thesis using continue_invert [of "remove_internal cmp (child h2 Rgt) k" h2 Rgt]
      replace_invert [OF Some, of "remove_min (child h2 Rgt)"]
    unfolding remove_tail_def by (simp split del: if_split cong: if_cong) (simp split: if_split)
qed (simp add: remove_tail_def)

lemma bind_invert:
  assumes "x' = map_option invert_color x" and "\<And>h. f (invert_color h) = map_option invert_fst (f h)"
  shows "x' \<bind> f = map_option invert_fst (x \<bind> f)"
  using assms by (cases x) auto

lemma remove_turned_invert:
  "(do { v1 \<leftarrow> val_opt h; if cmp k v1 = 0 \<and> is_leaf h then Some (Null, True)
      else check_move_red (invert_color h) Rgt \<bind> (\<lambda>h2. remove_tail cmp h2 k) }) =
    map_option invert_fst (do { v1 \<leftarrow> val_opt h; if cmp k v1 = 0 \<and> is_leaf h
      then Some (Null, True) else check_move_red h Rgt \<bind> (\<lambda>h2. remove_tail cmp h2 k) })"
  by (cases "val_opt h")
    (simp_all add: bind_invert [where f = "\<lambda>h2. remove_tail cmp h2 k", OF check_move_red_invert remove_tail_invert])

lemma remove_internal_invert:
  "remove_internal cmp (invert_color h) k = map_option invert_fst (remove_internal cmp h k)"
proof (cases h)
  case (Rbn p q c v l r)
  let ?h = "Rbn p q c v l r"
  have inv: "check_move_red (Rbn p q (flip c) v l r) i = map_option invert_color (check_move_red ?h i)"
    "(if is_red l then rotate_node Rgt (Rbn p q (flip c) v l r) else Some (Rbn p q (flip c) v l r)) =
     map_option invert_color (if is_red l then rotate_node Rgt ?h else Some ?h)" for i
    using check_move_red_invert [of ?h] rotate_invert [of Rgt ?h] by simp_all
  show ?thesis unfolding Rbn invert_color.simps remove_internal_tail Let_def
    by (simp only: if_distrib [of "map_option invert_fst"])
      (intro if_cong refl bind_invert inv,
       simp_all add: continue_invert remove_turned_invert)
qed simp

end
