(* ===== verification/Rbtree_Correct.thy ===== *)
theory Rbtree_Correct
  imports Rbtree_Inv
begin

text \<open>
  Functional correctness of the red-black tree: the invariant of a whole tree and the
  contracts of insertion, removal and the searches.
\<close>

section \<open>Insertion\<close>

text \<open>Insertion may leave a red node with a red left child; the level above repairs it.\<close>

fun invc_weak :: "'a rbt \<Rightarrow> bool" where
  "invc_weak Null = False"
| "invc_weak (Rbn p q c v l r) \<longleftrightarrow> \<not> is_red r \<and> invc l \<and> invc r"

definition ins_post :: "'a rbt \<Rightarrow> 'a rbt \<Rightarrow> bool" where
  "ins_post h t \<longleftrightarrow> invc_weak t \<and> invh t \<and> bh t = bh h \<and> (\<not> is_red h \<longrightarrow> invc t)"

lemma ins_post_left:
  assumes "rb_ok (Rbn p q c v l r)" and "ins_post l l'"
  shows "\<exists>t. fix_up (Rbn p q c v l' r) = Some t \<and> ins_post (Rbn p q c v l r) t"
proof (cases "is_red l' \<and> is_red (child l' Lft)")
  case False
  with assms have "fix_up (Rbn p q c v l' r) = Some (Rbn p q c v l' r)"
    by (auto simp: fix_up_def)
  moreover have "invc l'" using False assms by (cases l') (auto simp: ins_post_def)
  ultimately show ?thesis using assms False by (cases "is_red l") (auto simp: ins_post_def)
next
  case True
  then obtain pl ql vl px qx vx xl xr lr where
    "l' = Rbn pl ql Red vl (Rbn px qx Red vx xl xr) lr" by (auto elim!: redE)
  then show ?thesis using assms by (cases "is_red l") (auto simp: fix_up_def ins_post_def)
qed

lemma ins_post_right:
  assumes "rb_ok (Rbn p q c v l r)" and "ins_post r r'"
  shows "\<exists>t. fix_up (Rbn p q c v l r') = Some t \<and> ins_post (Rbn p q c v l r) t"
proof (cases "is_red r'")
  case False
  with assms show ?thesis by (auto simp: fix_up_id ins_post_def)
next
  case True
  then obtain pr qr vr rl rr where "r' = Rbn pr qr Red vr rl rr" by (auto elim!: redE)
  then show ?thesis using assms
    by (cases l) (auto simp: fix_up_def ins_post_def dest: invc_red_left)
qed

lemma ins_post_new: "ins_post Null (set_parent (Rbn a 0 Red w Null Null) p)"
  by (simp add: ins_post_def)

text \<open>Insertion of a node into an ordered sequence.\<close>

fun ins_list :: "('a \<Rightarrow> 'a \<Rightarrow> int) \<Rightarrow> nat \<times> 'a \<Rightarrow> (nat \<times> 'a) list \<Rightarrow> (nat \<times> 'a) list" where
  "ins_list cmp x [] = [x]"
| "ins_list cmp x (y # ys) =
     (if cmp (snd x) (snd y) < 0 then x # y # ys
      else if cmp (snd x) (snd y) = 0 then y # ys
      else y # ins_list cmp x ys)"

context key_compare
begin

lemma ins_list_below:
  "\<forall>x \<in> set xs. 0 < cmp (snd n) (snd x) \<Longrightarrow> ins_list cmp n (xs @ ys) = xs @ ins_list cmp n ys"
  by (induction xs) auto

lemma ins_list_above:
  "cmp (snd n) (snd y) < 0 \<Longrightarrow> ins_list cmp n (xs @ y # ys) = ins_list cmp n xs @ y # ys"
  by (induction xs) auto

lemma ins_list_absent:
  "\<forall>x \<in> set xs. cmp (snd n) (snd x) \<noteq> 0 \<Longrightarrow> mset (ins_list cmp n xs) = add_mset n (mset xs)"
  by (induction xs) auto

lemma ins_list_present:
  "sorted_nodes xs \<Longrightarrow> \<exists>x \<in> set xs. cmp (snd n) (snd x) = 0 \<Longrightarrow> ins_list cmp n xs = xs"
proof (induction xs)
  case (Cons y ys)
  then show ?case
    using above_differs [of "fst y" "snd y" ys "snd n"] by (fastforce simp: sorted_nodes_Cons)
qed simp

lemma set_ins_list: "set (ins_list cmp n xs) \<subseteq> insert n (set xs)"
  by (induction xs) auto

lemma sorted_ins_list: "sorted_nodes xs \<Longrightarrow> sorted_nodes (ins_list cmp n xs)"
proof (induction xs)
  case (Cons y ys)
  have "cmp (snd y) (snd n) < 0" if "0 < cmp (snd n) (snd y)"
    using that cmp_sym by blast
  moreover have "sorted_nodes (n # y # ys)" if "cmp (snd n) (snd y) < 0"
    using above_differs [of "fst y" "snd y" ys "snd n"] Cons.prems that
    by (simp add: sorted_nodes_Cons)
  ultimately show ?case using Cons set_ins_list [of n ys]
    by (auto simp: sorted_nodes_Cons linorder_neq_iff)
qed (simp add: sorted_nodes_def)

lemma insert_node_internal_correct:
  assumes "h \<noteq> Null" "rb_ok h" "sorted_nodes (inorder h)"
  shows "\<exists>t. insert_node_internal cmp h (Rbn a 0 Red w Null Null) =
      Some (t, \<forall>x \<in> set (inorder h). cmp w (snd x) \<noteq> 0) \<and>
    inorder t = ins_list cmp (a, w) (inorder h) \<and> ins_post h t"
  using assms
proof (induction h)
  case (Rbn p q c v l r)
  let ?n = "Rbn a 0 Red w Null Null" and ?h = "Rbn p q c v l r"
  have sl: "sorted_nodes (inorder l)" and sr: "sorted_nodes (inorder r)"
    and srv: "sorted_nodes ((p, v) # inorder r)"
    using Rbn.prems(3) by (auto simp: sorted_nodes_append sorted_nodes_Cons)
  consider (lt) "cmp w v < 0" | (eq) "cmp w v = 0" | (gt) "0 < cmp w v" by linarith
  then show ?case
  proof cases
    case lt
    have above: "\<forall>x \<in> set ((p, v) # inorder r). cmp w (snd x) < 0"
      using srv lt by (rule above_differs)
    obtain l' where l': "inorder l' = ins_list cmp (a, w) (inorder l)" "ins_post l l'"
      "insert_node_internal cmp ?h ?n = (do {
         h2 \<leftarrow> fix_up (Rbn p q c v l' r); Some (h2, \<forall>x \<in> set (inorder l). cmp w (snd x) \<noteq> 0) })"
    proof (cases "l = Null")
      case True
      show thesis by (rule that [of "set_parent ?n p"]) (use True lt ins_post_new [of a w p] in auto)
    next
      case False
      with Rbn.IH(1) Rbn.prems(2) sl obtain l' where
        "insert_node_internal cmp l ?n = Some (l', \<forall>x \<in> set (inorder l). cmp w (snd x) \<noteq> 0)"
        "inorder l' = ins_list cmp (a, w) (inorder l)" "ins_post l l'" by auto
      then show thesis using False lt by (intro that [of l']) auto
    qed
    then obtain t where t: "fix_up (Rbn p q c v l' r) = Some t" "ins_post ?h t"
      using ins_post_left [OF Rbn.prems(2)] by blast
    have "inorder t = ins_list cmp (a, w) (inorder ?h)"
      using inorder_fix_up [OF t(1)] l'(1) lt ins_list_above [of "(a, w)" "(p, v)"] by simp
    moreover have "(\<forall>x \<in> set (inorder l). cmp w (snd x) \<noteq> 0) =
        (\<forall>x \<in> set (inorder ?h). cmp w (snd x) \<noteq> 0)"
      using above by auto
    ultimately show ?thesis using l'(3) t by auto
  next
    case eq
    have "fix_up ?h = Some ?h" using Rbn.prems(2) by (simp add: fix_up_id)
    moreover have "ins_list cmp (a, w) (inorder ?h) = inorder ?h"
      using Rbn.prems(3) eq by (intro ins_list_present) auto
    ultimately show ?thesis using eq Rbn.prems(2) by (auto simp: ins_post_def)
  next
    case gt
    have below: "\<forall>x \<in> set (inorder l @ [(p, v)]). 0 < cmp w (snd x)"
      using below_differs [of "inorder l" p v "inorder r" w] Rbn.prems(3) gt by auto
    obtain r' where r': "inorder r' = ins_list cmp (a, w) (inorder r)" "ins_post r r'"
      "insert_node_internal cmp ?h ?n = (do {
         h2 \<leftarrow> fix_up (Rbn p q c v l r'); Some (h2, \<forall>x \<in> set (inorder r). cmp w (snd x) \<noteq> 0) })"
    proof (cases "r = Null")
      case True
      show thesis by (rule that [of "set_parent ?n p"]) (use True gt ins_post_new [of a w p] in auto)
    next
      case False
      with Rbn.IH(2) Rbn.prems(2) sr obtain r' where
        "insert_node_internal cmp r ?n = Some (r', \<forall>x \<in> set (inorder r). cmp w (snd x) \<noteq> 0)"
        "inorder r' = ins_list cmp (a, w) (inorder r)" "ins_post r r'" by auto
      then show thesis using False gt by (intro that [of r']) auto
    qed
    then obtain t where t: "fix_up (Rbn p q c v l r') = Some t" "ins_post ?h t"
      using ins_post_right [OF Rbn.prems(2)] by blast
    have "inorder t = ins_list cmp (a, w) (inorder ?h)"
      using inorder_fix_up [OF t(1)] r'(1) below
        ins_list_below [of "inorder l @ [(p, v)]" "(a, w)" "inorder r"] by simp
    moreover have "(\<forall>x \<in> set (inorder r). cmp w (snd x) \<noteq> 0) =
        (\<forall>x \<in> set (inorder ?h). cmp w (snd x) \<noteq> 0)"
      using below by auto
    ultimately show ?thesis using r'(3) t by auto
  qed
qed simp

end

section \<open>Parent links\<close>

lemma par_ok_insert [parent_simps]:
  "insert_node_internal cmp h (Rbn a 0 Red w Null Null) = Some (h', res) \<Longrightarrow> par_ok q h \<Longrightarrow> par_ok q h'"
proof (induction h arbitrary: q h' res)
  case (Rbn p q0 c v l r)
  then obtain h1 where h1: "fix_up h1 = Some h'" and cases: "h1 = Rbn p q0 c v l r \<or>
      h1 = Rbn p q0 c v (Rbn a p Red w Null Null) r \<or> h1 = Rbn p q0 c v l (Rbn a p Red w Null Null) \<or>
      (\<exists>l' x. insert_node_internal cmp l (Rbn a 0 Red w Null Null) = Some (l', x) \<and> h1 = Rbn p q0 c v l' r) \<or>
      (\<exists>r' x. insert_node_internal cmp r (Rbn a 0 Red w Null Null) = Some (r', x) \<and> h1 = Rbn p q0 c v l r')"
    by (auto simp: Let_def split: if_splits bind_splits)
  from cases have "par_ok q h1" using Rbn.IH Rbn.prems(2) by auto
  with h1 show ?case by (rule par_ok_fix_up)
qed simp

lemma par_ok_remove_tail:
  assumes IH: "\<And>r' res q. remove_internal cmp (child h2 Rgt) k = Some (r', res) \<Longrightarrow>
      par_ok q (child h2 Rgt) \<Longrightarrow> par_ok q r'"
    and rem: "remove_tail cmp h2 k = Some (h', res)" and ok: "par_ok q h2"
  shows "par_ok q h'"
proof -
  obtain v2 where v2: "val_opt h2 = Some v2" using rem by (auto simp: remove_tail_def split: bind_splits)
  consider (stay) "h' = h2"
    | (deep) r' where "remove_internal cmp (child h2 Rgt) k = Some (r', res)"
        "fix_up (set_child h2 Rgt r') = Some h'"
    | (match) rnew rmin w where "remove_min (child h2 Rgt) = Some (rnew, rmin)"
        "fix_up (Rbn (addr rmin) (parent h2) (get_color h2) w (set_parent (child h2 Lft) (addr rmin))
          (set_parent rnew (addr rmin))) = Some h'"
    using rem v2 by (auto simp: remove_tail_def split: if_splits bind_splits)
  then show ?thesis
  proof cases
    case deep
    then show ?thesis using IH ok by (blast intro: par_ok_fix_up par_ok_set_child par_ok_child)
  next
    case match
    have "h2 \<noteq> Null" using v2 by auto
    moreover have "par_ok (addr h2) rnew" "par_ok (addr h2) (child h2 Lft)"
      using match(1) par_ok_remove_min par_ok_child [OF ok] by blast+
    ultimately show ?thesis using ok by (intro par_ok_fix_up [OF match(2)]) (auto simp: par_ok_parent)
  qed (use ok in simp)
qed

lemma par_ok_remove_internal [parent_simps]:
  "remove_internal cmp h k = Some (h', res) \<Longrightarrow> par_ok q h \<Longrightarrow> par_ok q h'"
proof (induction "nodes h" arbitrary: h q h' res rule: less_induct)
  case less
  show ?case
  proof (cases h)
    case h: (Rbn p q0 c v l r)
    consider (same) "h' = h" | (null) "h' = Null"
      | (left) h1 l' where "check_move_red h Lft = Some h1"
          "remove_internal cmp (child h1 Lft) k = Some (l', res)" "fix_up (set_child h1 Lft l') = Some h'"
      | (right) h1 h2 where "h1 = h \<or> rotate_node Rgt h = Some h1" "check_move_red h1 Rgt = Some h2"
          "remove_tail cmp h2 k = Some (h', res)"
      using less.prems(1) unfolding h
      by (auto simp: remove_internal_tail Let_def split: if_splits bind_splits)
    then show ?thesis
    proof cases
      case left
      have "par_ok q h1" using left(1) less.prems(2) by (rule par_ok_check_move_red)
      moreover have "par_ok (addr h1) l'"
        using less.hyps [OF _ left(2)] nodes_check_move_red_child [OF left(1)] h
          par_ok_child [OF \<open>par_ok q h1\<close>] by simp
      ultimately show ?thesis using left(3) by (blast intro: par_ok_fix_up par_ok_set_child)
    next
      case right
      have "par_ok q h1" "nodes h1 = nodes h"
        using right(1) less.prems(2) by (auto intro: par_ok_rotate nodes_rotate)
      moreover have "h1 \<noteq> Null" using \<open>nodes h1 = nodes h\<close> h by auto
      ultimately have "nodes (child h2 Rgt) < nodes h"
        using nodes_check_move_red_child [OF right(2), of Rgt] by simp
      from less.hyps [OF this] show ?thesis
        using par_ok_check_move_red [OF right(2) \<open>par_ok q h1\<close>]
        by (rule par_ok_remove_tail [OF _ right(3)])
    qed (use less.prems in auto)
  qed (use less.prems in simp)
qed

section \<open>Whole trees\<close>

text \<open>
  The invariant of a tree: the red-black conditions with a black root, consistent parent
  links, nodes at different non-null addresses, keys in strictly increasing order, and the
  node count.
\<close>

definition rbtree_wf :: "('a \<Rightarrow> 'a \<Rightarrow> int) \<Rightarrow> 'a rbtree \<Rightarrow> bool" where
  "rbtree_wf cmp t \<longleftrightarrow>
     (let root = rb_root t; xs = inorder root in
      rb_ok root \<and> \<not> is_red root \<and> par_ok 0 root \<and>
      distinct (map fst xs) \<and> 0 \<notin> fst ` set xs \<and>
      sorted_wrt (\<lambda>x y. cmp (snd x) (snd y) < 0) xs \<and> rb_count t = length xs)"

lemma rb_ok_set_black [simp]: "rb_ok t \<Longrightarrow> rb_ok (set_color t Black)"
  by (cases t) auto

lemma ins_post_set_black: "ins_post h t \<Longrightarrow> rb_ok (set_color t Black)"
  by (cases t) (auto simp: ins_post_def)

lemma is_red_set_black [simp]: "\<not> is_red (set_color t Black)"
  by (cases t) auto

lemma set_color_invert [simp]: "set_color (invert_color t) c = set_color t c"
  by (cases t) auto

lemma flip_flip [simp]: "flip (flip c) = c"
  by (cases c) auto

lemma invert_invert [simp]: "invert_color (invert_color t) = t"
  by (cases t) auto

lemma init_rbtree_wf: "rbtree_wf cmp init_rbtree"
  by (simp add: rbtree_wf_def init_rbtree_def)

context key_compare
begin

lemma cmp_zero_left: "cmp k a = 0 \<Longrightarrow> cmp k b = 0 \<longleftrightarrow> cmp a b = 0"
  using cmp_eq [of k a b] by (auto simp: sgn_if split: if_splits)

lemma filter_differs_length:
  assumes "sorted_nodes xs" and "\<exists>x \<in> set xs. \<not> differs k x"
  shows "length xs = Suc (length (filter (differs k) xs))"
  using assms
proof (induction xs)
  case (Cons y ys)
  show ?case
  proof (cases "cmp k (snd y) = 0")
    case True
    have "\<forall>x \<in> set ys. cmp k (snd x) \<noteq> 0"
      using Cons.prems(1) by (auto simp: sorted_nodes_Cons cmp_zero_left [OF True])
    then show ?thesis using True by (simp add: sorted_wrt_filter_id)
  qed (use Cons in \<open>auto simp: sorted_nodes_Cons\<close>)
qed simp

text \<open>The root may be a black 2-node, which the recursion treats like a red one.\<close>

lemma remove_root_correct:
  assumes "rb_ok h" "\<not> is_red h" "sorted_nodes (inorder h)"
  shows "\<exists>t. remove_internal cmp h k = Some (t, \<exists>x \<in> set (inorder h). \<not> differs k x) \<and>
    inorder t = filter (differs k) (inorder h) \<and> rb_ok (set_color t Black)"
proof (cases "h = Null \<or> is_red (child h Lft)")
  case True
  then show ?thesis using assms remove_internal_correct [of h k]
    by (cases h) (auto simp: remove_pre_def del_pre_def remove_spec_def del_post_def)
next
  case False
  then have "remove_pre (invert_color h) k"
    using assms by (cases h) (auto simp: remove_pre_def del_pre_def)
  then obtain t res where "remove_internal cmp (invert_color h) k = Some (t, res)"
    and spec: "remove_spec (invert_color h) k t res" using remove_internal_correct by blast
  then have "remove_internal cmp h k = Some (invert_color t, res)"
    using remove_internal_invert [of cmp "invert_color h" k] by simp
  then show ?thesis using spec by (auto simp: remove_spec_def del_post_def)
qed

lemma remove_by_key_correct:
  assumes "rbtree_wf cmp t"
  shows "\<exists>t'. rbtree_remove_by_key cmp t k =
      Some (t', \<exists>x \<in> set (inorder (rb_root t)). \<not> differs k x) \<and> rbtree_wf cmp t' \<and>
    inorder (rb_root t') = filter (differs k) (inorder (rb_root t))"
proof -
  let ?xs = "inorder (rb_root t)"
  from assms have wf: "rb_ok (rb_root t)" "\<not> is_red (rb_root t)" "par_ok 0 (rb_root t)"
    "distinct (map fst ?xs)" "0 \<notin> fst ` set ?xs" "sorted_nodes ?xs" "rb_count t = length ?xs"
    by (auto simp: rbtree_wf_def sorted_nodes_def Let_def)
  obtain r where r: "remove_internal cmp (rb_root t) k = Some (r, \<exists>x \<in> set ?xs. \<not> differs k x)"
    "inorder r = filter (differs k) ?xs" "rb_ok (set_color r Black)"
    using remove_root_correct [OF wf(1,2,6)] by blast
  have "par_ok 0 r" using r(1) wf(3) by (rule par_ok_remove_internal)
  moreover have "distinct (map fst (filter (differs k) ?xs))"
    using wf(4) by (rule distinct_map_filter)
  moreover have "length (filter (differs k) ?xs) =
      (if \<exists>x \<in> set ?xs. \<not> differs k x then length ?xs - 1 else length ?xs)"
    using filter_differs_length [OF wf(6), of k]
    by (cases "\<exists>x \<in> set ?xs. \<not> differs k x") (simp_all add: sorted_wrt_filter_id)
  moreover have "\<exists>x \<in> set ?xs. \<not> differs k x \<Longrightarrow> ?xs \<noteq> []" by auto
  ultimately show ?thesis using r wf(5,6,7) unfolding rbtree_remove_by_key_def
    by (auto simp: rbtree_wf_def Let_def sorted_nodes_def sorted_wrt_filter)
qed

lemma insert_correct:
  assumes "rbtree_wf cmp t" and "a \<noteq> 0" "a \<notin> fst ` set (inorder (rb_root t))"
  shows "\<exists>t'. rbtree_insert_node cmp t (init_rbnode a w) =
      Some (t', \<forall>x \<in> set (inorder (rb_root t)). differs w x) \<and> rbtree_wf cmp t' \<and>
    inorder (rb_root t') = ins_list cmp (a, w) (inorder (rb_root t))"
proof (cases "rb_root t = Null")
  case True
  then show ?thesis using assms
    by (auto simp: rbtree_insert_node_def init_rbnode_def rbtree_wf_def Let_def)
next
  case False
  let ?xs = "inorder (rb_root t)" and ?b = "\<forall>x \<in> set (inorder (rb_root t)). differs w x"
  from assms(1) have wf: "rb_ok (rb_root t)" "par_ok 0 (rb_root t)"
    "distinct (map fst ?xs)" "0 \<notin> fst ` set ?xs" "sorted_nodes ?xs" "rb_count t = length ?xs"
    by (auto simp: rbtree_wf_def sorted_nodes_def Let_def)
  obtain r where r: "insert_node_internal cmp (rb_root t) (Rbn a 0 Red w Null Null) = Some (r, ?b)"
    "inorder r = ins_list cmp (a, w) ?xs" "ins_post (rb_root t) r"
    using insert_node_internal_correct [OF False wf(1,5)] by blast
  have "par_ok 0 r" using r(1) wf(2) by (rule par_ok_insert)
  moreover have mset: "mset (inorder r) = (if ?b then add_mset (a, w) (mset ?xs) else mset ?xs)"
    using ins_list_absent [of ?xs "(a, w)"] ins_list_present [OF wf(5), of "(a, w)"] r(2) by auto
  moreover have "length (inorder r) = (if ?b then Suc (length ?xs) else length ?xs)"
    using arg_cong [OF mset, of size] by (auto split: if_splits)
  moreover have "set (inorder r) = (if ?b then insert (a, w) (set ?xs) else set ?xs)"
    using arg_cong [OF mset, of set_mset] by (auto split: if_splits)
  moreover have "mset (map fst (inorder r)) = mset (map fst (if ?b then (a, w) # ?xs else ?xs))"
    using mset by (auto split: if_splits)
  then have "distinct (map fst (inorder r))"
    using mset_eq_imp_distinct_iff wf(3) assms(3) by (fastforce split: if_splits)
  moreover have "sorted_nodes (inorder r)" using r(2) sorted_ins_list [OF wf(5)] by simp
  moreover have "rb_ok (set_color r Black)" using r(3) by (rule ins_post_set_black)
  ultimately show ?thesis using r(1,2) wf(4,6) assms(2) False
    by (auto simp: rbtree_insert_node_def init_rbnode_def rbtree_wf_def Let_def sorted_nodes_def)
qed

end

end
