(* ===== verification/Rbtree_Walk.thy ===== *)
theory Rbtree_Walk
  imports Rbtree_Correct
begin

text \<open>
  The operations of the red-black tree that only read it: searches, the in-order neighbours
  found through parent links, the traversals and \<^verbatim>\<open>rbtree_validate\<close>. The contracts of the
  whole component stand at the end.
\<close>

section \<open>Nodes by address\<close>

abbreviation addrs :: "'a rbt \<Rightarrow> nat set" where
  "addrs t \<equiv> fst ` set (inorder t)"

definition tree_ok :: "'a rbt \<Rightarrow> bool" where
  "tree_ok t \<longleftrightarrow> distinct (map fst (inorder t)) \<and> 0 \<notin> addrs t"

lemma node_at_Null [simp]: "a \<notin> addrs t \<Longrightarrow> node_at t a = Null"
  by (induction t) auto

lemma node_at_not_Null: "a \<in> addrs t \<Longrightarrow> node_at t a \<noteq> Null"
  by (induction t) auto

lemma addr_node_at [simp]: "a \<in> addrs t \<Longrightarrow> addr (node_at t a) = a"
proof (induction t)
  case (Rbn p q c v l r)
  then show ?case using node_at_not_Null [of a l] by (cases "a \<in> addrs l") auto
qed simp

lemma node_at_addr [simp]: "t \<noteq> Null \<Longrightarrow> node_at t (addr t) = t"
  by (cases t) auto

lemma addr_in_addrs [simp]: "t \<noteq> Null \<Longrightarrow> addr t \<in> addrs t"
  by (cases t) auto

lemma tree_ok_Rbn:
  "tree_ok (Rbn p q c v l r) \<longleftrightarrow> p \<noteq> 0 \<and> p \<notin> addrs l \<and> p \<notin> addrs r \<and>
     addrs l \<inter> addrs r = {} \<and> tree_ok l \<and> tree_ok r"
  by (auto simp: tree_ok_def)

lemma node_at_left: "tree_ok (Rbn p q c v l r) \<Longrightarrow> a \<in> addrs l \<Longrightarrow>
    node_at (Rbn p q c v l r) a = node_at l a"
  using node_at_not_Null [of a l] by (auto simp: tree_ok_Rbn)

lemma node_at_right: "tree_ok (Rbn p q c v l r) \<Longrightarrow> a \<in> addrs r \<Longrightarrow>
    node_at (Rbn p q c v l r) a = node_at r a"
proof -
  assume "tree_ok (Rbn p q c v l r)" and a: "a \<in> addrs r"
  then have "a \<notin> addrs l" "a \<noteq> p" unfolding tree_ok_Rbn by blast+
  then show "node_at (Rbn p q c v l r) a = node_at r a" by simp
qed

lemma map_node_at_left:
  "tree_ok (Rbn p q c v l r) \<Longrightarrow> (\<And>x. y = Some x \<Longrightarrow> x \<in> set (inorder l)) \<Longrightarrow>
     map_option (\<lambda>x. node_at (Rbn p q c v l r) (fst x)) y = map_option (\<lambda>x. node_at l (fst x)) y"
  by (cases y) (simp_all add: node_at_left imageI del: node_at.simps)

lemma map_node_at_right:
  "tree_ok (Rbn p q c v l r) \<Longrightarrow> (\<And>x. y = Some x \<Longrightarrow> x \<in> set (inorder r)) \<Longrightarrow>
     map_option (\<lambda>x. node_at (Rbn p q c v l r) (fst x)) y = map_option (\<lambda>x. node_at r (fst x)) y"
  by (cases y) (simp_all add: node_at_right imageI del: node_at.simps)

lemma node_at_root [simp]: "node_at (Rbn p q c v l r) p = Rbn p q c v l r"
  by simp

lemma addr_nonzero: "tree_ok t \<Longrightarrow> t \<noteq> Null \<Longrightarrow> addr t \<noteq> 0"
  by (cases t) (auto simp: tree_ok_Rbn)

section \<open>In-order neighbours\<close>

text \<open>The in-order sequence in the direction of a hand.\<close>

definition walk :: "hand \<Rightarrow> 'a rbt \<Rightarrow> (nat \<times> 'a) list" where
  "walk hand t = (if hand = Rgt then inorder t else rev (inorder t))"

lemma walk_simps [simp]:
  "walk hand Null = []"
  "walk Rgt (Rbn p q c v l r) = walk Rgt l @ (p, v) # walk Rgt r"
  "walk Lft (Rbn p q c v l r) = walk Lft r @ (p, v) # walk Lft l"
  by (auto simp: walk_def)

lemma walk_empty [simp]: "walk hand t = [] \<longleftrightarrow> t = Null"
  by (cases t; cases hand) auto

lemma set_walk [simp]: "set (walk hand t) = set (inorder t)"
  by (simp add: walk_def)

lemma find_limit_first:
  "t \<noteq> Null \<Longrightarrow> tree_ok t \<Longrightarrow>
     find_limit t (hand = Lft) = Some (node_at t (fst (hd (walk hand t))))"
proof (induction t)
  case (Rbn p q c v l r)
  show ?case
  proof (cases hand)
    case Lft
    have "fst (hd (walk Lft r)) \<in> addrs r" if "r \<noteq> Null"
      using that hd_in_set [of "walk Lft r"] by (simp del: hd_in_set)
    then show ?thesis using Rbn Lft node_at_right [OF Rbn.prems(2)]
      by (auto simp: tree_ok_Rbn simp del: node_at.simps)
  next
    case Rgt
    have "fst (hd (walk Rgt l)) \<in> addrs l" if "l \<noteq> Null"
      using that hd_in_set [of "walk Rgt l"] by (simp del: hd_in_set)
    then show ?thesis using Rbn Rgt node_at_left [OF Rbn.prems(2)]
      by (auto simp: tree_ok_Rbn simp del: node_at.simps)
  qed
qed simp

text \<open>
  The climb from a subtree \<open>s\<close> of \<open>root\<close>: \<open>R\<close> is what the climb from the root of \<open>s\<close> finds, and
  every neighbour inside \<open>s\<close> is found in \<open>s\<close>.
\<close>

definition subtree_of :: "'a rbt \<Rightarrow> 'a rbt \<Rightarrow> bool" where
  "subtree_of root s \<longleftrightarrow> (\<forall>a \<in> addrs s. node_at root a = node_at s a)"

lemma subtree_ofD: "subtree_of root s \<Longrightarrow> a \<in> addrs s \<Longrightarrow> node_at root a = node_at s a"
  unfolding subtree_of_def by blast

lemma subtree_of_children:
  assumes "subtree_of root (Rbn p q c v l r)" and "tree_ok (Rbn p q c v l r)"
  shows "subtree_of root l" "subtree_of root r" "node_at root p = Rbn p q c v l r"
  using assms node_at_left [OF assms(2)] node_at_right [OF assms(2)]
  by (auto simp: subtree_of_def simp del: node_at.simps)

lemma climb_inner:
  assumes "h \<noteq> Null" "parent h \<noteq> 0" "addr (child (node_at root (parent h)) (other hand)) = addr h"
  shows "find_ancestor_of_hand root h hand = Some (Some (node_at root (parent h)))"
  using assms by (simp add: find_ancestor_of_hand.simps [of root h])

lemma climb_outer:
  assumes "h \<noteq> Null" "parent h \<noteq> 0" "addr (child (node_at root (parent h)) (other hand)) \<noteq> addr h"
  shows "find_ancestor_of_hand root h hand = find_ancestor_of_hand root (node_at root (parent h)) hand"
  using assms by (simp add: find_ancestor_of_hand.simps [of root h])

lemma climb_child:
  assumes sub: "subtree_of root (Rbn p q c v l r)" and ok: "tree_ok (Rbn p q c v l r)"
    and par: "par_ok q (Rbn p q c v l r)" and s: "s = child (Rbn p q c v l r) side" "s \<noteq> Null"
  shows "find_ancestor_of_hand root s hand =
    (if side = hand then find_ancestor_of_hand root (Rbn p q c v l r) hand
     else Some (Some (Rbn p q c v l r)))"
proof -
  have "parent s = p" "p \<noteq> 0" using par s ok by (cases side; cases s; auto simp: tree_ok_Rbn)+
  moreover have at: "node_at root p = Rbn p q c v l r" by (rule subtree_of_children [OF sub ok])
  moreover have "addr l \<noteq> addr r" if "l \<noteq> Null \<or> r \<noteq> Null"
    using that ok addr_in_addrs [of l] addr_in_addrs [of r] addr_nonzero [of l] addr_nonzero [of r]
    unfolding tree_ok_Rbn by (metis addr.simps(1) disjoint_iff)
  ultimately show ?thesis using s climb_inner [of s root hand] climb_outer [of s root hand]
    by (cases side; cases hand) auto
qed

lemma hd_walk_in: "t \<noteq> Null \<Longrightarrow> fst (hd (walk hand t)) \<in> addrs t"
  using hd_in_set [of "walk hand t"] by (simp del: hd_in_set)

text \<open>The sequence is cut at the node \<open>a\<close>; \<open>near\<close> is what follows it inside the subtree.\<close>

lemma adjacent_in_subtree:
  assumes "subtree_of root s" "tree_ok s" "par_ok q s" "walk hand s = xs @ (a, w) # ys"
    and "find_ancestor_of_hand root s hand = Some R"
  shows "get_adjacent_inorder root (node_at s a) hand =
    Some (if ys = [] then R else Some (node_at root (fst (hd ys))))"
  using assms
proof (induction s arbitrary: q xs ys R)
  case (Rbn p q0 c v l r)
  let ?s = "Rbn p q0 c v l r"
  define near far where "near = child ?s (other hand)" and "far = child ?s hand"
  have split: "walk hand ?s = walk hand near @ (p, v) # walk hand far"
    by (cases hand) (simp_all add: near_def far_def)
  have par: "par_ok q0 ?s" using Rbn.prems(3) by simp
  note subs = subtree_of_children [OF Rbn.prems(1,2)]
  note climb = climb_child [OF Rbn.prems(1,2) par]
  have sub: "subtree_of root near" "subtree_of root far" "tree_ok near" "tree_ok far"
    "par_ok p near" "par_ok p far" "p \<notin> addrs near" "p \<notin> addrs far"
    using subs Rbn.prems(2,3) by (cases hand; simp add: near_def far_def tree_ok_Rbn)+
  have IH: "walk hand t = xs @ (a, w) # ys \<Longrightarrow> find_ancestor_of_hand root t hand = Some R \<Longrightarrow>
      get_adjacent_inorder root (node_at t a) hand =
        Some (if ys = [] then R else Some (node_at root (fst (hd ys))))"
    if "t = near \<or> t = far" for t xs ys R
    using Rbn.IH(1) [of p xs ys R] Rbn.IH(2) [of p xs ys R] that sub
    by (cases hand) (auto simp: near_def far_def)
  have at: "node_at ?s b = node_at t b" if "t = near \<or> t = far" "b \<in> addrs t" for t b
    using that node_at_left [OF Rbn.prems(2)] node_at_right [OF Rbn.prems(2)]
    by (cases hand) (auto simp: near_def far_def simp del: node_at.simps)
  from Rbn.prems(4) split consider
      (near) zs where "walk hand near = xs @ (a, w) # zs" "ys = zs @ (p, v) # walk hand far"
    | (here) "a = p" "ys = walk hand far"
    | (far) zs where "walk hand far = zs @ (a, w) # ys"
    by (fastforce simp: append_eq_append_conv2 append_eq_Cons_conv Cons_eq_append_conv)
  then show ?case
  proof cases
    case near
    then have "near \<noteq> Null" "a \<in> addrs near" using set_walk [of hand near] by force+
    moreover have "find_ancestor_of_hand root near hand = Some (Some ?s)"
      using climb [OF near_def \<open>near \<noteq> Null\<close>, of hand] by (cases hand) auto
    ultimately show ?thesis using IH [of near, OF _ near(1)] at [of near] near(2) subs(3)
      by (cases zs) (simp_all del: node_at.simps)
  next
    case here
    have "node_at ?s a = ?s" using here by simp
    moreover have "find_limit far (hand = Lft) = Some (node_at root (fst (hd (walk hand far))))"
      if "far \<noteq> Null"
      using that find_limit_first [OF that sub(4), of hand] 
        subtree_ofD [OF sub(2) hd_walk_in [OF that, of hand]] by simp
    ultimately show ?thesis using Rbn.prems(5) here far_def
      by (simp add: get_adjacent_inorder_def Let_def)
  next
    case far
    then have "far \<noteq> Null" "a \<in> addrs far" using set_walk [of hand far] by force+
    moreover have "find_ancestor_of_hand root far hand = Some R"
      using climb [OF far_def \<open>far \<noteq> Null\<close>, of hand] Rbn.prems(5) by simp
    ultimately show ?thesis using IH [of far, OF _ far] at [of far]
      by (simp del: node_at.simps)
  qed
qed simp

lemma adjacent_correct:
  assumes "tree_ok root" "par_ok 0 root" "walk hand root = xs @ (a, w) # ys"
  shows "get_adjacent_inorder root (node_at root a) hand =
    Some (if ys = [] then None else Some (node_at root (fst (hd ys))))"
proof (rule adjacent_in_subtree [OF _ assms])
  show "subtree_of root root" by (simp add: subtree_of_def)
  have "root \<noteq> Null" using assms(3) by auto
  then show "find_ancestor_of_hand root root hand = Some None"
    using assms(2) by (simp add: find_ancestor_of_hand.simps [of root root] par_ok_parent)
qed

section \<open>Searches\<close>

lemma val_node_at: "(a, w) \<in> set (inorder t) \<Longrightarrow> tree_ok t \<Longrightarrow> val_opt (node_at t a) = Some w"
proof (induction t)
  case (Rbn p q c v l r)
  then consider "a = p" "w = v" | "(a, w) \<in> set (inorder l)" "a \<in> addrs l"
    | "(a, w) \<in> set (inorder r)" "a \<in> addrs r"
    by (force simp: tree_ok_Rbn)
  then show ?case
    using Rbn.IH Rbn.prems(2) node_at_left [OF Rbn.prems(2)] node_at_right [OF Rbn.prems(2)]
    by cases (simp_all add: tree_ok_Rbn del: node_at.simps)
qed simp

lemma find_in_set: "find P xs = Some x \<Longrightarrow> x \<in> set xs"
  by (auto simp: find_Some_iff)

context key_compare
begin

lemma lookup_correct:
  assumes "tree_ok t" "sorted_nodes (inorder t)"
  shows "rbtree_lookup cmp t k =
    map_option (\<lambda>x. node_at t (fst x)) (find (\<lambda>x. \<not> differs k x) (inorder t))"
  using assms
proof (induction t)
  case (Rbn p q c v l r)
  let ?s = "Rbn p q c v l r" and ?P = "\<lambda>x. \<not> differs k x"
  have ok: "tree_ok l" "tree_ok r" "sorted_nodes (inorder l)" "sorted_nodes (inorder r)"
    "sorted_nodes ((p, v) # inorder r)" "sorted_nodes (inorder l @ (p, v) # inorder r)"
    using Rbn.prems by (auto simp: tree_ok_Rbn sorted_nodes_append sorted_nodes_Cons)
  have find_app: "find ?P (xs @ ys) = (case find ?P xs of None \<Rightarrow> find ?P ys | Some x \<Rightarrow> Some x)" for xs ys
    by (induction xs) auto
  have inl: "map_option (\<lambda>x. node_at ?s (fst x)) (find ?P (inorder l)) =
      map_option (\<lambda>x. node_at l (fst x)) (find ?P (inorder l))"
    using Rbn.prems(1) find_in_set by (rule map_node_at_left)
  have inr: "map_option (\<lambda>x. node_at ?s (fst x)) (find ?P (inorder r)) =
      map_option (\<lambda>x. node_at r (fst x)) (find ?P (inorder r))"
    using Rbn.prems(1) find_in_set by (rule map_node_at_right)
  consider (lt) "cmp k v < 0" | (eq) "cmp k v = 0" | (gt) "0 < cmp k v" by linarith
  then show ?case
  proof cases
    case lt
    then have "find ?P ((p, v) # inorder r) = None"
      using above_differs [OF ok(5) lt] by (auto simp: find_None_iff)
    then show ?thesis using lt Rbn.IH(1) [OF ok(1,3)] inl find_app by (auto split: option.splits)
  next
    case eq
    then have "find ?P (inorder l) = None"
      using below_differs [OF ok(6), of k] by (auto simp: find_None_iff)
    then show ?thesis using eq find_app by simp
  next
    case gt
    then have "find ?P (inorder l) = None"
      using below_differs [OF ok(6), of k] by (auto simp: find_None_iff)
    then show ?thesis using gt Rbn.IH(2) [OF ok(2,4)] inr find_app by simp
  qed
qed simp

text \<open>The last node of a sequence whose key is not above \<open>k\<close>.\<close>

definition last_lte :: "'a \<Rightarrow> (nat \<times> 'a) list \<Rightarrow> (nat \<times> 'a) option" where
  "last_lte k xs = (let ys = filter (\<lambda>x. 0 \<le> cmp k (snd x)) xs in
     if ys = [] then None else Some (last ys))"

lemma last_lte_append:
  "last_lte k (xs @ ys) = (case last_lte k ys of None \<Rightarrow> last_lte k xs | Some x \<Rightarrow> Some x)"
  by (simp add: last_lte_def Let_def)

lemma last_lte_none: "\<forall>x \<in> set xs. cmp k (snd x) < 0 \<Longrightarrow> last_lte k xs = None"
  by (auto simp: last_lte_def Let_def filter_empty_conv)

lemma last_lteD: "last_lte k xs = Some x \<Longrightarrow> x \<in> set xs \<and> 0 \<le> cmp k (snd x)"
  using last_in_set [of "filter (\<lambda>x. 0 \<le> cmp k (snd x)) xs"]
  by (auto simp: last_lte_def Let_def split: if_splits)

lemma cmp_gt_sym: "0 < cmp a b \<longleftrightarrow> cmp b a < 0"
  using cmp_sym by blast

lemma max_lte_correct:
  assumes "tree_ok t" "sorted_nodes (inorder t)"
  shows "max_lte_internal cmp t k = map_option (\<lambda>x. node_at t (fst x)) (last_lte k (inorder t))"
  using assms
proof (induction t)
  case (Rbn p q c v l r)
  let ?s = "Rbn p q c v l r"
  have ok: "tree_ok l" "tree_ok r" "sorted_nodes (inorder l)" "sorted_nodes (inorder r)"
    "sorted_nodes ((p, v) # inorder r)"
    using Rbn.prems by (auto simp: tree_ok_Rbn sorted_nodes_append sorted_nodes_Cons)
  have here: "last_lte k [(p, v)] = (if 0 \<le> cmp k v then Some (p, v) else None)"
    by (simp add: last_lte_def)
  have parts: "last_lte k (inorder ?s) = (case last_lte k (inorder r) of Some x \<Rightarrow> Some x
      | None \<Rightarrow> if 0 \<le> cmp k v then Some (p, v) else last_lte k (inorder l))"
    using last_lte_append [of k "inorder l" "(p, v) # inorder r"]
      last_lte_append [of k "[(p, v)]" "inorder r"] here by (auto split: option.splits)
  consider (lt) "cmp k v < 0" | (eq) "cmp k v = 0" | (gt) "0 < cmp k v" by linarith
  then show ?case
  proof cases
    case lt
    have "last_lte k (inorder r) = None"
      using above_differs [OF ok(5) lt] by (intro last_lte_none) simp
    then have "last_lte k (inorder ?s) = last_lte k (inorder l)" using parts lt by simp
    moreover have "map_option (\<lambda>x. node_at ?s (fst x)) (last_lte k (inorder l)) =
        map_option (\<lambda>x. node_at l (fst x)) (last_lte k (inorder l))"
      using Rbn.prems(1) by (rule map_node_at_left) (use last_lteD in blast)
    ultimately show ?thesis using lt Rbn.IH(1) [OF ok(1,3)] by (auto simp: last_lte_none)
  next
    case eq
    have "cmp k w < 0" if "(a, w) \<in> set (inorder r)" for a w
      using ok(5) that eq cmp_le_less_trans [of k v w] by (force simp: sorted_nodes_Cons)
    then have "last_lte k (inorder r) = None" by (intro last_lte_none) auto
    then show ?thesis using eq parts by simp
  next
    case gt
    show ?thesis
    proof (cases "last_lte k (inorder r)")
      case None
      then show ?thesis using gt Rbn.IH(2) [OF ok(2,4)] parts by (simp add: Let_def)
    next
      case (Some x)
      then have x: "x \<in> set (inorder r)" "0 \<le> cmp k (snd x)" by (auto dest: last_lteD)
      then have "val_opt (node_at r (fst x)) = Some (snd x)" "\<not> 0 < cmp (snd x) k"
        using val_node_at [of "fst x" "snd x" r] ok(2) cmp_gt_sym [of "snd x" k] by auto
      moreover have "r \<noteq> Null" using x(1) by auto
      ultimately show ?thesis using gt Some Rbn.IH(2) [OF ok(2,4)] parts x(1)
          node_at_right [OF Rbn.prems(1), of "fst x"]
        by (simp del: node_at.simps)
    qed
  qed
qed (simp add: last_lte_def)

end

section \<open>Traversals\<close>

text \<open>The nodes in the three orders, and the reference: apply a handler until it returns false.\<close>

fun inorder_nodes :: "'a rbt \<Rightarrow> 'a rbt list" where
  "inorder_nodes Null = []"
| "inorder_nodes (Rbn p q c v l r) = inorder_nodes l @ Rbn p q c v l r # inorder_nodes r"

fun preorder_nodes :: "'a rbt \<Rightarrow> 'a rbt list" where
  "preorder_nodes Null = []"
| "preorder_nodes (Rbn p q c v l r) = Rbn p q c v l r # preorder_nodes l @ preorder_nodes r"

fun postorder_nodes :: "'a rbt \<Rightarrow> 'a rbt list" where
  "postorder_nodes Null = []"
| "postorder_nodes (Rbn p q c v l r) = postorder_nodes l @ postorder_nodes r @ [Rbn p q c v l r]"

fun visit :: "('a, 's) rbnode_handler \<Rightarrow> 'a rbt list \<Rightarrow> 's \<Rightarrow> (bool \<times> 's) option" where
  "visit rh [] s = Some (True, s)"
| "visit rh (n # ns) s = do {
     (ok, s1) \<leftarrow> rh n s;
     if ok then visit rh ns s1 else Some (False, s1)
   }"

lemma visit_append: "visit rh (xs @ ys) s = do {
    (ok, s1) \<leftarrow> visit rh xs s; if ok then visit rh ys s1 else Some (False, s1) }"
  by (induction xs arbitrary: s) (auto split: prod.splits intro!: Option.bind_cong)

lemma traverse_inorder_visit: "traverse_inorder t rh s = visit rh (inorder_nodes t) s"
  by (induction t arbitrary: s) (auto simp: visit_append split: prod.splits intro!: Option.bind_cong)

lemma traverse_preorder_visit: "traverse_preorder t rh s = visit rh (preorder_nodes t) s"
  by (induction t arbitrary: s) (auto simp: visit_append split: prod.splits intro!: Option.bind_cong)

lemma visit_single: "visit rh [n] s = rh n s"
  by (cases "rh n s") (auto split: prod.splits)

lemma traverse_postorder_visit: "traverse_postorder t rh s = visit rh (postorder_nodes t) s"
proof (induction t arbitrary: s)
  case (Rbn p q c v l r)
  then show ?case
    by (auto simp: visit_append visit_single simp del: visit.simps(2) split: prod.splits
        intro!: Option.bind_cong)
qed simp

section \<open>Validation\<close>

lemma inorder_nodes_addrs: "tree_ok t \<Longrightarrow> inorder_nodes t = map (\<lambda>x. node_at t (fst x)) (inorder t)"
proof (induction t)
  case (Rbn p q c v l r)
  then show ?case using node_at_left [OF Rbn.prems] node_at_right [OF Rbn.prems]
    by (simp add: tree_ok_Rbn imageI del: node_at.simps)
qed simp

lemma adjacent_next:
  assumes "tree_ok root" "par_ok 0 root" "inorder root = xs @ x # ys"
  shows "rbnode_get_next root (node_at root (fst x)) =
    Some (if ys = [] then None else Some (node_at root (fst (hd ys))))"
  using adjacent_correct [of root Rgt xs "fst x" "snd x" ys] assms
  by (simp add: rbnode_get_next_def walk_def)

lemma adjacent_prev:
  assumes "tree_ok root" "par_ok 0 root" "inorder root = xs @ x # ys"
  shows "rbnode_get_prev root (node_at root (fst x)) =
    Some (if xs = [] then None else Some (node_at root (fst (last xs))))"
  using adjacent_correct [of root Lft "rev ys" "fst x" "snd x" "rev xs"] assms
  by (simp add: rbnode_get_prev_def walk_def hd_rev)

lemma visit_test_inorder:
  assumes ok: "tree_ok root" "par_ok 0 root" and "inorder root = xs @ ys"
  shows "visit (test_inorder_node root) (map (\<lambda>x. node_at root (fst x)) ys)
      (if xs = [] then Null else node_at root (fst (last xs)), None) =
    Some (True, if inorder root = [] then Null else node_at root (fst (last (inorder root))), None)"
  using assms(3)
proof (induction ys arbitrary: xs)
  case (Cons y ys)
  let ?n = "\<lambda>x. node_at root (fst x)"
  have node: "?n x \<noteq> Null" "addr (?n x) = fst x" if "x \<in> set (inorder root)" for x
    using that node_at_not_Null [of "fst x" root] by auto
  have "test_inorder_node root (?n y) (if xs = [] then Null else ?n (last xs), None) =
      Some (True, ?n y, None)"
  proof (cases "xs = []")
    case True
    then show ?thesis using adjacent_prev [OF ok, of xs y ys] Cons.prems
      by (simp add: test_inorder_node_def)
  next
    case False
    then have cut: "inorder root = butlast xs @ last xs # y # ys" using Cons.prems by simp
    then show ?thesis
      using False node [of "last xs"] node [of y] adjacent_prev [OF ok Cons.prems]
        adjacent_next [OF ok cut]
      by (simp add: test_inorder_node_def)
  qed
  then show ?case using Cons.IH [of "xs @ [y]"] Cons.prems by simp
qed simp

lemma test_inorder_passes:
  assumes ok: "tree_ok (rb_root t)" "par_ok 0 (rb_root t)"
  shows "test_inorder t = Some None"
proof -
  let ?xs = "inorder (rb_root t)"
  have visit: "rbtree_traverse t RB_INORDER (test_inorder_node (rb_root t)) (Null, None) =
      Some (True, if ?xs = [] then Null else node_at (rb_root t) (fst (last ?xs)), None)"
    using visit_test_inorder [OF ok, of "[]" ?xs]
    by (simp add: traverse_inorder_visit inorder_nodes_addrs [OF ok(1)])
  moreover have "rbnode_get_next (rb_root t) (node_at (rb_root t) (fst (last ?xs))) = Some None"
    if "?xs \<noteq> []"
    using adjacent_next [OF ok, of "butlast ?xs" "last ?xs" "[]"] that by simp
  ultimately show ?thesis by (simp add: test_inorder_def)
qed

text \<open>
  The number of black links from the top of a subtree down to every leaf is its black height,
  its own colour left out.
\<close>

definition links_below :: "'a rbt \<Rightarrow> nat" where
  "links_below t = bh t - (if is_red t then 0 else 1)"

lemma bh_nodes: "bh t \<le> nodes t"
  by (induction t) auto

lemma validate_passes:
  assumes "rb_ok n" "par_ok q n" "n \<noteq> Null"
    and "bl + of_nat (links_below n) \<noteq> (-1 :: u64)"
    and "bc = -1 \<or> bc = bl + of_nat (links_below n)"
  shows "validate_tree_invariants n bl bc = (None, bl + of_nat (links_below n))"
  using assms
proof (induction n arbitrary: q bl bc)
  case (Rbn p q0 c v nl nr)
  let ?n = "Rbn p q0 c v nl nr"
  have links: "links_below ?n = links_below t + (if is_red t then 0 else 1)"
    if "t = nl \<or> t = nr" "t \<noteq> Null" for t
    using that Rbn.prems(1) by (cases t) (auto simp: links_below_def)
  have step: "validate_tree_invariants t (bl + (if is_red t then 0 else 1)) bc' =
      (None, bl + of_nat (links_below ?n))"
    if "t = nl \<or> t = nr" "t \<noteq> Null" "bc' = -1 \<or> bc' = bl + of_nat (links_below ?n)" for t bc'
    using that(1) Rbn.IH(1) [of p _ bc'] Rbn.IH(2) [of p _ bc'] Rbn.prems(1,2,4) that(2,3)
      links [OF that(1,2)]
    by (auto simp: add.assoc)
  have check: "parent_child_check ?n hand = None" for hand
    using Rbn.prems(1,2) par_ok_parent [of p nl] par_ok_parent [of p nr]
    by (cases hand) (auto simp: parent_child_check_def Let_def)
  show ?case
  proof (cases "nl = Null")
    case True
    then have "nr = Null" using Rbn.prems(1) bh_0_Null [of nr] by simp
    then show ?thesis using True Rbn.prems(5) by (auto simp: links_below_def)
  next
    case False
    then show ?thesis using step [of nl bc] step [of nr] check Rbn.prems(1,5)
      by (cases "nr = Null") (auto simp: Let_def)
  qed
qed simp

lemma nodes_inorder: "nodes t = length (inorder t)"
  by (induction t) auto

lemma validate_root:
  assumes "rb_ok n" "par_ok q n" "\<not> is_red n" "nodes n < 2 ^ 64"
  shows "fst (validate_tree_invariants n 0 (-1)) = None"
proof (cases "n = Null")
  case False
  have "links_below n < 2 ^ 64 - 1"
    using assms(3,4) bh_nodes [of n] False by (cases n) (auto simp: links_below_def)
  then have "unat (of_nat (links_below n) :: u64) \<noteq> unat (-1 :: u64)"
    by (simp add: unat_of_nat unsigned_minus_1_eq_mask mask_eq_exp_minus_1)
  then have "0 + of_nat (links_below n) \<noteq> (-1 :: u64)" by (metis add_0)
  then show ?thesis using validate_passes [OF assms(1,2) False, of 0 "-1"] by simp
qed simp

section \<open>The contract of the component\<close>

lemma wf_tree_ok: "rbtree_wf cmp t \<Longrightarrow> tree_ok (rb_root t)"
  by (simp add: rbtree_wf_def tree_ok_def Let_def)

lemma wf_par_ok: "rbtree_wf cmp t \<Longrightarrow> par_ok 0 (rb_root t)"
  by (simp add: rbtree_wf_def Let_def)

lemma wf_sorted: "key_compare cmp \<Longrightarrow> rbtree_wf cmp t \<Longrightarrow> key_compare.sorted_nodes cmp (inorder (rb_root t))"
  by (simp add: rbtree_wf_def key_compare.sorted_nodes_def Let_def)

text \<open>A comparison of integer keys and a tree of three nodes, for the instances below.\<close>

definition int_compare :: "int \<Rightarrow> int \<Rightarrow> int" where
  "int_compare a b = (if a = b then 0 else if a < b then -1 else 1)"

lemma key_compare_int: "key_compare int_compare"
  by unfold_locales (auto simp: int_compare_def split: if_splits)

definition sample_tree :: "int rbtree" where
  "sample_tree = \<lparr>rb_root = Rbn 48 0 Black 20 (Rbn 16 48 Black 10 Null Null)
     (Rbn 32 48 Black 30 Null Null), rb_count = 3\<rparr>"

lemma sample_tree_wf: "rbtree_wf int_compare sample_tree"
  by (simp add: rbtree_wf_def sample_tree_def int_compare_def)

text \<open>
  Property C1. \<^verbatim>\<open>rbtree_insert_node\<close> always returns on a well-formed tree, keeps the
  red-black invariant, the parent links, the order and the count, adds the new node at its
  place in the order, and reports and changes nothing when the key is present.
\<close>

theorem rbtree_insert_correct:
  assumes "key_compare cmp" "rbtree_wf cmp t" "a \<noteq> 0" "a \<notin> fst ` set (inorder (rb_root t))"
  shows "\<exists>t'. rbtree_insert_node cmp t (init_rbnode a w) =
      Some (t', \<forall>x \<in> set (inorder (rb_root t)). cmp w (snd x) \<noteq> 0) \<and> rbtree_wf cmp t' \<and>
    inorder (rb_root t') = ins_list cmp (a, w) (inorder (rb_root t))"
  using assms by (rule key_compare.insert_correct)

theorem rbtree_insert_correct_witness:
  "\<exists>t'. rbtree_insert_node int_compare sample_tree (init_rbnode 64 25) = Some (t', True) \<and>
    rbtree_wf int_compare t' \<and> inorder (rb_root t') = [(16, 10), (48, 20), (64, 25), (32, 30)]"
  using rbtree_insert_correct [OF key_compare_int sample_tree_wf, of 64 25]
  by (simp add: sample_tree_def int_compare_def)

text \<open>
  Property C2. \<^verbatim>\<open>rbtree_remove_by_key\<close> always returns on a well-formed tree, keeps the
  invariant and removes exactly the node that compares equal to the key; its result says
  whether there was one.
\<close>

theorem rbtree_remove_correct:
  assumes "key_compare cmp" "rbtree_wf cmp t"
  shows "\<exists>t'. rbtree_remove_by_key cmp t k =
      Some (t', \<exists>x \<in> set (inorder (rb_root t)). cmp k (snd x) = 0) \<and> rbtree_wf cmp t' \<and>
    inorder (rb_root t') = filter (\<lambda>x. cmp k (snd x) \<noteq> 0) (inorder (rb_root t))"
  using key_compare.remove_by_key_correct [OF assms] by simp

theorem rbtree_remove_correct_witness:
  "\<exists>t'. rbtree_remove_by_key int_compare sample_tree 20 = Some (t', True) \<and>
    rbtree_wf int_compare t' \<and> inorder (rb_root t') = [(16, 10), (32, 30)]"
  using rbtree_remove_correct [OF key_compare_int sample_tree_wf, of 20]
  by (simp add: sample_tree_def int_compare_def)

text \<open>
  Property C3. \<^verbatim>\<open>rbtree_lookup\<close> returns the node that compares equal to the key and
  \<^verbatim>\<open>rbtree_lookup_max_lte\<close> the last node in key order that is not above it, or nothing when
  there is none.
\<close>

theorem rbtree_search_correct:
  assumes "key_compare cmp" "rbtree_wf cmp t"
  shows "rbtree_lookup cmp (rb_root t) k = map_option (\<lambda>x. node_at (rb_root t) (fst x))
      (find (\<lambda>x. cmp k (snd x) = 0) (inorder (rb_root t))) \<and>
    rbtree_lookup_max_lte cmp (rb_root t) k = map_option (\<lambda>x. node_at (rb_root t) (fst x))
      (let ys = filter (\<lambda>x. 0 \<le> cmp k (snd x)) (inorder (rb_root t)) in
       if ys = [] then None else Some (last ys))"
  using key_compare.lookup_correct [OF assms(1) wf_tree_ok wf_sorted, of cmp t k]
    key_compare.max_lte_correct [OF assms(1) wf_tree_ok wf_sorted, of cmp t k] assms
  by (simp add: key_compare.last_lte_def rbtree_lookup_max_lte_def)

theorem rbtree_search_correct_witness:
  "map_option addr (rbtree_lookup int_compare (rb_root sample_tree) 30) = Some 32 \<and>
   map_option addr (rbtree_lookup_max_lte int_compare (rb_root sample_tree) 29) = Some 48"
  using rbtree_search_correct [OF key_compare_int sample_tree_wf, of 30]
    rbtree_search_correct [OF key_compare_int sample_tree_wf, of 29]
  by (simp add: sample_tree_def int_compare_def)

text \<open>
  Property C4. \<^verbatim>\<open>rbnode_get_next\<close> and \<^verbatim>\<open>rbnode_get_prev\<close> always return: the climb along the
  parent links ends at the neighbour of the node in key order, or with
  \<^verbatim>\<open>INVALID_ADDRESS\<close> at the ends of the tree.
\<close>

theorem rbnode_neighbours_correct:
  assumes "rbtree_wf cmp t" and "inorder (rb_root t) = xs @ (a, v) # ys"
  shows "rbnode_get_next (rb_root t) (node_at (rb_root t) a) =
      Some (if ys = [] then None else Some (node_at (rb_root t) (fst (hd ys)))) \<and>
    rbnode_get_prev (rb_root t) (node_at (rb_root t) a) =
      Some (if xs = [] then None else Some (node_at (rb_root t) (fst (last xs))))"
  using adjacent_next [OF wf_tree_ok wf_par_ok assms(2)] adjacent_prev [OF wf_tree_ok wf_par_ok assms(2)]
    assms(1) by simp

theorem rbnode_neighbours_correct_witness:
  "rbnode_get_next (rb_root sample_tree) (Rbn 32 48 Black 30 Null Null) = Some None \<and>
   rbnode_get_prev (rb_root sample_tree) (Rbn 32 48 Black 30 Null Null) = Some (Some (rb_root sample_tree))"
  using rbnode_neighbours_correct [OF sample_tree_wf, of "[(16, 10), (48, 20)]" 32 30 "[]"]
  by (simp add: sample_tree_def)

text \<open>
  Property C5. \<^verbatim>\<open>rbtree_validate\<close> accepts every well-formed tree whose size fits the 64-bit
  count, so the trees that insertion and removal build pass the paranoia check.
\<close>

theorem rbtree_validate_passes:
  assumes "rbtree_wf cmp t" and "rb_count t < 2 ^ 64"
  shows "rbtree_validate t = Some None"
proof -
  have "fst (validate_tree_invariants (rb_root t) 0 (-1)) = None"
    using assms by (intro validate_root [of _ 0]) (auto simp: rbtree_wf_def nodes_inorder Let_def)
  moreover have "test_inorder t = Some None"
    using assms(1) by (intro test_inorder_passes wf_tree_ok wf_par_ok)
  ultimately show ?thesis by (auto simp: rbtree_validate_def split: prod.splits option.splits)
qed

theorem rbtree_validate_passes_witness: "rbtree_validate sample_tree = Some None"
  using rbtree_validate_passes [OF sample_tree_wf] by (simp add: sample_tree_def)

text \<open>
  Property C6. The traversals apply the handler to the nodes in the order they are named
  after, thread its state, and stop at the first node for which it returns false.
\<close>

theorem rbtree_traverse_order:
  "rbtree_traverse t RB_INORDER rh s = visit rh (inorder_nodes (rb_root t)) s \<and>
   rbtree_traverse t RB_PREORDER rh s = visit rh (preorder_nodes (rb_root t)) s \<and>
   rbtree_traverse t RB_POSTORDER rh s = visit rh (postorder_nodes (rb_root t)) s"
  by (simp add: traverse_inorder_visit traverse_preorder_visit traverse_postorder_visit)

end
