(* ===== verification/Rangemap.thy ===== *)
theory Rangemap
  imports Rbtree_Walk
begin

text \<open>
  Ranges and range maps: \<^verbatim>\<open>kernel/src/runtime/range.h\<close> and \<^verbatim>\<open>range.c\<close>. A range map is a
  red-black tree whose nodes carry a half-open range of 64-bit values and are ordered by the
  start of the range. A \<^verbatim>\<open>rmnode\<close> pointer is the address of the node in the tree;
  \<^verbatim>\<open>INVALID_ADDRESS\<close> is \<open>None\<close>. The structures that embed a \<^verbatim>\<open>struct rmnode\<close> keep their
  own fields under the same address.
\<close>

section \<open>Ranges\<close>

record range =
  r_start :: u64
  r_end :: u64

definition irange :: "u64 \<Rightarrow> u64 \<Rightarrow> range" where
  "irange s e = \<lparr>r_start = s, r_end = e\<rparr>"

definition irangel :: "u64 \<Rightarrow> u64 \<Rightarrow> range" where
  "irangel s l = \<lparr>r_start = s, r_end = s + l\<rparr>"

definition point_in_range :: "range \<Rightarrow> u64 \<Rightarrow> bool" where
  "point_in_range r p = (p \<ge> r_start r \<and> p < r_end r)"

definition range_intersection :: "range \<Rightarrow> range \<Rightarrow> range" where
  "range_intersection a b =
     (let dest = irange (max (r_start a) (r_start b)) (min (r_end a) (r_end b)) in
      if r_end dest \<le> r_start dest then irange 0 0 else dest)"

definition range_span :: "range \<Rightarrow> u64" where
  "range_span r = r_end r - r_start r"

definition range_empty :: "range \<Rightarrow> bool" where
  "range_empty a = (range_span a = 0)"

definition ranges_intersect :: "range \<Rightarrow> range \<Rightarrow> bool" where
  "ranges_intersect a b = (\<not> range_empty (range_intersection a b))"

definition range_contains :: "range \<Rightarrow> range \<Rightarrow> bool" where
  "range_contains a b = (r_start a \<le> r_start b \<and> r_end a \<ge> r_end b)"

definition range_equal :: "range \<Rightarrow> range \<Rightarrow> bool" where
  "range_equal a b = (r_start a = r_start b \<and> r_end a = r_end b)"

definition range_valid :: "range \<Rightarrow> bool" where
  "range_valid r = (r_start r \<le> r_end r)"

definition range_add :: "range \<Rightarrow> u64 \<Rightarrow> range" where
  "range_add r delta = irange (r_start r + delta) (r_end r + delta)"

definition range_rshift :: "range \<Rightarrow> nat \<Rightarrow> range" where
  "range_rshift r order = irange (drop_bit order (r_start r)) (drop_bit order (r_end r))"

definition range_rshift_pad :: "range \<Rightarrow> nat \<Rightarrow> range" where
  "range_rshift_pad r order =
     irange (drop_bit order (r_start r)) (drop_bit order (r_end r + (push_bit order 1 - 1)))"

definition range_lshift :: "range \<Rightarrow> nat \<Rightarrow> range" where
  "range_lshift r order = irange (push_bit order (r_start r)) (push_bit order (r_end r))"

text \<open>The result is \<^verbatim>\<open>(*d1, *d2)\<close>.\<close>

definition range_difference :: "range \<Rightarrow> range \<Rightarrow> range \<times> range" where
  "range_difference a b0 =
     (let b = range_intersection a b0 in
      if range_span b \<noteq> 0
      then (irange (r_start a) (r_start b), irange (r_end b) (r_end a))
      else (irange (r_start a) (r_end a), irange 0 0))"

section \<open>The map and its nodes\<close>

text \<open>The addresses given back to the heap of the map are kept in \<open>rm_freed\<close>.\<close>

record rangemap =
  rm_t :: "range rbtree"
  rm_freed :: "nat list"

definition rmnode_compare :: "range \<Rightarrow> range \<Rightarrow> int" where
  "rmnode_compare a b =
     (let sa = r_start a; sb = r_start b in if sa = sb then 0 else if sa < sb then -1 else 1)"

definition init_rangemap :: rangemap where
  "init_rangemap = \<lparr>rm_t = init_rbtree, rm_freed = []\<rparr>"

text \<open>\<^verbatim>\<open>n->r\<close> for a node of the map, and the assignment to it.\<close>

definition range_from_rmnode :: "rangemap \<Rightarrow> nat \<Rightarrow> range" where
  "range_from_rmnode rm n =
     (case val_opt (node_at (rb_root (rm_t rm)) n) of Some r \<Rightarrow> r | None \<Rightarrow> irange 0 0)"

fun update_at :: "nat \<Rightarrow> 'a \<Rightarrow> 'a rbt \<Rightarrow> 'a rbt" where
  "update_at a w Null = Null"
| "update_at a w (Rbn p q c v l r) =
     Rbn p q c (if p = a then w else v) (update_at a w l) (update_at a w r)"

definition rmnode_set_range :: "rangemap \<Rightarrow> nat \<Rightarrow> range \<Rightarrow> rangemap" where
  "rmnode_set_range rm n r =
     rm\<lparr>rm_t := (rm_t rm)\<lparr>rb_root := update_at n r (rb_root (rm_t rm))\<rparr>\<rparr>"

definition rangemap_prev_node :: "rangemap \<Rightarrow> nat \<Rightarrow> nat option option" where
  "rangemap_prev_node rm n =
     map_option (map_option addr) (rbnode_get_prev (rb_root (rm_t rm)) (node_at (rb_root (rm_t rm)) n))"

definition rangemap_next_node :: "rangemap \<Rightarrow> nat \<Rightarrow> nat option option" where
  "rangemap_next_node rm n =
     map_option (map_option addr) (rbnode_get_next (rb_root (rm_t rm)) (node_at (rb_root (rm_t rm)) n))"

definition rangemap_first_node :: "rangemap \<Rightarrow> nat option option" where
  "rangemap_first_node rm = map_option (map_option addr) (rbtree_find_first (rb_root (rm_t rm)))"

definition rangemap_lookup_max_lte :: "rangemap \<Rightarrow> u64 \<Rightarrow> nat option" where
  "rangemap_lookup_max_lte rm point =
     (let k = irange point (point + 1) in
      if rb_root (rm_t rm) = Null then None
      else map_option addr (rbtree_lookup_max_lte rmnode_compare (rb_root (rm_t rm)) k))"

definition rangemap_remove_node :: "rangemap \<Rightarrow> nat \<Rightarrow> rangemap option" where
  "rangemap_remove_node rm n = do {
     t \<leftarrow> rbtree_remove_node rmnode_compare (rm_t rm) (range_from_rmnode rm n);
     Some (rm\<lparr>rm_t := t\<rparr>)
   }"

definition rangemap_count :: "rangemap \<Rightarrow> nat" where
  "rangemap_count rm = rb_count (rm_t rm)"

definition rangemap_remove_range :: "rangemap \<Rightarrow> nat \<Rightarrow> rangemap option" where
  "rangemap_remove_range rm n = do {
     rm' \<leftarrow> rangemap_remove_node rm n;
     Some (rm'\<lparr>rm_freed := n # rm_freed rm'\<rparr>)
   }"

section \<open>Lookup\<close>

partial_function (option) skip_ended :: "rangemap \<Rightarrow> u64 \<Rightarrow> nat option \<Rightarrow> nat option option" where
  "skip_ended rm s n =
     (case n of
        None \<Rightarrow> Some None
      | Some a \<Rightarrow>
          if r_end (range_from_rmnode rm a) \<le> s
          then do { nxt \<leftarrow> rangemap_next_node rm a; skip_ended rm s nxt }
          else Some (Some a))"

definition rangemap_lookup_at_or_next :: "rangemap \<Rightarrow> u64 \<Rightarrow> nat option option" where
  "rangemap_lookup_at_or_next rm point =
     (let k = irange point (point + 1) in
      if rb_root (rm_t rm) = Null then Some None
      else do {
        n \<leftarrow> (case rbtree_lookup_max_lte rmnode_compare (rb_root (rm_t rm)) k of
               None \<Rightarrow> rangemap_first_node rm
             | Some h \<Rightarrow> Some (Some (addr h)));
        skip_ended rm (r_start k) n
      })"

text \<open>
  \<^verbatim>\<open>rangemap_foreach_of_range\<close>: the loop body returns \<open>Next\<close> with the new values of the local
  variables, or \<open>Done\<close> for a return from the enclosing function and \<open>Break\<close> for a break.
\<close>

datatype ('s, 'r) flow = Next 's | Break 's | Done 'r

partial_function (option) foreach_from ::
  "rangemap \<Rightarrow> range \<Rightarrow> (nat \<Rightarrow> 's \<Rightarrow> ('s, 'r) flow option) \<Rightarrow> nat option \<Rightarrow> 's \<Rightarrow> ('s, 'r) flow option"
where
  "foreach_from rm k body n s =
     (case n of
        None \<Rightarrow> Some (Next s)
      | Some a \<Rightarrow> do {
          nxt \<leftarrow> rangemap_next_node rm a;
          if range_span (range_intersection k (range_from_rmnode rm a)) > 0 then do {
            f \<leftarrow> body a s;
            case f of Next s' \<Rightarrow> foreach_from rm k body nxt s' | Break s' \<Rightarrow> Some (Next s') | Done r \<Rightarrow> Some (Done r)
          } else Some (Next s)
        })"

definition rangemap_foreach_of_range ::
  "rangemap \<Rightarrow> range \<Rightarrow> (nat \<Rightarrow> 's \<Rightarrow> ('s, 'r) flow option) \<Rightarrow> 's \<Rightarrow> ('s, 'r) flow option" where
  "rangemap_foreach_of_range rm k body s = do {
     n \<leftarrow> rangemap_lookup_at_or_next rm (r_start k);
     foreach_from rm k body n s
   }"

definition rangemap_lookup :: "rangemap \<Rightarrow> u64 \<Rightarrow> nat option option" where
  "rangemap_lookup rm point = do {
     let k = irange point (point + 1);
     f \<leftarrow> rangemap_foreach_of_range rm k
       (\<lambda>curr s.
          if r_start (range_from_rmnode rm curr) \<ge> r_end k then Some (Break s)
          else if range_span (range_intersection (range_from_rmnode rm curr) k) \<noteq> 0
          then Some (Done (Some curr)) else Some (Next s)) ();
     Some (case f of Done r \<Rightarrow> r | _ \<Rightarrow> None)
   }"

definition rangemap_range_intersects :: "rangemap \<Rightarrow> range \<Rightarrow> bool option" where
  "rangemap_range_intersects rm q = do {
     f \<leftarrow> rangemap_foreach_of_range rm q
       (\<lambda>n s. if \<not> range_empty (range_intersection (range_from_rmnode rm n) q)
              then Some (Done True) else Some (Next s)) ();
     Some (case f of Done r \<Rightarrow> r | _ \<Rightarrow> False)
   }"

datatype rm_result = RM_NOMATCH | RM_ABORT | RM_MATCH

text \<open>
  A null handler is \<open>None\<close>; a handler gets the state of its closure and returns false to abort.
  The handlers do not change the map they are called from. The local variables of
  \<^verbatim>\<open>rangemap_range_lookup_internal\<close> are \<^verbatim>\<open>match\<close> and \<^verbatim>\<open>lastedge\<close>: \<open>query_body\<close> is the body of
  the loop and \<open>query_end\<close> what follows it.
\<close>

definition query_body ::
  "rangemap \<Rightarrow> range \<Rightarrow> (nat \<Rightarrow> 's \<Rightarrow> bool \<times> 's) option \<Rightarrow> (range \<Rightarrow> 's \<Rightarrow> bool \<times> 's) option \<Rightarrow>
   nat \<Rightarrow> bool \<times> u64 \<times> 's \<Rightarrow> (bool \<times> u64 \<times> 's, rm_result \<times> 's) flow option" where
  "query_body rm q node_handler gap_handler =
       (\<lambda>curr (mtch, lastedge, s).
          let r = range_from_rmnode rm curr;
              gap = (case gap_handler of
                  None \<Rightarrow> Inr (mtch, lastedge, s)
                | Some gh \<Rightarrow>
                    let i = range_intersection (irange lastedge (r_start r)) q in
                    if range_span i \<noteq> 0 then
                      (case gh i s of
                         (False, s') \<Rightarrow> Inl s'
                       | (True, s') \<Rightarrow> Inr (True, r_end r, s'))
                    else Inr (mtch, r_end r, s))
          in case gap of
              Inl s' \<Rightarrow> Some (Done (RM_ABORT, s'))
            | Inr (m, e, s1) \<Rightarrow>
                (case node_handler of
                   None \<Rightarrow> Some (Next (m, e, s1))
                 | Some nh \<Rightarrow>
                     if \<not> range_empty (range_intersection r q) then
                       (case nh curr s1 of
                          (False, s') \<Rightarrow> Some (Done (RM_ABORT, s'))
                        | (True, s') \<Rightarrow> Some (Next (True, e, s')))
                     else Some (Next (m, e, s1))))"

definition query_end ::
  "range \<Rightarrow> (range \<Rightarrow> 's \<Rightarrow> bool \<times> 's) option \<Rightarrow> (bool \<times> u64 \<times> 's, rm_result \<times> 's) flow \<Rightarrow> (rm_result \<times> 's) option"
where
  "query_end q gap_handler f =
     (case f of
       Done r \<Rightarrow> Some r
     | Break (m, e, s) \<Rightarrow> Some (if m then RM_MATCH else RM_NOMATCH, s)
     | Next (m, e, s) \<Rightarrow>
         (case gap_handler of
            None \<Rightarrow> Some (if m then RM_MATCH else RM_NOMATCH, s)
          | Some gh \<Rightarrow>
              let i = range_intersection (irange e (r_end q)) q in
              if range_span i \<noteq> 0 then
                (case gh i s of
                   (False, s') \<Rightarrow> Some (RM_ABORT, s')
                 | (True, s') \<Rightarrow> Some (RM_MATCH, s'))
              else Some (if m then RM_MATCH else RM_NOMATCH, s)))"

definition rangemap_range_lookup_internal ::
  "rangemap \<Rightarrow> range \<Rightarrow> (nat \<Rightarrow> 's \<Rightarrow> bool \<times> 's) option \<Rightarrow> (range \<Rightarrow> 's \<Rightarrow> bool \<times> 's) option \<Rightarrow> 's \<Rightarrow>
   (rm_result \<times> 's) option" where
  "rangemap_range_lookup_internal rm q nh gh s0 = do {
     f \<leftarrow> rangemap_foreach_of_range rm q (query_body rm q nh gh) (False, r_start q, s0);
     query_end q gh f
   }"

definition rangemap_range_lookup ::
  "rangemap \<Rightarrow> range \<Rightarrow> (nat \<Rightarrow> 's \<Rightarrow> bool \<times> 's) \<Rightarrow> 's \<Rightarrow> (rm_result \<times> 's) option" where
  "rangemap_range_lookup rm q node_handler s = rangemap_range_lookup_internal rm q (Some node_handler) None s"

definition rangemap_range_lookup_with_gaps ::
  "rangemap \<Rightarrow> range \<Rightarrow> (nat \<Rightarrow> 's \<Rightarrow> bool \<times> 's) \<Rightarrow> (range \<Rightarrow> 's \<Rightarrow> bool \<times> 's) \<Rightarrow> 's \<Rightarrow> (rm_result \<times> 's) option"
where
  "rangemap_range_lookup_with_gaps rm q node_handler gap_handler s =
     rangemap_range_lookup_internal rm q (Some node_handler) (Some gap_handler) s"

definition rangemap_range_find_gaps ::
  "rangemap \<Rightarrow> range \<Rightarrow> (range \<Rightarrow> 's \<Rightarrow> bool \<times> 's) \<Rightarrow> 's \<Rightarrow> (rm_result \<times> 's) option" where
  "rangemap_range_find_gaps rm q gap_handler s = rangemap_range_lookup_internal rm q None (Some gap_handler) s"

section \<open>Insertion\<close>

text \<open>The node at address \<open>n\<close>, outside the map, has the range \<open>r\<close>. The loop never reaches a
  \<^verbatim>\<open>Next\<close> from a node that overlaps.\<close>

definition rangemap_insert :: "rangemap \<Rightarrow> nat \<Rightarrow> range \<Rightarrow> (rangemap \<times> bool) option" where
  "rangemap_insert rm n r = do {
     f \<leftarrow> rangemap_foreach_of_range rm r
       (\<lambda>curr s.
          if r_start (range_from_rmnode rm curr) \<ge> r_end r then Some (Break s)
          else if range_span (range_intersection (range_from_rmnode rm curr) r) \<noteq> 0
          then Some (Done ()) else Some (Next s)) ();
     case f of
       Done _ \<Rightarrow> Some (rm, False)
     | _ \<Rightarrow> do {
         (t, ok) \<leftarrow> rbtree_insert_node rmnode_compare (rm_t rm) (init_rbnode n r);
         assert_ok ok;
         Some (rm\<lparr>rm_t := t\<rparr>, True)
       }
   }"

definition rangemap_reinsert :: "rangemap \<Rightarrow> nat \<Rightarrow> range \<Rightarrow> (rangemap \<times> bool) option" where
  "rangemap_reinsert rm n k = do {
     let old = range_from_rmnode rm n;
     rm1 \<leftarrow> rangemap_remove_node rm n;
     (rm2, ok) \<leftarrow> rangemap_insert rm1 n k;
     if \<not> ok then do {
       (rm3, ok3) \<leftarrow> rangemap_insert rm2 n old;
       assert_ok ok3;
       Some (rm3, False)
     } else Some (rm2, True)
   }"

text \<open>
  The merge loop of \<^verbatim>\<open>rangemap_insert_range\<close>; \<open>merged\<close> is \<open>None\<close> while no node has been
  extended. \<open>alloc\<close> is the result of the call of \<^verbatim>\<open>allocate\<close>.
\<close>

definition extend_range :: "range \<Rightarrow> range \<Rightarrow> range" where
  "extend_range nr r =
     (let nr1 = (if r_start nr > r_start r then nr\<lparr>r_start := r_start r\<rparr> else nr)
      in if r_end nr1 < r_end r then nr1\<lparr>r_end := r_end r\<rparr> else nr1)"

definition absorb_node :: "rangemap \<Rightarrow> nat \<Rightarrow> nat \<Rightarrow> rangemap option" where
  "absorb_node rm merged n =
     (let mr = range_from_rmnode rm merged; nr = range_from_rmnode rm n in
      rangemap_remove_range
        (if r_end mr < r_end nr then rmnode_set_range rm merged (mr\<lparr>r_end := r_end nr\<rparr>) else rm) n)"

text \<open>One turn of the loop: the map, \<^verbatim>\<open>merged\<close> and the next node.\<close>

definition merge_step ::
  "rangemap \<Rightarrow> range \<Rightarrow> nat option \<Rightarrow> nat \<Rightarrow> (rangemap \<times> nat option \<times> nat option) option" where
  "merge_step rm r merged n = do {
     nxt \<leftarrow> rangemap_next_node rm n;
     case merged of
       None \<Rightarrow> Some (rmnode_set_range rm n (extend_range (range_from_rmnode rm n) r), Some n, nxt)
     | Some m \<Rightarrow> do { rm' \<leftarrow> absorb_node rm m n; Some (rm', merged, nxt) }
   }"

partial_function (option) insert_range_loop ::
  "rangemap \<Rightarrow> range \<Rightarrow> nat option \<Rightarrow> nat option \<Rightarrow> (rangemap \<times> nat option) option" where
  "insert_range_loop rm r n merged =
     (case n of
        None \<Rightarrow> Some (rm, merged)
      | Some a \<Rightarrow>
          if r_start (range_from_rmnode rm a) \<le> r_end r
          then do {
            (rm', merged', nxt) \<leftarrow> merge_step rm r merged a;
            insert_range_loop rm' r nxt merged'
          }
          else Some (rm, merged))"

definition rangemap_insert_range :: "rangemap \<Rightarrow> range \<Rightarrow> nat option \<Rightarrow> (rangemap \<times> bool) option" where
  "rangemap_insert_range rm r alloc = do {
     n0 \<leftarrow> (case rbtree_lookup_max_lte rmnode_compare (rb_root (rm_t rm)) r of
             None \<Rightarrow> rangemap_first_node rm
           | Some h \<Rightarrow> Some (Some (addr h)));
     n \<leftarrow> (case n0 of
            None \<Rightarrow> Some None
          | Some a \<Rightarrow> if r_end (range_from_rmnode rm a) < r_start r then rangemap_next_node rm a else Some n0);
     (rm1, merged) \<leftarrow> insert_range_loop rm r n None;
     if merged \<noteq> None then Some (rm1, True)
     else case alloc of
         None \<Rightarrow> Some (rm1, False)
       | Some a \<Rightarrow> do { (rm2, _) \<leftarrow> rangemap_insert rm1 a r; Some (rm2, True) }
   }"

definition rangemap_insert_hole :: "rangemap \<Rightarrow> range \<Rightarrow> nat option \<Rightarrow> (rangemap \<times> bool) option" where
  "rangemap_insert_hole rm r alloc = do {
     f \<leftarrow> rangemap_foreach_of_range rm r
       (\<lambda>curr s.
          let cr = range_from_rmnode rm curr in
          if r_start cr > r_start r \<or> r_end cr < r_end r then Some (Done (rm, False))
          else if r_start cr < r_start r then
            (if r_end cr > r_end r then
               (case alloc of
                  None \<Rightarrow> Some (Done (rm, False))
                | Some n \<Rightarrow> do {
                    (rm1, _) \<leftarrow> rangemap_reinsert rm curr (irange (r_start cr) (r_start r));
                    (rm2, _) \<leftarrow> rangemap_insert rm1 n (irange (r_end r) (r_end cr));
                    Some (Done (rm2, True))
                  })
             else do {
               (rm1, _) \<leftarrow> rangemap_reinsert rm curr (irange (r_start cr) (r_start r));
               Some (Done (rm1, True))
             })
          else if r_end cr > r_end r then do {
            (rm1, _) \<leftarrow> rangemap_reinsert rm curr (irange (r_end r) (r_end cr));
            Some (Done (rm1, True))
          }
          else do {
            rm1 \<leftarrow> rangemap_remove_range rm curr;
            Some (Done (rm1, True))
          }) ();
     Some (case f of Done x \<Rightarrow> x | _ \<Rightarrow> (rm, False))
   }"

text \<open>\<^verbatim>\<open>destruct_rangemap\<close> applies the destructor to every node, in postorder.\<close>

definition destruct_rmnode :: "(nat \<Rightarrow> 's \<Rightarrow> bool \<times> 's) \<Rightarrow> (range, 's) rbnode_handler" where
  "destruct_rmnode destructor n s = Some (True, snd (destructor (addr n) s))"

definition destruct_rangemap :: "rangemap \<Rightarrow> (nat \<Rightarrow> 's \<Rightarrow> bool \<times> 's) \<Rightarrow> 's \<Rightarrow> (rangemap \<times> 's) option" where
  "destruct_rangemap rm destructor s = do {
     (t, s') \<leftarrow> destruct_rbtree (rm_t rm) (destruct_rmnode destructor) s;
     Some (rm\<lparr>rm_t := t\<rparr>, s')
   }"

end
