(* ===== verification/Rangemap_Correct.thy ===== *)
theory Rangemap_Correct
  imports Rangemap
begin

text \<open>
  Correctness of the range map. The contents of a map are the list of its nodes in order; the
  well-formed maps hold non-empty ranges that do not overlap. Every operation is related to
  the set of points the map covers.
\<close>

section \<open>Ranges as sets of points\<close>

definition points :: "range \<Rightarrow> u64 set" where
  "points r = {p. r_start r \<le> p \<and> p < r_end r}"

lemma irange_sel [simp]: "r_start (irange s e) = s" "r_end (irange s e) = e"
  by (simp_all add: irange_def)

definition meets :: "range \<Rightarrow> range \<Rightarrow> bool" where
  "meets a b \<longleftrightarrow> max (r_start a) (r_start b) < min (r_end a) (r_end b)"

lemma span_intersection [simp]:
  "range_span (range_intersection a b) = 0 \<longleftrightarrow> \<not> meets a b"
  "0 < range_span (range_intersection a b) \<longleftrightarrow> meets a b"
proof -
  define m e where "m = max (r_start a) (r_start b)" and "e = min (r_end a) (r_end b)"
  have "range_intersection a b = (if e \<le> m then irange 0 0 else irange m e)"
    by (simp add: range_intersection_def m_def e_def Let_def)
  moreover have "meets a b \<longleftrightarrow> m < e" by (simp add: meets_def m_def e_def)
  ultimately show "range_span (range_intersection a b) = 0 \<longleftrightarrow> \<not> meets a b"
    "0 < range_span (range_intersection a b) \<longleftrightarrow> meets a b"
    by (auto simp: range_span_def word_neq_0_conv [symmetric])
qed

lemma empty_intersection [simp]: "range_empty (range_intersection a b) \<longleftrightarrow> \<not> meets a b"
  by (simp add: range_empty_def)

lemma meets_sym: "meets a b \<longleftrightarrow> meets b a"
  by (simp add: meets_def max.commute min.commute)

lemma not_meets_before: "r_end a \<le> r_start b \<Longrightarrow> \<not> meets a b"
  by (auto simp: meets_def)

lemma not_meets_after: "r_end b \<le> r_start a \<Longrightarrow> \<not> meets a b"
  by (auto simp: meets_def)

lemma not_meetsD:
  "\<not> meets a b \<Longrightarrow> r_start a < r_end a \<Longrightarrow> r_start b < r_end b \<Longrightarrow> r_end a \<le> r_start b \<or> r_end b \<le> r_start a"
  by (auto simp: meets_def)

lemma meets_points: "meets a b \<longleftrightarrow> points a \<inter> points b \<noteq> {}"
  unfolding meets_def points_def by (auto simp: max_def min_def not_le split: if_splits intro: exI [of _ "max (r_start a) (r_start b)"])

lemma points_empty: "points r = {} \<longleftrightarrow> r_end r \<le> r_start r"
  by (auto simp: points_def not_le intro: exI [of _ "r_start r"])

lemma points_irange [simp]: "p \<in> points (irange s e) \<longleftrightarrow> s \<le> p \<and> p < e"
  by (simp add: points_def)

section \<open>Contents and well-formed maps\<close>

interpretation rmc: key_compare rmnode_compare
  by unfold_locales (auto simp: rmnode_compare_def Let_def split: if_splits)

type_synonym rmlist = "(nat \<times> range) list"

definition rm_list :: "rangemap \<Rightarrow> rmlist" where
  "rm_list rm = inorder (rb_root (rm_t rm))"

abbreviation starts_sorted :: "rmlist \<Rightarrow> bool" where
  "starts_sorted \<equiv> sorted_wrt (\<lambda>x y. r_start (snd x) < r_start (snd y))"

definition ranges_ok :: "rmlist \<Rightarrow> bool" where
  "ranges_ok xs \<longleftrightarrow> (\<forall>x \<in> set xs. r_start (snd x) < r_end (snd x)) \<and>
     sorted_wrt (\<lambda>x y. r_end (snd x) \<le> r_start (snd y)) xs"

definition rangemap_wf :: "rangemap \<Rightarrow> bool" where
  "rangemap_wf rm \<longleftrightarrow> rbtree_wf rmnode_compare (rm_t rm) \<and> ranges_ok (rm_list rm)"

definition covered :: "rangemap \<Rightarrow> u64 set" where
  "covered rm = (\<Union>x \<in> set (rm_list rm). points (snd x))"

fun first_addr :: "rmlist \<Rightarrow> nat option" where
  "first_addr [] = None"
| "first_addr (x # xs) = Some (fst x)"

abbreviation tree_wf :: "rangemap \<Rightarrow> bool" where
  "tree_wf rm \<equiv> rbtree_wf rmnode_compare (rm_t rm)"

lemma rmnode_compare_simps [simp]:
  "rmnode_compare a b < 0 \<longleftrightarrow> r_start a < r_start b"
  "0 < rmnode_compare a b \<longleftrightarrow> r_start b < r_start a"
  "rmnode_compare a b = 0 \<longleftrightarrow> r_start a = r_start b"
  "0 \<le> rmnode_compare a b \<longleftrightarrow> r_start b \<le> r_start a"
  by (auto simp: rmnode_compare_def Let_def)

lemma tree_wf_sorted: "tree_wf rm \<Longrightarrow> starts_sorted (rm_list rm)"
  by (simp add: rbtree_wf_def rm_list_def Let_def)

lemma rm_range: "tree_wf rm \<Longrightarrow> x \<in> set (rm_list rm) \<Longrightarrow> range_from_rmnode rm (fst x) = snd x"
  using val_node_at [of "fst x" "snd x" "rb_root (rm_t rm)"] wf_tree_ok [of rmnode_compare "rm_t rm"]
  by (simp add: range_from_rmnode_def rm_list_def)

lemma addr_at: "x \<in> set (rm_list rm) \<Longrightarrow> addr (node_at (rb_root (rm_t rm)) (fst x)) = fst x"
  by (auto simp: rm_list_def intro!: addr_node_at imageI)

lemma rm_next:
  assumes "tree_wf rm" "rm_list rm = xs @ x # ys"
  shows "rangemap_next_node rm (fst x) = Some (first_addr ys)"
  using adjacent_next [OF wf_tree_ok wf_par_ok assms(2) [unfolded rm_list_def]] assms
    addr_at [of "hd ys" rm]
  by (cases ys) (auto simp: rangemap_next_node_def)

lemma rm_prev:
  assumes "tree_wf rm" "rm_list rm = xs @ x # ys"
  shows "rangemap_prev_node rm (fst x) = Some (first_addr (rev xs))"
  using adjacent_prev [OF wf_tree_ok wf_par_ok assms(2) [unfolded rm_list_def]] assms
    addr_at [of "last xs" rm]
  by (cases xs rule: rev_cases) (auto simp: rangemap_prev_node_def)

lemma rm_list_Null: "rb_root (rm_t rm) = Null \<longleftrightarrow> rm_list rm = []"
  by (cases "rb_root (rm_t rm)") (auto simp: rm_list_def)

lemma rm_first: "tree_wf rm \<Longrightarrow> rangemap_first_node rm = Some (first_addr (rm_list rm))"
  using find_limit_first [of "rb_root (rm_t rm)" Rgt] addr_at [of "hd (rm_list rm)" rm]
    wf_tree_ok [of rmnode_compare "rm_t rm"]
  by (cases "rm_list rm") (auto simp: rangemap_first_node_def rbtree_find_first_def rm_list_Null
      walk_def rm_list_def [symmetric])

lemma rm_max_lte:
  assumes "tree_wf rm"
  shows "map_option addr (rbtree_lookup_max_lte rmnode_compare (rb_root (rm_t rm)) k) =
    map_option fst (let ys = filter (\<lambda>x. r_start (snd x) \<le> r_start k) (rm_list rm) in
      if ys = [] then None else Some (last ys))"
proof -
  let ?ys = "filter (\<lambda>x. r_start (snd x) \<le> r_start k) (rm_list rm)"
  have "last ?ys \<in> set (rm_list rm)" if "?ys \<noteq> []" using last_in_set [OF that] by simp
  then show ?thesis
    using rmc.max_lte_correct [OF wf_tree_ok [OF assms] wf_sorted [OF rmc.key_compare_axioms assms], of k]
      addr_at [of "last ?ys" rm]
    by (auto simp: rmc.last_lte_def rbtree_lookup_max_lte_def rm_list_def Let_def)
qed

section \<open>Loops over the nodes\<close>

lemma skip_ended_list:
  assumes "tree_wf rm" "rm_list rm = xs @ ys"
  shows "skip_ended rm s (first_addr ys) = Some (first_addr (dropWhile (\<lambda>x. r_end (snd x) \<le> s) ys))"
  using assms(2)
proof (induction ys arbitrary: xs)
  case (Cons y ys)
  then show ?case using rm_next [OF assms(1), of xs y ys] rm_range [OF assms(1), of y]
      Cons.IH [of "xs @ [y]"]
    by (simp add: skip_ended.simps [of rm s "Some (fst y)"])
qed (simp add: skip_ended.simps)

lemma filter_starts: "starts_sorted xs \<Longrightarrow>
    filter (\<lambda>x. r_start (snd x) \<le> p) xs = takeWhile (\<lambda>x. r_start (snd x) \<le> p) xs"
proof (induction xs)
  case (Cons x xs)
  have "\<not> r_start (snd y) \<le> p" if "\<not> r_start (snd x) \<le> p" "y \<in> set xs" for y
    using Cons.prems that by (auto dest: bspec [of "set xs" _ y])
  then have "filter (\<lambda>x. r_start (snd x) \<le> p) xs = []" if "\<not> r_start (snd x) \<le> p"
    using that by (auto simp: filter_empty_conv)
  then show ?case using Cons by auto
qed simp

text \<open>The nodes a query visits: the first that does not end before it, and on while they meet it.\<close>

lemma at_or_next_list:
  assumes "rangemap_wf rm"
  shows "rangemap_lookup_at_or_next rm p =
    Some (first_addr (dropWhile (\<lambda>x. r_end (snd x) \<le> p) (rm_list rm)))"
proof -
  have wf: "tree_wf rm" and ok: "ranges_ok (rm_list rm)" using assms by (auto simp: rangemap_wf_def)
  let ?le = "\<lambda>x :: nat \<times> range. r_start (snd x) \<le> p"
  define tw dw where "tw = takeWhile ?le (rm_list rm)" and "dw = dropWhile ?le (rm_list rm)"
  have split: "rm_list rm = tw @ dw" by (simp add: tw_def dw_def)
  have "filter ?le (rm_list rm) = tw"
    unfolding tw_def using tree_wf_sorted [OF wf] by (rule filter_starts)
  then have lte: "map_option addr (rbtree_lookup_max_lte rmnode_compare (rb_root (rm_t rm))
      (irange p (p + 1))) = (if tw = [] then None else Some (fst (last tw)))"
    using rm_max_lte [OF wf, of "irange p (p + 1)"] by simp
  show ?thesis
  proof (cases "tw = []")
    case True
    then show ?thesis using lte rm_first [OF wf] skip_ended_list [OF wf, of "[]" "rm_list rm" p]
      by (auto simp: rangemap_lookup_at_or_next_def Let_def rm_list_Null)
  next
    case False
    then have cut: "rm_list rm = butlast tw @ last tw # dw" using split by simp
    have "last tw \<in> set tw" using False by simp
    then have "r_start (snd (last tw)) \<le> p" unfolding tw_def by (auto dest: set_takeWhileD)
    then have "\<forall>x \<in> set (butlast tw). r_end (snd x) \<le> p"
      using ok cut by (fastforce simp: ranges_ok_def sorted_wrt_append)
    then have "dropWhile (\<lambda>x. r_end (snd x) \<le> p) (rm_list rm) =
        dropWhile (\<lambda>x. r_end (snd x) \<le> p) (last tw # dw)"
      unfolding cut by (intro dropWhile_append2) auto
    then show ?thesis using False lte skip_ended_list [OF wf cut] cut
      by (auto simp: rangemap_lookup_at_or_next_def Let_def rm_list_Null)
  qed
qed

text \<open>The reference for a loop body applied to a list of nodes.\<close>

fun each :: "(nat \<Rightarrow> 's \<Rightarrow> ('s, 'r) flow option) \<Rightarrow> rmlist \<Rightarrow> 's \<Rightarrow> ('s, 'r) flow option" where
  "each body [] s = Some (Next s)"
| "each body (x # xs) s = do {
     f \<leftarrow> body (fst x) s;
     case f of Next s' \<Rightarrow> each body xs s' | Break s' \<Rightarrow> Some (Next s') | Done r \<Rightarrow> Some (Done r)
   }"

lemma foreach_from_list:
  assumes "tree_wf rm" "rm_list rm = xs @ ys"
  shows "foreach_from rm k body (first_addr ys) s = each body (takeWhile (\<lambda>x. meets k (snd x)) ys) s"
  using assms(2)
proof (induction ys arbitrary: xs s)
  case (Cons y ys)
  have "foreach_from rm k body (first_addr ys) = each body (takeWhile (\<lambda>x. meets k (snd x)) ys)"
    using Cons.IH [of "xs @ [y]"] Cons.prems by (intro ext) simp
  then show ?case using rm_next [OF assms(1) Cons.prems] rm_range [OF assms(1), of y] Cons.prems
    by (simp add: foreach_from.simps [of rm k body "Some (fst y)"])
qed (simp add: foreach_from.simps)

text \<open>In a well-formed map these are all the nodes that meet the query.\<close>

lemma hits_filter:
  assumes "ranges_ok xs" "r_start k < r_end k"
  shows "takeWhile (\<lambda>x. meets k (snd x)) (dropWhile (\<lambda>x. r_end (snd x) \<le> r_start k) xs) =
    filter (\<lambda>x. meets k (snd x)) xs"
  using assms(1)
proof (induction xs)
  case (Cons x xs)
  have ok: "ranges_ok xs" "r_start (snd x) < r_end (snd x)"
    "\<forall>y \<in> set xs. r_end (snd x) \<le> r_start (snd y) \<and> r_start (snd y) < r_end (snd y)"
    using Cons.prems by (auto simp: ranges_ok_def)
  show ?case
  proof (cases "r_end (snd x) \<le> r_start k")
    case True
    then have "\<not> meets k (snd x)" by (auto simp: meets_def)
    then show ?thesis using True Cons.IH [OF ok(1)] by simp
  next
    case False
    have drop: "dropWhile (\<lambda>y. r_end (snd y) \<le> r_start k) xs = xs"
    proof (cases xs)
      case (Cons y ys)
      have "r_start k < r_end (snd y)" using False ok(3) Cons by auto
      then show ?thesis using Cons by simp
    qed simp
    then have rest: "takeWhile (\<lambda>x. meets k (snd x)) xs = filter (\<lambda>x. meets k (snd x)) xs"
      using Cons.IH [OF ok(1)] by simp
    show ?thesis
    proof (cases "meets k (snd x)")
      case True
      then show ?thesis using False rest by simp
    next
      case nm: False
      then have "r_end k \<le> r_start (snd x)" using False ok(2) assms(2) by (auto simp: meets_def not_less)
      then have "r_end k \<le> r_start (snd y)" if "y \<in> set xs" for y using that ok(2,3) by force
      then have "\<forall>y \<in> set xs. \<not> meets k (snd y)" by (simp add: not_meets_before)
      then show ?thesis using nm False by (simp add: filter_empty_conv)
    qed
  qed
qed simp

lemma foreach_list:
  assumes "rangemap_wf rm" "r_start k < r_end k"
  shows "rangemap_foreach_of_range rm k body s = each body (filter (\<lambda>x. meets k (snd x)) (rm_list rm)) s"
proof -
  have wf: "tree_wf rm" "ranges_ok (rm_list rm)" using assms(1) by (auto simp: rangemap_wf_def)
  let ?p = "\<lambda>x :: nat \<times> range. r_end (snd x) \<le> r_start k"
  have "rm_list rm = takeWhile ?p (rm_list rm) @ dropWhile ?p (rm_list rm)" by simp
  from foreach_from_list [OF wf(1) this, of k body s] show ?thesis
    using hits_filter [OF wf(2) assms(2)]
    by (simp add: rangemap_foreach_of_range_def at_or_next_list [OF assms(1)])
qed

text \<open>An empty query visits nothing.\<close>

lemma foreach_empty:
  assumes "rangemap_wf rm" "\<not> r_start k < r_end k"
  shows "rangemap_foreach_of_range rm k body s = Some (Next s)"
proof -
  have wf: "tree_wf rm" using assms(1) by (simp add: rangemap_wf_def)
  let ?p = "\<lambda>x :: nat \<times> range. r_end (snd x) \<le> r_start k"
  have "rm_list rm = takeWhile ?p (rm_list rm) @ dropWhile ?p (rm_list rm)" by simp
  moreover have "\<not> meets k r" for r using assms(2) by (auto simp: meets_def)
  then have "takeWhile (\<lambda>x. meets k (snd x)) xs = []" for xs :: rmlist by (cases xs) auto
  ultimately show ?thesis
    using foreach_from_list [OF wf, of "takeWhile ?p (rm_list rm)" "dropWhile ?p (rm_list rm)" k body s]
    by (simp add: rangemap_foreach_of_range_def at_or_next_list [OF assms(1)])
qed

section \<open>Lookup\<close>

lemma intersects_list:
  assumes "rangemap_wf rm"
  shows "rangemap_range_intersects rm q = Some (points q \<inter> covered rm \<noteq> {})"
proof (cases "r_start q < r_end q")
  case True
  define body where "body = (\<lambda>n s. if meets (range_from_rmnode rm n) q
      then Some (Done True) else Some (Next s) :: (unit, bool) flow option)"
  define xs where "xs = filter (\<lambda>x. meets q (snd x)) (rm_list rm)"
  have "each body xs () = Some (if xs = [] then Next () else Done True)"
  proof (cases xs)
    case (Cons x ys)
    then have "x \<in> set (rm_list rm)" "meets q (snd x)" by (auto simp: xs_def filter_eq_Cons_iff)
    then show ?thesis using assms rm_range [of rm x] Cons
      by (simp add: rangemap_wf_def meets_sym body_def)
  qed simp
  moreover have "xs = [] \<longleftrightarrow> points q \<inter> covered rm = {}"
    unfolding xs_def filter_empty_conv meets_points covered_def by blast
  ultimately show ?thesis using foreach_list [OF assms True, of body "()"]
    by (simp add: rangemap_range_intersects_def body_def [symmetric] xs_def [symmetric])
next
  case False
  then have "points q = {}" by (simp add: points_empty)
  then show ?thesis by (simp add: rangemap_range_intersects_def foreach_empty [OF assms False])
qed

lemma find_filter: "find P xs = (if filter P xs = [] then None else Some (hd (filter P xs)))"
  by (induction xs) auto

lemma lookup_list:
  assumes "rangemap_wf rm"
  shows "rangemap_lookup rm p = Some (map_option fst (find (\<lambda>x. p \<in> points (snd x)) (rm_list rm)))"
proof (cases "p + 1 = 0")
  case False
  let ?k = "irange p (p + 1)"
  have lt: "p < p + 1" using less_plus_1_iff [OF False, of p] by simp
  have meets: "meets ?k r \<longleftrightarrow> p \<in> points r" for r
    using lt less_plus_1_iff [OF False, of "r_start r"]
    by (auto simp: meets_def points_def)
  define body where "body = (\<lambda>curr s.
    if r_start (range_from_rmnode rm curr) \<ge> p + 1 then Some (Break s)
    else if range_span (range_intersection (range_from_rmnode rm curr) ?k) \<noteq> 0
    then Some (Done (Some curr)) else Some (Next s) :: (unit, nat option) flow option)"
  define xs where "xs = filter (\<lambda>x. p \<in> points (snd x)) (rm_list rm)"
  have "each body xs () = Some (if xs = [] then Next () else Done (Some (fst (hd xs))))"
  proof (cases xs)
    case (Cons x ys)
    then have "x \<in> set (rm_list rm)" "p \<in> points (snd x)" by (auto simp: xs_def filter_eq_Cons_iff)
    moreover then have "\<not> p + 1 \<le> r_start (snd x)"
      using lt by (auto simp: points_def)
    ultimately show ?thesis using assms rm_range [of rm x] Cons meets [of "snd x"]
      by (simp add: rangemap_wf_def meets_sym body_def)
  qed simp
  then show ?thesis using foreach_list [OF assms, of ?k body "()"] lt
    unfolding rangemap_lookup_def Let_def irange_sel body_def [symmetric]
    by (simp add: meets find_filter xs_def [symmetric])
next
  case True
  then have "p \<notin> points r" for r using less_plus_1_nonzero [of p] by (auto simp: points_def)
  then have "find (\<lambda>x. p \<in> points (snd x)) (rm_list rm) = None" by (simp add: find_None_iff)
  then show ?thesis using True foreach_empty [OF assms, of "irange p (p + 1)"]
    by (simp add: rangemap_lookup_def Let_def foreach_empty [OF assms])
qed

section \<open>Changes of the list of nodes\<close>

abbreviation fresh :: "rangemap \<Rightarrow> nat \<Rightarrow> bool" where
  "fresh rm a \<equiv> a \<noteq> 0 \<and> a \<notin> fst ` set (rm_list rm)"

lemma rm_list_update [simp]:
  "rm_list (rm\<lparr>rm_freed := f\<rparr>) = rm_list rm"
  "rm_list (rm\<lparr>rm_t := t\<rparr>) = inorder (rb_root t)"
  by (simp_all add: rm_list_def)

lemma ins_list_mid:
  assumes "\<forall>x \<in> set xs. r_start (snd x) < r_start r" "\<forall>y \<in> set ys. r_start r < r_start (snd y)"
  shows "ins_list rmnode_compare (a, r) (xs @ ys) = xs @ (a, r) # ys"
  using assms rmc.ins_list_below [of xs "(a, r)" ys] by (cases ys) auto

lemma insert_node_list:
  assumes "tree_wf rm" "fresh rm a" "\<forall>x \<in> set (rm_list rm). r_start r \<noteq> r_start (snd x)"
  shows "\<exists>t. rbtree_insert_node rmnode_compare (rm_t rm) (init_rbnode a r) = Some (t, True) \<and>
    rbtree_wf rmnode_compare t \<and> inorder (rb_root t) = ins_list rmnode_compare (a, r) (rm_list rm)"
proof -
  have "(\<forall>x \<in> set (rm_list rm). rmnode_compare r (snd x) \<noteq> 0) = True"
    using assms(3) by simp
  then show ?thesis using rmc.insert_correct [OF assms(1), of a r] assms(2) by (simp add: rm_list_def)
qed

lemma filter_start:
  assumes "starts_sorted (xs @ x # ys)"
  shows "filter (\<lambda>y. r_start (snd x) \<noteq> r_start (snd y)) (xs @ x # ys) = xs @ ys"
proof -
  have "filter (\<lambda>y. r_start (snd x) \<noteq> r_start (snd y)) xs = xs"
    "filter (\<lambda>y. r_start (snd x) \<noteq> r_start (snd y)) ys = ys"
    using assms by (auto simp: sorted_wrt_append filter_id_conv)
  then show ?thesis by simp
qed

lemma remove_node_list:
  assumes "tree_wf rm" "rm_list rm = xs @ x # ys"
  shows "\<exists>rm'. rangemap_remove_node rm (fst x) = Some rm' \<and> tree_wf rm' \<and>
    rm_list rm' = xs @ ys \<and> rm_freed rm' = rm_freed rm"
proof -
  have x: "x \<in> set (rm_list rm)" "range_from_rmnode rm (fst x) = snd x"
    using assms rm_range [of rm x] by auto
  have list: "filter (\<lambda>y. rmnode_compare (snd x) (snd y) \<noteq> 0) (rm_list rm) = xs @ ys"
    using filter_start [of xs x ys] tree_wf_sorted [OF assms(1)] assms(2) by simp
  have ex: "(\<exists>y \<in> set (rm_list rm). r_start (snd x) = r_start (snd y)) = True" using x(1) by blast
  obtain t where "rbtree_remove_by_key rmnode_compare (rm_t rm) (snd x) = Some (t, True)"
    "rbtree_wf rmnode_compare t" "inorder (rb_root t) = xs @ ys"
    using rmc.remove_by_key_correct [OF assms(1), of "snd x"] list ex by (simp add: rm_list_def) blast
  then show ?thesis using x(2) by (auto simp: rangemap_remove_node_def rbtree_remove_node_def)
qed

lemma inorder_update_at:
  "inorder (update_at a w t) = map (\<lambda>x. if fst x = a then (a, w) else x) (inorder t)"
  by (induction t) auto

lemma update_at_shape [simp]:
  "bh (update_at a w t) = bh t" "is_red (update_at a w t) = is_red t"
  by (induction t) auto

lemma update_at_ok [simp]:
  "invc (update_at a w t) = invc t" "invh (update_at a w t) = invh t" "par_ok q (update_at a w t) = par_ok q t"
  by (induction t arbitrary: q) auto

lemma set_range_list:
  assumes "tree_wf rm" "rm_list rm = xs @ (a, r) # ys" "starts_sorted (xs @ (a, r') # ys)"
  shows "tree_wf (rmnode_set_range rm a r') \<and> rm_list (rmnode_set_range rm a r') = xs @ (a, r') # ys \<and>
    rm_freed (rmnode_set_range rm a r') = rm_freed rm"
proof -
  have "distinct (map fst (rm_list rm))" using assms(1) by (simp add: rbtree_wf_def rm_list_def Let_def)
  then have "a \<notin> fst ` set xs" "a \<notin> fst ` set ys" unfolding assms(2) by auto
  then have "map (\<lambda>x. if fst x = a then (a, r') else x) xs = xs"
    "map (\<lambda>x. if fst x = a then (a, r') else x) ys = ys"
    by (force intro!: map_idI)+
  then have "map (\<lambda>x. if fst x = a then (a, r') else x) (rm_list rm) = xs @ (a, r') # ys"
    unfolding assms(2) by simp
  then have list: "rm_list (rmnode_set_range rm a r') = xs @ (a, r') # ys"
    by (simp add: rmnode_set_range_def inorder_update_at rm_list_def)
  let ?t = "rm_t (rmnode_set_range rm a r')"
  have "inorder (rb_root ?t) = xs @ (a, r') # ys" "rb_count ?t = rb_count (rm_t rm)"
    "rb_root ?t = update_at a r' (rb_root (rm_t rm))"
    using list by (auto simp: rm_list_def rmnode_set_range_def)
  moreover have "inorder (rb_root (rm_t rm)) = xs @ (a, r) # ys" using assms(2) by (simp add: rm_list_def)
  ultimately have "tree_wf (rmnode_set_range rm a r')"
    using assms(1,3) unfolding rbtree_wf_def Let_def by simp
  then show ?thesis using list by (simp add: rmnode_set_range_def)
qed

section \<open>Insertion\<close>

lemma ranges_ok_starts:
  assumes "ranges_ok xs"
  shows "starts_sorted xs"
  using assms
proof (induction xs)
  case (Cons x xs)
  then have "r_start (snd x) < r_end (snd x)" "\<forall>y \<in> set xs. r_end (snd x) \<le> r_start (snd y)"
    by (auto simp: ranges_ok_def)
  then have "\<forall>y \<in> set xs. r_start (snd x) < r_start (snd y)" by (auto dest: less_le_trans)
  then show ?case using Cons by (simp add: ranges_ok_def)
qed simp

lemma ranges_ok_append:
  "ranges_ok (xs @ ys) \<longleftrightarrow> ranges_ok xs \<and> ranges_ok ys \<and>
     (\<forall>x \<in> set xs. \<forall>y \<in> set ys. r_end (snd x) \<le> r_start (snd y))"
  by (auto simp: ranges_ok_def sorted_wrt_append)

lemma ranges_ok_Cons:
  "ranges_ok (x # xs) \<longleftrightarrow> r_start (snd x) < r_end (snd x) \<and> ranges_ok xs \<and>
     (\<forall>y \<in> set xs. r_end (snd x) \<le> r_start (snd y))"
  by (auto simp: ranges_ok_def)

lemma ranges_ok_ins_list:
  assumes "ranges_ok xs" "r_start r < r_end r" "\<forall>x \<in> set xs. \<not> meets r (snd x)"
  shows "ranges_ok (ins_list rmnode_compare (a, r) xs)"
  using assms(1,3)
proof (induction xs)
  case (Cons x xs)
  have x: "r_start (snd x) < r_end (snd x)" "ranges_ok xs"
    "\<forall>y \<in> set xs. r_end (snd x) \<le> r_start (snd y)" "\<not> meets r (snd x)"
    using Cons.prems by (auto simp: ranges_ok_Cons)
  consider (before) "r_start r < r_start (snd x)" "r_end r \<le> r_start (snd x)"
    | (after) "r_start (snd x) < r_start r" "r_end (snd x) \<le> r_start r"
    using not_meetsD [OF x(4) assms(2) x(1)] assms(2) x(1) by fastforce
  then show ?case
  proof cases
    case before
    then have "\<forall>y \<in> set xs. r_end r \<le> r_start (snd y)" using x(1,3) by force
    then show ?thesis using before x assms(2) by (simp add: ranges_ok_Cons)
  next
    case after
    then show ?thesis using x Cons.IH Cons.prems(2) rmc.set_ins_list [of "(a, r)" xs]
      by (auto simp: ranges_ok_Cons)
  qed
qed (use assms(2) in \<open>simp add: ranges_ok_def\<close>)

lemma meets_same_start:
  "r_start a < r_end a \<Longrightarrow> r_start b < r_end b \<Longrightarrow> r_start a = r_start b \<Longrightarrow> meets a b"
  by (auto simp: meets_def)

lemma set_ins_list_new:
  "\<forall>x \<in> set xs. r_start r \<noteq> r_start (snd x) \<Longrightarrow> set (ins_list rmnode_compare (a, r) xs) = insert (a, r) (set xs)"
  using arg_cong [OF rmc.ins_list_absent [of xs "(a, r)"], of set_mset] by simp

lemma rangemap_insert_overlap:
  assumes "rangemap_wf rm" "x \<in> set (rm_list rm)" "meets r (snd x)"
  shows "rangemap_insert rm a r = Some (rm, False)"
proof -
  define body where "body = (\<lambda>curr s. if r_start (range_from_rmnode rm curr) \<ge> r_end r then Some (Break s)
     else if range_span (range_intersection (range_from_rmnode rm curr) r) \<noteq> 0
     then Some (Done ()) else Some (Next s) :: (unit, unit) flow option)"
  have lt: "r_start r < r_end r" using assms(3) by (auto simp: meets_def)
  obtain y ys where y: "filter (\<lambda>x. meets r (snd x)) (rm_list rm) = y # ys"
    using assms(2,3) by (cases "filter (\<lambda>x. meets r (snd x)) (rm_list rm)") (auto simp: filter_empty_conv)
  then have "y \<in> set (rm_list rm)" "meets r (snd y)" by (auto simp: filter_eq_Cons_iff)
  then have "body (fst y) () = Some (Done ())"
    using rm_range [of rm y] assms(1) not_meets_before [of r "snd y"]
    by (auto simp: body_def rangemap_wf_def meets_sym)
  then show ?thesis using foreach_list [OF assms(1) lt, of body "()"] y
    unfolding rangemap_insert_def body_def [symmetric] by simp
qed

lemma rangemap_insert_new:
  assumes "rangemap_wf rm" "r_start r < r_end r" "fresh rm a" "\<forall>x \<in> set (rm_list rm). \<not> meets r (snd x)"
  shows "\<exists>rm'. rangemap_insert rm a r = Some (rm', True) \<and> rangemap_wf rm' \<and>
    rm_list rm' = ins_list rmnode_compare (a, r) (rm_list rm) \<and>
    set (rm_list rm') = insert (a, r) (set (rm_list rm)) \<and> rm_freed rm' = rm_freed rm"
proof -
  have wf: "tree_wf rm" "ranges_ok (rm_list rm)" using assms(1) by (auto simp: rangemap_wf_def)
  have hits: "filter (\<lambda>x. meets r (snd x)) (rm_list rm) = []" using assms(4) by (simp add: filter_empty_conv)
  have starts: "\<forall>x \<in> set (rm_list rm). r_start r \<noteq> r_start (snd x)"
    using assms(2,4) wf(2) meets_same_start [of r] unfolding ranges_ok_def by blast
  obtain t where t: "rbtree_insert_node rmnode_compare (rm_t rm) (init_rbnode a r) = Some (t, True)"
    "rbtree_wf rmnode_compare t" "inorder (rb_root t) = ins_list rmnode_compare (a, r) (rm_list rm)"
    using insert_node_list [OF wf(1) assms(3) starts] by blast
  show ?thesis
    using t hits ranges_ok_ins_list [OF wf(2) assms(2,4), of a] set_ins_list_new [OF starts, of a]
    by (simp add: rangemap_insert_def foreach_list [OF assms(1,2)] rangemap_wf_def)
qed

text \<open>A node that is taken out and put back in the same place.\<close>

lemma rangemap_reinsert_mid:
  assumes "rangemap_wf rm" "rm_list rm = xs @ (a, old) # ys" "r_start k < r_end k"
    and "range_contains old k"
  shows "\<exists>rm'. rangemap_reinsert rm a k = Some (rm', True) \<and> rangemap_wf rm' \<and>
    rm_list rm' = xs @ (a, k) # ys \<and> rm_freed rm' = rm_freed rm"
proof -
  have wf: "tree_wf rm" and ok: "ranges_ok (xs @ (a, old) # ys)"
    using assms(1,2) by (auto simp: rangemap_wf_def)
  obtain rm1 where rm1: "rangemap_remove_node rm a = Some rm1" "tree_wf rm1" "rm_list rm1 = xs @ ys"
    "rm_freed rm1 = rm_freed rm"
    using remove_node_list [OF wf assms(2)] by auto
  have ok1: "rangemap_wf rm1" using rm1 ok by (auto simp: rangemap_wf_def ranges_ok_append ranges_ok_Cons)
  have k: "r_start old \<le> r_start k" "r_end k \<le> r_end old" using assms(4) by (auto simp: range_contains_def)
  have "\<forall>x \<in> set xs. r_end (snd x) \<le> r_start old \<and> r_start (snd x) < r_end (snd x)"
    "\<forall>y \<in> set ys. r_end old \<le> r_start (snd y)"
    using ok by (auto simp: ranges_ok_append ranges_ok_Cons) (auto simp: ranges_ok_def)
  then have xs: "\<forall>x \<in> set xs. r_end (snd x) \<le> r_start k \<and> r_start (snd x) < r_end (snd x)"
    and ys: "\<forall>y \<in> set ys. r_end k \<le> r_start (snd y)"
    using k by (blast intro: order.trans)+
  have far: "\<forall>x \<in> set (rm_list rm1). \<not> meets k (snd x)"
    using xs ys rm1(3) not_meets_before [of k] not_meets_after [of _ k] by auto
  have "a \<noteq> 0" "distinct (map fst (xs @ (a, old) # ys))"
    using wf assms(2) by (force simp: rbtree_wf_def rm_list_def Let_def)+
  then have fr: "fresh rm1 a" using rm1(3) by auto
  have "ins_list rmnode_compare (a, k) (xs @ ys) = xs @ (a, k) # ys"
    using xs ys assms(3) by (intro ins_list_mid) force+
  then show ?thesis using rangemap_insert_new [OF ok1 assms(3) fr far] rm1
    by (auto simp: rangemap_reinsert_def)
qed

end
