(* ===== verification/Rangemap_Cover.thy ===== *)
theory Rangemap_Cover
  imports Rangemap_Correct
begin

text \<open>
  The effect of the range map operations on the set of points the map covers: holes, merging
  insertion, gaps. The contracts of the component stand at the end.
\<close>

section \<open>Holes\<close>

definition rest_points :: "rmlist \<Rightarrow> u64 set" where
  "rest_points xs = (\<Union>x \<in> set xs. points (snd x))"

lemma covered_rest: "covered rm = rest_points (rm_list rm)"
  by (simp add: covered_def rest_points_def)

lemma rest_points_simps [simp]:
  "rest_points [] = {}" "rest_points (x # xs) = points (snd x) \<union> rest_points xs"
  "rest_points (xs @ ys) = rest_points xs \<union> rest_points ys"
  by (auto simp: rest_points_def)

lemma rest_points_disjoint:
  assumes "ranges_ok (xs @ (a, cr) # ys)" "range_contains cr r"
  shows "(rest_points xs \<union> rest_points ys) \<inter> points r = {}"
proof -
  have r: "r_start cr \<le> r_start r" "r_end r \<le> r_end cr" using assms(2) by (auto simp: range_contains_def)
  have "\<not> meets (snd x) r" if "x \<in> set xs" for x
  proof (rule not_meets_before)
    show "r_end (snd x) \<le> r_start r"
      using assms(1) that r(1) by (auto simp: ranges_ok_append intro: order.trans)
  qed
  moreover have "\<not> meets (snd y) r" if "y \<in> set ys" for y
  proof (rule not_meets_after)
    show "r_end r \<le> r_start (snd y)"
      using assms(1) that r(2) by (auto simp: ranges_ok_append ranges_ok_Cons intro: order.trans)
  qed
  ultimately show ?thesis unfolding rest_points_def meets_points by blast
qed

definition hole_ok :: "rangemap \<Rightarrow> range \<Rightarrow> rangemap \<Rightarrow> bool" where
  "hole_ok rm r rm' \<longleftrightarrow> rangemap_wf rm' \<and> covered rm' = covered rm - points r"

lemma hole_okI:
  assumes "ranges_ok (xs @ (a, cr) # ys)" "range_contains cr r" "rm_list rm = xs @ (a, cr) # ys"
    and "rangemap_wf rm'" "covered rm' = (points cr - points r) \<union> rest_points xs \<union> rest_points ys"
  shows "hole_ok rm r rm'"
  using rest_points_disjoint [OF assms(1,2)] assms(3-5) by (auto simp: hole_ok_def covered_rest)

lemma hole_split:
  assumes wf: "rangemap_wf rm" and list: "rm_list rm = xs @ (c, cr) # ys"
    and r: "r_start r < r_end r" "r_start cr < r_start r" "r_end r < r_end cr" and n: "fresh rm n"
  shows "\<exists>rm1 rm2. rangemap_reinsert rm c (irange (r_start cr) (r_start r)) = Some (rm1, True) \<and>
    rangemap_insert rm1 n (irange (r_end r) (r_end cr)) = Some (rm2, True) \<and> hole_ok rm r rm2"
proof -
  have ok: "ranges_ok (xs @ (c, cr) # ys)" using wf list by (simp add: rangemap_wf_def)
  let ?lo = "irange (r_start cr) (r_start r)" and ?hi = "irange (r_end r) (r_end cr)"
  have "range_contains cr ?lo" using r by (auto simp: range_contains_def)
  then obtain rm1 where rm1: "rangemap_reinsert rm c ?lo = Some (rm1, True)" "rangemap_wf rm1"
    "rm_list rm1 = xs @ (c, ?lo) # ys"
    using rangemap_reinsert_mid [OF wf list, of ?lo] r by auto
  have "range_contains cr ?hi" using r by (auto simp: range_contains_def)
  then have "\<not> meets ?hi (snd x)" if "x \<in> set xs \<union> set ys" for x
    using that rest_points_disjoint [OF ok, of ?hi] unfolding rest_points_def meets_points by blast
  moreover have "\<not> meets ?hi ?lo" using r by (intro not_meets_after) auto
  ultimately have far: "\<forall>x \<in> set (rm_list rm1). \<not> meets ?hi (snd x)" using rm1(3) by auto
  have "fresh rm1 n" using n list rm1(3) by auto
  then obtain rm2 where rm2: "rangemap_insert rm1 n ?hi = Some (rm2, True)" "rangemap_wf rm2"
    "set (rm_list rm2) = insert (n, ?hi) (set (rm_list rm1))"
    using rangemap_insert_new [OF rm1(2), of ?hi n] far r by auto
  have "covered rm2 = points ?hi \<union> covered rm1" using rm2(3) by (simp add: covered_def)
  moreover have "points ?lo \<union> points ?hi = points cr - points r" using r by (auto simp: points_def)
  ultimately have "hole_ok rm r rm2" using rm2(2) rm1(3) r
    by (intro hole_okI [OF ok _ list]) (auto simp: covered_rest range_contains_def)
  then show ?thesis using rm1(1) rm2(1) by blast
qed

lemma hole_trim:
  assumes wf: "rangemap_wf rm" and list: "rm_list rm = xs @ (c, cr) # ys"
    and k: "r_start k < r_end k" "range_contains cr k" "range_contains cr r" "points k = points cr - points r"
  shows "\<exists>rm1. rangemap_reinsert rm c k = Some (rm1, True) \<and> hole_ok rm r rm1"
proof -
  have ok: "ranges_ok (xs @ (c, cr) # ys)" using wf list by (simp add: rangemap_wf_def)
  obtain rm1 where rm1: "rangemap_reinsert rm c k = Some (rm1, True)" "rangemap_wf rm1"
    "rm_list rm1 = xs @ (c, k) # ys"
    using rangemap_reinsert_mid [OF wf list k(1,2)] by auto
  then have "hole_ok rm r rm1"
    using k by (intro hole_okI [OF ok _ list]) (auto simp: covered_rest)
  then show ?thesis using rm1(1) by blast
qed

lemma hole_remove:
  assumes wf: "rangemap_wf rm" and list: "rm_list rm = xs @ (c, cr) # ys" and eq: "points cr = points r" "range_contains cr r"
  shows "\<exists>rm1. rangemap_remove_range rm c = Some rm1 \<and> hole_ok rm r rm1"
proof -
  have ok: "tree_wf rm" "ranges_ok (xs @ (c, cr) # ys)" using wf list by (auto simp: rangemap_wf_def)
  obtain rm1 where rm1: "rangemap_remove_node rm c = Some rm1" "tree_wf rm1" "rm_list rm1 = xs @ ys"
    using remove_node_list [OF ok(1) list] by auto
  moreover have "rangemap_wf (rm1\<lparr>rm_freed := c # rm_freed rm1\<rparr>)"
    using rm1 ok(2) by (auto simp: rangemap_wf_def ranges_ok_append ranges_ok_Cons)
  ultimately have "hole_ok rm r (rm1\<lparr>rm_freed := c # rm_freed rm1\<rparr>)"
    using eq by (intro hole_okI [OF ok(2) _ list]) (auto simp: covered_rest)
  then show ?thesis using rm1(1) by (auto simp: rangemap_remove_range_def)
qed

lemma insert_hole_correct:
  assumes wf: "rangemap_wf rm" and r: "r_start r < r_end r" and n: "fresh rm n"
  shows "\<exists>rm' ok. rangemap_insert_hole rm r (Some n) = Some (rm', ok) \<and>
    ok = (\<exists>x \<in> set (rm_list rm). range_contains (snd x) r) \<and>
    (if ok then hole_ok rm r rm' else rm' = rm)"
proof (cases "filter (\<lambda>x. meets r (snd x)) (rm_list rm)")
  case Nil
  have "\<not> range_contains (snd x) r" if "x \<in> set (rm_list rm)" for x
    using Nil that r by (auto simp: filter_empty_conv range_contains_def meets_def)
  then show ?thesis using Nil by (auto simp: rangemap_insert_hole_def foreach_list [OF wf r])
next
  case (Cons x zs)
  then have x: "x \<in> set (rm_list rm)" "meets r (snd x)" by (auto simp: filter_eq_Cons_iff)
  then obtain xs c cr ys where list: "rm_list rm = xs @ (c, cr) # ys" and x_eq: "x = (c, cr)"
    by (metis split_list surj_pair)
  have ok: "ranges_ok (xs @ (c, cr) # ys)" "range_from_rmnode rm c = cr"
    using wf list rm_range [of rm x] x x_eq by (auto simp: rangemap_wf_def)
  have only: "(\<exists>y \<in> set (rm_list rm). range_contains (snd y) r) = range_contains cr r"
  proof (rule iffI)
    assume "\<exists>y \<in> set (rm_list rm). range_contains (snd y) r"
    then obtain y where y: "y \<in> set (rm_list rm)" "range_contains (snd y) r" by blast
    then have my: "meets (snd y) cr" using x(2) x_eq r by (auto simp: meets_def range_contains_def)
    have far: "\<not> meets (snd z) cr" if "z \<in> set xs \<union> set ys" for z
      using that rest_points_disjoint [OF ok(1), of cr]
      unfolding rest_points_def meets_points range_contains_def by blast
    have "y \<notin> set xs \<union> set ys" using far [of y] my by auto
    then have "y = (c, cr)" using y(1) list by auto
    then show "range_contains cr r" using y(2) by simp
  qed (use list in auto)
  have lt: "r_start cr < r_end cr" using ok(1) by (auto simp: ranges_ok_append ranges_ok_Cons)
  consider (out) "r_start r < r_start cr \<or> r_end cr < r_end r"
    | (mid) "r_start cr < r_start r" "r_end r < r_end cr"
    | (tail) "r_start cr < r_start r" "r_end r = r_end cr"
    | (head) "r_start cr = r_start r" "r_end r < r_end cr"
    | (all) "r_start cr = r_start r" "r_end r = r_end cr"
    by fastforce
  then show ?thesis
  proof cases
    case out
    then show ?thesis using Cons x_eq ok(2) only
      by (auto simp: rangemap_insert_hole_def foreach_list [OF wf r] range_contains_def)
  next
    case mid
    then show ?thesis using hole_split [OF wf list r mid n] Cons x_eq ok(2) only
      by (auto simp: rangemap_insert_hole_def foreach_list [OF wf r] range_contains_def Let_def)
  next
    case tail
    have "\<exists>rm1. rangemap_reinsert rm c (irange (r_start cr) (r_start r)) = Some (rm1, True) \<and> hole_ok rm r rm1"
      using tail r by (intro hole_trim [OF wf list]) (auto simp: range_contains_def points_def)
    then show ?thesis using tail Cons x_eq ok(2) only
      by (auto simp: rangemap_insert_hole_def foreach_list [OF wf r] range_contains_def Let_def)
  next
    case head
    have "\<exists>rm1. rangemap_reinsert rm c (irange (r_end r) (r_end cr)) = Some (rm1, True) \<and> hole_ok rm r rm1"
      using head r by (intro hole_trim [OF wf list]) (auto simp: range_contains_def points_def)
    then show ?thesis using head Cons x_eq ok(2) only
      by (auto simp: rangemap_insert_hole_def foreach_list [OF wf r] range_contains_def Let_def)
  next
    case all
    have eq: "points cr = points r" "range_contains cr r"
      using all by (simp_all add: range_contains_def points_def)
    obtain rm1 where rm1: "rangemap_remove_range rm c = Some rm1" "hole_ok rm r rm1"
      using hole_remove [OF wf list eq] by blast
    have "rangemap_insert_hole rm r (Some n) = Some (rm1, True)"
      using all Cons x_eq ok(2) rm1(1) by (simp add: rangemap_insert_hole_def foreach_list [OF wf r])
    then show ?thesis using rm1(2) only eq(2) by auto
  qed
qed

section \<open>Merging insertion\<close>

text \<open>The node from which \<^verbatim>\<open>rangemap_insert_range\<close> starts to merge.\<close>

definition merge_start :: "rangemap \<Rightarrow> range \<Rightarrow> nat option option" where
  "merge_start rm r = do {
     n0 \<leftarrow> (case rbtree_lookup_max_lte rmnode_compare (rb_root (rm_t rm)) r of
             None \<Rightarrow> rangemap_first_node rm
           | Some h \<Rightarrow> Some (Some (addr h)));
     case n0 of
       None \<Rightarrow> Some None
     | Some a \<Rightarrow> if r_end (range_from_rmnode rm a) < r_start r then rangemap_next_node rm a else Some n0
   }"

lemma merge_start_list:
  assumes "rangemap_wf rm"
  shows "\<exists>xs ys. rm_list rm = xs @ ys \<and> merge_start rm r = Some (first_addr ys) \<and>
    (\<forall>x \<in> set xs. r_end (snd x) \<le> r_start r) \<and> (ys \<noteq> [] \<longrightarrow> r_start r \<le> r_end (snd (hd ys)))"
proof -
  have wf: "tree_wf rm" and ok: "ranges_ok (rm_list rm)" using assms by (auto simp: rangemap_wf_def)
  let ?le = "\<lambda>x :: nat \<times> range. r_start (snd x) \<le> r_start r"
  define tw dw where "tw = takeWhile ?le (rm_list rm)" and "dw = dropWhile ?le (rm_list rm)"
  have split: "rm_list rm = tw @ dw" by (simp add: tw_def dw_def)
  have goal: "rm_list rm = xs @ ys \<Longrightarrow> merge_start rm r = Some (first_addr ys) \<Longrightarrow>
      \<forall>x \<in> set xs. r_end (snd x) \<le> r_start r \<Longrightarrow> ys \<noteq> [] \<longrightarrow> r_start r \<le> r_end (snd (hd ys)) \<Longrightarrow> ?thesis"
    for xs ys by (rule exI [of _ xs], rule exI [of _ ys]) simp
  have dw: "\<forall>x \<in> set dw. r_start r < r_end (snd x)" if "dw \<noteq> []"
  proof -
    have "\<not> ?le (hd dw)" using that unfolding dw_def by (rule hd_dropWhile)
    moreover have "starts_sorted dw" using tree_wf_sorted [OF wf] split by (simp add: sorted_wrt_append)
    ultimately have "\<forall>x \<in> set dw. r_start r < r_start (snd x)" by (cases dw) (auto simp: not_le)
    moreover have "\<forall>x \<in> set dw. r_start (snd x) < r_end (snd x)"
      using ok split by (auto simp: ranges_ok_def)
    ultimately show ?thesis by (blast intro: less_trans)
  qed
  have lte: "map_option addr (rbtree_lookup_max_lte rmnode_compare (rb_root (rm_t rm)) r) =
      (if tw = [] then None else Some (fst (last tw)))"
    using rm_max_lte [OF wf, of r] filter_starts [OF tree_wf_sorted [OF wf], of "r_start r"]
    by (simp add: tw_def)
  show ?thesis
  proof (cases "tw = []")
    case True
    then have "rbtree_lookup_max_lte rmnode_compare (rb_root (rm_t rm)) r = None" using lte by simp
    then have "merge_start rm r = Some (first_addr (rm_list rm))"
      using rm_first [OF wf] dw rm_range [OF wf, of "hd dw"] split True
      by (cases dw) (auto simp: merge_start_def)
    moreover have "rm_list rm \<noteq> [] \<longrightarrow> r_start r \<le> r_end (snd (hd (rm_list rm)))"
      using dw split True by (cases dw) auto
    ultimately show ?thesis using goal [of "[]" "rm_list rm"] by simp
  next
    case False
    then have cut: "rm_list rm = butlast tw @ last tw # dw" using split by simp
    have "last tw \<in> set tw" using False by simp
    then have le: "r_start (snd (last tw)) \<le> r_start r" unfolding tw_def by (auto dest: set_takeWhileD)
    then have front: "\<forall>x \<in> set (butlast tw). r_end (snd x) \<le> r_start r"
      using ok cut by (fastforce simp: ranges_ok_def sorted_wrt_append)
    have start: "merge_start rm r = (if r_end (snd (last tw)) < r_start r then Some (first_addr dw)
        else Some (first_addr (last tw # dw)))"
      using False lte rm_next [OF wf cut] rm_range [OF wf, of "last tw"] cut
      by (auto simp: merge_start_def)
    show ?thesis
    proof (cases "r_end (snd (last tw)) < r_start r")
      case True
      have "\<forall>x \<in> set tw. r_end (snd x) \<le> r_start r"
        using front True \<open>tw \<noteq> []\<close> by (cases tw rule: rev_cases) auto
      moreover have "dw \<noteq> [] \<longrightarrow> r_start r \<le> r_end (snd (hd dw))" using dw by (cases dw) auto
      ultimately show ?thesis using start True split by (intro goal [of tw dw]) auto
    next
      case False
      then have "merge_start rm r = Some (first_addr (last tw # dw))" using start by simp
      moreover have "last tw # dw \<noteq> [] \<longrightarrow> r_start r \<le> r_end (snd (hd (last tw # dw)))"
        using False by simp
      ultimately show ?thesis by (rule goal [OF cut _ front])
    qed
  qed
qed

lemma starts_sorted_same:
  "starts_sorted (xs @ (a, r) # ys) \<Longrightarrow> r_start r' = r_start r \<Longrightarrow> starts_sorted (xs @ (a, r') # ys)"
  by (auto simp: sorted_wrt_append)

lemma absorb_list:
  assumes "tree_wf rm" "rm_list rm = xs @ (m, mr) # y # ys"
  shows "\<exists>rm'. absorb_node rm m (fst y) = Some rm' \<and> tree_wf rm' \<and>
    rm_list rm' = xs @ (m, irange (r_start mr) (max (r_end mr) (r_end (snd y)))) # ys"
proof -
  define mr' where "mr' = irange (r_start mr) (max (r_end mr) (r_end (snd y)))"
  have r: "range_from_rmnode rm m = mr" "range_from_rmnode rm (fst y) = snd y"
    using rm_range [OF assms(1), of "(m, mr)"] rm_range [OF assms(1), of y] assms(2) by auto
  define rm1 where "rm1 = (if r_end mr < r_end (snd y)
    then rmnode_set_range rm m (mr\<lparr>r_end := r_end (snd y)\<rparr>) else rm)"
  have mr': "mr' = (if r_end mr < r_end (snd y) then mr\<lparr>r_end := r_end (snd y)\<rparr> else mr)"
    by (auto simp: mr'_def irange_def)
  have "starts_sorted (xs @ (m, mr') # y # ys)"
    using tree_wf_sorted [OF assms(1)] assms(2) starts_sorted_same [of xs m mr "y # ys" mr']
    by (simp add: mr'_def)
  then have rm1: "tree_wf rm1" "rm_list rm1 = (xs @ [(m, mr')]) @ y # ys"
    using set_range_list [OF assms, of mr'] assms unfolding rm1_def mr' by (auto split: if_splits)
  then obtain rm2 where rm2: "rangemap_remove_node rm1 (fst y) = Some rm2" "tree_wf rm2"
    "rm_list rm2 = (xs @ [(m, mr')]) @ ys"
    using remove_node_list [OF rm1] by blast
  have "absorb_node rm m (fst y) = Some (rm2\<lparr>rm_freed := fst y # rm_freed rm2\<rparr>)"
    using rm2(1) r by (simp add: absorb_node_def rangemap_remove_range_def rm1_def [symmetric])
  then show ?thesis using rm2 by (simp add: mr'_def)
qed

lemma points_hull:
  assumes "r_start a \<le> r_end b" "r_start b \<le> r_end a" "r_start a < r_end a" "r_start b < r_end b"
  shows "points (irange (min (r_start a) (r_start b)) (max (r_end a) (r_end b))) = points a \<union> points b"
  using assms by (auto simp: points_def min_def max_def not_le split: if_splits)

lemma loop_absorb:
  assumes "tree_wf rm" "rm_list rm = xs @ (m, mr) # y # ys" "r_start (snd y) \<le> r_end r"
    and "absorb_node rm m (fst y) = Some rm'"
  shows "insert_range_loop rm r (first_addr (y # ys)) (Some m) = insert_range_loop rm' r (first_addr ys) (Some m)"
proof -
  have "rangemap_next_node rm (fst y) = Some (first_addr ys)" "range_from_rmnode rm (fst y) = snd y"
    using rm_next [OF assms(1), of "xs @ [(m, mr)]" y ys] rm_range [OF assms(1), of y] assms(2) by auto
  then show ?thesis using assms(3,4)
    by (simp add: insert_range_loop.simps [of rm r "Some (fst y)"] merge_step_def)
qed

lemma merge_rest:
  assumes "tree_wf rm" "rm_list rm = xs @ (m, mr) # ys" "ranges_ok xs" "ranges_ok ys"
    and "r_start mr < r_end mr" "\<forall>x \<in> set xs. r_end (snd x) \<le> r_start mr"
    and "\<forall>y \<in> set ys. r_start mr < r_start (snd y)" "r_end r \<le> r_end mr"
    and "r_end mr = r_end r \<or> (\<forall>y \<in> set ys. r_end mr \<le> r_start (snd y))"
  shows "\<exists>rm'. insert_range_loop rm r (first_addr ys) (Some m) = Some (rm', Some m) \<and>
    rangemap_wf rm' \<and> covered rm' = covered rm"
  using assms(1,2,4,5-9)
proof (induction ys arbitrary: rm mr)
  case Nil
  then show ?case using assms(3)
    by (auto simp: insert_range_loop.simps rangemap_wf_def ranges_ok_def sorted_wrt_append)
next
  case (Cons y ys)
  have ys: "ranges_ok ys" "r_start (snd y) < r_end (snd y)"
    "\<forall>z \<in> set ys. r_end (snd y) \<le> r_start (snd z)" "r_start mr < r_start (snd y)"
    using Cons.prems(3,6) by (auto simp: ranges_ok_Cons)
  show ?case
  proof (cases "r_start (snd y) \<le> r_end r")
    case True
    let ?mr = "irange (r_start mr) (max (r_end mr) (r_end (snd y)))"
    obtain rm1 where rm1: "absorb_node rm m (fst y) = Some rm1" "tree_wf rm1" "rm_list rm1 = xs @ (m, ?mr) # ys"
      using absorb_list [OF Cons.prems(1,2)] by blast
    have le: "r_start (snd y) \<le> r_end mr" using True Cons.prems(7) by simp
    have inv: "r_end ?mr = r_end r \<or> (\<forall>z \<in> set ys. r_end ?mr \<le> r_start (snd z))"
      using Cons.prems(8) ys(2,3) le by (auto simp: max_def)
    have "\<exists>rm'. insert_range_loop rm1 r (first_addr ys) (Some m) = Some (rm', Some m) \<and>
        rangemap_wf rm' \<and> covered rm' = covered rm1"
      by (rule Cons.IH [OF rm1(2,3) ys(1) _ _ _ _ inv])
        (use Cons.prems(4-7) in \<open>auto simp: less_max_iff_disj le_max_iff_disj\<close>)
    moreover have "covered rm1 = covered rm"
      using rm1(3) Cons.prems(2) points_hull [of mr "snd y"] le ys(2,4) Cons.prems(4)
      by (auto simp: covered_rest min_absorb1)
    ultimately show ?thesis using loop_absorb [OF Cons.prems(1,2) True rm1(1)] by simp
  next
    case False
    have "\<forall>z \<in> set (y # ys). r_end mr \<le> r_start (snd z)"
      using Cons.prems(8) False ys(2,3) by force
    then have "ranges_ok (rm_list rm)"
      unfolding Cons.prems(2) ranges_ok_append ranges_ok_Cons [of "(m, mr)"]
      using Cons.prems(3-6) assms(3) by force
    moreover have "insert_range_loop rm r (first_addr (y # ys)) (Some m) = Some (rm, Some m)"
      using False rm_range [OF Cons.prems(1), of y] Cons.prems(2)
      by (simp add: insert_range_loop.simps [of rm r "Some (fst y)"])
    ultimately show ?thesis using Cons.prems(1) by (simp add: rangemap_wf_def)
  qed
qed

lemma extend_range_hull:
  "extend_range nr r = irange (min (r_start nr) (r_start r)) (max (r_end nr) (r_end r))"
  by (auto simp: extend_range_def irange_def Let_def min_def max_def)

lemma loop_extend:
  assumes "tree_wf rm" "rm_list rm = xs @ (a, nr) # ys" "r_start nr \<le> r_end r"
  shows "insert_range_loop rm r (Some a) None =
    insert_range_loop (rmnode_set_range rm a (extend_range nr r)) r (first_addr ys) (Some a)"
proof -
  have "rangemap_next_node rm a = Some (first_addr ys)" "range_from_rmnode rm a = nr"
    using rm_next [OF assms(1,2)] rm_range [OF assms(1), of "(a, nr)"] assms(2) by auto
  then show ?thesis using assms(3)
    by (simp add: insert_range_loop.simps [of rm r "Some a"] merge_step_def)
qed

lemma insert_range_merge:
  assumes wf: "rangemap_wf rm" and list: "rm_list rm = xs @ (a, nr) # ys"
    and r: "r_start r < r_end r" "r_start nr \<le> r_end r" "r_start r \<le> r_end nr"
    and xs: "\<forall>x \<in> set xs. r_end (snd x) \<le> r_start r"
  shows "\<exists>rm'. insert_range_loop rm r (Some a) None = Some (rm', Some a) \<and> rangemap_wf rm' \<and>
    covered rm' = covered rm \<union> points r"
proof -
  define er where "er = irange (min (r_start nr) (r_start r)) (max (r_end nr) (r_end r))"
  have tree: "tree_wf rm" and ok: "ranges_ok (xs @ (a, nr) # ys)" using wf list by (auto simp: rangemap_wf_def)
  have parts: "ranges_ok xs" "ranges_ok ys" "r_start nr < r_end nr"
    "\<forall>x \<in> set xs. r_end (snd x) \<le> r_start nr" "\<forall>y \<in> set ys. r_end nr \<le> r_start (snd y)"
    using ok by (auto simp: ranges_ok_append ranges_ok_Cons)
  have xs': "\<forall>x \<in> set xs. r_end (snd x) \<le> r_start er" using xs parts(4) by (simp add: er_def)
  have ys': "\<forall>y \<in> set ys. r_start er < r_start (snd y)"
    using parts(3,5) by (auto simp: er_def min_less_iff_disj dest: less_le_trans)
  have below: "\<forall>x \<in> set xs. r_start (snd x) < r_start er"
    using xs' parts(1) unfolding ranges_ok_def by (blast intro: less_le_trans)
  moreover have "\<forall>x \<in> set xs. \<forall>y \<in> set ys. r_start (snd x) < r_start (snd y)"
    using below ys' by (blast intro: less_trans)
  ultimately have sorted: "starts_sorted (xs @ (a, er) # ys)"
    using ranges_ok_starts [OF parts(1)] ranges_ok_starts [OF parts(2)] ys'
    by (simp add: sorted_wrt_append)
  let ?rm = "rmnode_set_range rm a er"
  have rm1: "tree_wf ?rm" "rm_list ?rm = xs @ (a, er) # ys"
    using set_range_list [OF tree list sorted] by auto
  have "\<exists>rm'. insert_range_loop ?rm r (first_addr ys) (Some a) = Some (rm', Some a) \<and>
      rangemap_wf rm' \<and> covered rm' = covered ?rm"
  proof (rule merge_rest [OF rm1 parts(1,2) _ xs' ys'])
    show "r_start er < r_end er" using r(1) by (simp add: er_def less_max_iff_disj min_less_iff_disj)
    show "r_end er = r_end r \<or> (\<forall>y \<in> set ys. r_end er \<le> r_start (snd y))"
      using parts(5) by (auto simp: er_def max_def)
  qed (simp add: er_def)
  moreover have "covered ?rm = covered rm \<union> points r"
    using points_hull [OF r(2,3) parts(3) r(1)] rm1(2) list by (auto simp: covered_rest er_def)
  ultimately show ?thesis using loop_extend [OF tree list r(2)] by (simp add: extend_range_hull er_def)
qed

lemma rangemap_insert_range_start:
  "rangemap_insert_range rm r alloc = do {
     n \<leftarrow> merge_start rm r;
     (rm1, merged) \<leftarrow> insert_range_loop rm r n None;
     if merged \<noteq> None then Some (rm1, True)
     else case alloc of
         None \<Rightarrow> Some (rm1, False)
       | Some a \<Rightarrow> do { (rm2, _) \<leftarrow> rangemap_insert rm1 a r; Some (rm2, True) }
   }"
  by (simp add: rangemap_insert_range_def merge_start_def)

lemma insert_range_correct:
  assumes wf: "rangemap_wf rm" and r: "r_start r < r_end r" and n: "fresh rm n"
  shows "\<exists>rm'. rangemap_insert_range rm r (Some n) = Some (rm', True) \<and> rangemap_wf rm' \<and>
    covered rm' = covered rm \<union> points r"
proof -
  obtain xs ys where s: "rm_list rm = xs @ ys" "merge_start rm r = Some (first_addr ys)"
    "\<forall>x \<in> set xs. r_end (snd x) \<le> r_start r" "ys \<noteq> [] \<longrightarrow> r_start r \<le> r_end (snd (hd ys))"
    using merge_start_list [OF wf, of r] by blast
  have tree: "tree_wf rm" and ok: "ranges_ok (xs @ ys)" using wf s(1) by (auto simp: rangemap_wf_def)
  show ?thesis
  proof (cases "ys \<noteq> [] \<and> r_start (snd (hd ys)) \<le> r_end r")
    case True
    then obtain a nr zs where ys: "ys = (a, nr) # zs" by (cases ys) auto
    then show ?thesis using insert_range_merge [OF wf, of xs a nr zs r] s r True
      by (auto simp: rangemap_insert_range_start)
  next
    case False
    have after: "\<forall>y \<in> set ys. r_end r \<le> r_start (snd y)"
    proof (cases ys)
      case (Cons y zs)
      then have "r_end r \<le> r_start (snd y)" "r_start (snd y) < r_end (snd y)"
        "\<forall>z \<in> set zs. r_end (snd y) \<le> r_start (snd z)"
        using False ok by (auto simp: ranges_ok_append ranges_ok_Cons)
      then have "r_end r \<le> r_end (snd y)" by simp
      then show ?thesis using Cons \<open>r_end r \<le> r_start (snd y)\<close>
          \<open>\<forall>z \<in> set zs. r_end (snd y) \<le> r_start (snd z)\<close>
        by (auto intro: order.trans [of _ "r_end (snd y)"])
    qed simp
    then have far: "\<forall>x \<in> set (rm_list rm). \<not> meets r (snd x)"
      using s(1,3) not_meets_before [of r] not_meets_after [of _ r] by auto
    have "insert_range_loop rm r (first_addr ys) None = Some (rm, None)"
      using False rm_range [OF tree, of "hd ys"] s(1)
      by (cases ys) (auto simp: insert_range_loop.simps)
    moreover obtain rm' where "rangemap_insert rm n r = Some (rm', True)" "rangemap_wf rm'"
      "set (rm_list rm') = insert (n, r) (set (rm_list rm))"
      using rangemap_insert_new [OF wf r n far] by blast
    ultimately show ?thesis using s(2)
      by (auto simp: rangemap_insert_range_start covered_def)
  qed
qed

section \<open>Nodes and gaps of a query\<close>

text \<open>Apply a handler to a list until it returns false.\<close>

fun run :: "('x \<Rightarrow> 's \<Rightarrow> bool \<times> 's) \<Rightarrow> 'x list \<Rightarrow> 's \<Rightarrow> bool \<times> 's" where
  "run h [] s = (True, s)"
| "run h (x # xs) s = (case h x s of (True, s') \<Rightarrow> run h xs s' | (False, s') \<Rightarrow> (False, s'))"

lemma run_append:
  "run h (xs @ ys) s = (case run h xs s of (True, s') \<Rightarrow> run h ys s' | (False, s') \<Rightarrow> (False, s'))"
  by (induction xs arbitrary: s) (auto split: prod.splits bool.splits)

definition gap_event :: "range \<Rightarrow> u64 \<Rightarrow> u64 \<Rightarrow> (range + nat) list" where
  "gap_event q e s =
     (let i = range_intersection (irange e s) q in if range_span i \<noteq> 0 then [Inl i] else [])"

text \<open>The calls a query makes: the gaps (if \<open>g\<close>) and the nodes (if \<open>n\<close>) from the edge \<open>e\<close> on.\<close>

fun events :: "bool \<Rightarrow> bool \<Rightarrow> range \<Rightarrow> u64 \<Rightarrow> rmlist \<Rightarrow> (range + nat) list" where
  "events g n q e [] = (if g then gap_event q e (r_end q) else [])"
| "events g n q e (x # xs) = (if g then gap_event q e (r_start (snd x)) else []) @
     (if n then [Inr (fst x)] else []) @ events g n q (r_end (snd x)) xs"

fun handle ::
  "(nat \<Rightarrow> 's \<Rightarrow> bool \<times> 's) option \<Rightarrow> (range \<Rightarrow> 's \<Rightarrow> bool \<times> 's) option \<Rightarrow> range + nat \<Rightarrow> 's \<Rightarrow> bool \<times> 's" where
  "handle nh (Some gh) (Inl i) s = gh i s"
| "handle (Some nh) gh (Inr a) s = nh a s"
| "handle _ _ _ s = (True, s)"

definition verdict :: "bool \<Rightarrow> bool \<times> 's \<Rightarrow> rm_result \<times> 's" where
  "verdict m x = (case x of (False, s) \<Rightarrow> (RM_ABORT, s)
     | (True, s) \<Rightarrow> (if m then RM_MATCH else RM_NOMATCH, s))"

definition node_events :: "bool \<Rightarrow> bool \<Rightarrow> range \<Rightarrow> u64 \<Rightarrow> nat \<times> range \<Rightarrow> (range + nat) list" where
  "node_events g n q e x = (if g then gap_event q e (r_start (snd x)) else []) @ (if n then [Inr (fst x)] else [])"

lemma events_Cons: "events g n q e (x # xs) = node_events g n q e x @ events g n q (r_end (snd x)) xs"
  by (simp add: node_events_def)

lemma query_body_step:
  assumes "meets q (snd x)" "range_from_rmnode rm (fst x) = snd x"
  shows "query_body rm q nh gh (fst x) (m, e, s) =
    (let evs = node_events (gh \<noteq> None) (nh \<noteq> None) q e x in
     case run (handle nh gh) evs s of
       (False, s') \<Rightarrow> Some (Done (RM_ABORT, s'))
     | (True, s') \<Rightarrow> Some (Next (m \<or> evs \<noteq> [], if gh = None then e else r_end (snd x), s')))"
  using assms meets_sym [of "snd x" q]
  by (cases gh; cases nh)
    (auto simp: query_body_def node_events_def gap_event_def Let_def split: prod.splits bool.splits)

lemma events_edge: "events False n q e xs = events False n q e' xs"
  by (induction xs arbitrary: e e') auto

lemma query_run:
  assumes "\<forall>x \<in> set xs. meets q (snd x) \<and> range_from_rmnode rm (fst x) = snd x"
  shows "(do { f \<leftarrow> each (query_body rm q nh gh) xs (m, e, s); query_end q gh f }) =
    (let evs = events (gh \<noteq> None) (nh \<noteq> None) q e xs in
     Some (verdict (m \<or> evs \<noteq> []) (run (handle nh gh) evs s)))"
  using assms
proof (induction xs arbitrary: m e s)
  case Nil
  then show ?case
    by (cases gh) (auto simp: query_end_def gap_event_def verdict_def Let_def split: prod.splits bool.splits)
next
  case (Cons x xs)
  let ?e = "if gh = None then e else r_end (snd x)"
  let ?evs = "node_events (gh \<noteq> None) (nh \<noteq> None) q e x"
  have ev: "events (gh \<noteq> None) n q ?e xs = events (gh \<noteq> None) n q (r_end (snd x)) xs" for n
    using events_edge [of n q e xs "r_end (snd x)"] by simp
  obtain ok s' where run: "run (handle nh gh) ?evs s = (ok, s')" by fastforce
  have step: "query_body rm q nh gh (fst x) (m, e, s) = Some (if ok then Next (m \<or> ?evs \<noteq> [], ?e, s')
      else Done (RM_ABORT, s'))"
    using query_body_step [of q x rm nh gh m e s] Cons.prems run by (simp add: Let_def split: bool.splits)
  show ?case
  proof (cases ok)
    case True
    then show ?thesis using step run Cons.IH [of "m \<or> ?evs \<noteq> []" ?e s'] Cons.prems ev
      by (simp add: events_Cons run_append Let_def disj_assoc del: events.simps)
  next
    case False
    then show ?thesis using step run
      by (simp add: events_Cons run_append Let_def verdict_def query_end_def del: events.simps)
  qed
qed

lemma lookup_internal_events:
  assumes "rangemap_wf rm"
  shows "rangemap_range_lookup_internal rm q nh gh s =
    (let evs = events (gh \<noteq> None) (nh \<noteq> None) q (r_start q) (filter (\<lambda>x. meets q (snd x)) (rm_list rm)) in
     Some (verdict (evs \<noteq> []) (run (handle nh gh) evs s)))"
proof -
  let ?xs = "filter (\<lambda>x. meets q (snd x)) (rm_list rm)"
  have "rangemap_foreach_of_range rm q (query_body rm q nh gh) (False, r_start q, s) =
      each (query_body rm q nh gh) ?xs (False, r_start q, s)"
  proof (cases "r_start q < r_end q")
    case False
    then have "?xs = []" by (auto simp: filter_empty_conv meets_def)
    then show ?thesis by (simp add: foreach_empty [OF assms False])
  qed (simp add: foreach_list [OF assms])
  moreover have "\<forall>x \<in> set ?xs. meets q (snd x) \<and> range_from_rmnode rm (fst x) = snd x"
    using assms rm_range [of rm] by (auto simp: rangemap_wf_def)
  from query_run [OF this, of nh gh False "r_start q" s]
  have "(do { f \<leftarrow> each (query_body rm q nh gh) ?xs (False, r_start q, s); query_end q gh f }) =
    (let evs = events (gh \<noteq> None) (nh \<noteq> None) q (r_start q) ?xs in
     Some (verdict (evs \<noteq> []) (run (handle nh gh) evs s)))" by simp
  ultimately show ?thesis unfolding rangemap_range_lookup_internal_def by simp
qed

section \<open>The gaps are the uncovered points\<close>

definition gaps_of :: "(range + nat) list \<Rightarrow> range list" where
  "gaps_of evs = concat (map (case_sum (\<lambda>g. [g]) (\<lambda>_. [])) evs)"

lemma gaps_of_simps [simp]:
  "gaps_of [] = []" "gaps_of (Inl g # evs) = g # gaps_of evs" "gaps_of (Inr a # evs) = gaps_of evs"
  "gaps_of (xs @ ys) = gaps_of xs @ gaps_of ys"
  by (simp_all add: gaps_of_def)

lemma intersection_meets:
  "meets a b \<Longrightarrow> range_intersection a b = irange (max (r_start a) (r_start b)) (min (r_end a) (r_end b))"
proof -
  assume "meets a b"
  then have "\<not> min (r_end a) (r_end b) \<le> max (r_start a) (r_start b)"
    unfolding meets_def by (simp only: not_le)
  then show ?thesis by (simp add: range_intersection_def Let_def)
qed

definition gaps_ok :: "range \<Rightarrow> u64 \<Rightarrow> range list \<Rightarrow> bool" where
  "gaps_ok q e gs \<longleftrightarrow> (\<forall>g \<in> set gs. r_start g < r_end g \<and> e \<le> r_start g) \<and>
     sorted_wrt (\<lambda>a b. r_end a \<le> r_start b) gs"

lemma gap_event_gaps:
  "gaps_ok q e (gaps_of (gap_event q e s)) \<and> (\<forall>g \<in> set (gaps_of (gap_event q e s)). r_end g \<le> s) \<and>
   (\<Union>g \<in> set (gaps_of (gap_event q e s)). points g) = points q \<inter> {p. e \<le> p \<and> p < s}"
proof (cases "meets (irange e s) q")
  case True
  then have "gap_event q e s = [Inl (irange (max e (r_start q)) (min s (r_end q)))]"
    using intersection_meets [OF True] span_intersection(1) [of "irange e s" q]
    by (simp add: gap_event_def Let_def)
  then show ?thesis using True by (auto simp: gaps_ok_def meets_def points_def)
next
  case False
  then have "points q \<inter> points (irange e s) = {}" using meets_points by blast
  then show ?thesis using False by (auto simp: gap_event_def Let_def gaps_ok_def points_def)
qed

lemma events_gaps:
  assumes "ranges_ok xs" "\<forall>x \<in> set xs. e \<le> r_end (snd x)"
  shows "gaps_ok q e (gaps_of (events True n q e xs)) \<and>
    (\<Union>g \<in> set (gaps_of (events True n q e xs)). points g) = points q \<inter> {p. e \<le> p} - rest_points xs"
  using assms
proof (induction xs arbitrary: e)
  case Nil
  then show ?case using gap_event_gaps [of q e "r_end q"] by (auto simp: points_def)
next
  case (Cons x xs)
  let ?h = "gaps_of (gap_event q e (r_start (snd x)))"
    and ?t = "gaps_of (events True n q (r_end (snd x)) xs)"
  have x: "r_start (snd x) < r_end (snd x)" "e \<le> r_end (snd x)" "ranges_ok xs"
    "\<forall>y \<in> set xs. r_end (snd x) \<le> r_start (snd y)"
    using Cons.prems by (auto simp: ranges_ok_Cons)
  then have "\<forall>y \<in> set xs. r_end (snd x) \<le> r_end (snd y)"
    unfolding ranges_ok_def by (meson less_imp_le order.trans)
  note h = gap_event_gaps [of q e "r_start (snd x)"]
  note t = Cons.IH [OF x(3) \<open>\<forall>y \<in> set xs. r_end (snd x) \<le> r_end (snd y)\<close>]
  have gaps: "gaps_of (events True n q e (x # xs)) = ?h @ ?t" by (simp add: events_Cons node_events_def)
  have "\<forall>g \<in> set ?h. \<forall>g' \<in> set ?t. r_end g \<le> r_start g'"
    using h t x(1) unfolding gaps_ok_def by (meson less_imp_le order.trans)
  moreover have "\<forall>g \<in> set ?t. e \<le> r_start g"
    using t x(1,2) unfolding gaps_ok_def by (meson less_imp_le order.trans)
  ultimately have "gaps_ok q e (?h @ ?t)" using h t by (auto simp: gaps_ok_def sorted_wrt_append)
  moreover have "\<forall>p \<in> rest_points xs. r_end (snd x) \<le> p"
    using x(4) by (auto simp: rest_points_def points_def intro: order.trans)
  then have "(points q \<inter> {p. e \<le> p \<and> p < r_start (snd x)}) \<union> (points q \<inter> {p. r_end (snd x) \<le> p} - rest_points xs) =
      points q \<inter> {p. e \<le> p} - rest_points (x # xs)"
    using x(1,2) by (force simp: points_def)
  ultimately show ?case unfolding gaps using h t by (simp add: UN_Un)
qed

lemma run_gaps:
  "run (handle None (Some gh)) (events True False q e xs) s = run gh (gaps_of (events True False q e xs)) s"
proof (induction xs arbitrary: e s)
  case Nil
  then show ?case by (auto simp: gap_event_def Let_def split: prod.splits bool.splits)
next
  case (Cons x xs)
  have "run (handle None (Some gh)) (gap_event q e t) s' = run gh (gaps_of (gap_event q e t)) s'" for t s'
    by (auto simp: gap_event_def Let_def split: prod.splits bool.splits)
  then show ?case using Cons.IH
    by (simp add: events_Cons node_events_def run_append del: events.simps split: prod.splits bool.splits)
qed

lemma events_no_nodes: "events True False q e xs = [] \<longleftrightarrow> gaps_of (events True False q e xs) = []"
proof (induction xs arbitrary: e)
  case (Cons x xs)
  have "gap_event q e t = [] \<longleftrightarrow> gaps_of (gap_event q e t) = []" for t
    by (auto simp: gap_event_def Let_def)
  then show ?case using Cons.IH by (simp add: events_Cons node_events_def del: events.simps)
qed (auto simp: gap_event_def Let_def)

lemma events_nodes: "events False True q e xs = map Inr (map fst xs)"
  by (induction xs arbitrary: e) auto

lemma run_nodes: "run (handle (Some nh) gh) (map Inr as) s = run nh as s"
  by (induction as arbitrary: s) (auto split: prod.splits bool.splits)

lemma rest_points_hits:
  "points q - rest_points (filter (\<lambda>x. meets q (snd x)) xs) = points q - rest_points xs"
  unfolding rest_points_def meets_points by auto

lemma find_gaps_correct:
  assumes "rangemap_wf rm"
  shows "\<exists>gs. (\<forall>gh s. rangemap_range_find_gaps rm q gh (s :: 's) = Some (verdict (gs \<noteq> []) (run gh gs s))) \<and>
    (\<Union>g \<in> set gs. points g) = points q - covered rm \<and>
    (\<forall>g \<in> set gs. r_start g < r_end g) \<and> sorted_wrt (\<lambda>a b. r_end a \<le> r_start b) gs"
proof -
  let ?xs = "filter (\<lambda>x. meets q (snd x)) (rm_list rm)"
  let ?evs = "events True False q (r_start q) ?xs"
  have "rangemap_range_find_gaps rm q gh s = Some (verdict (gaps_of ?evs \<noteq> []) (run gh (gaps_of ?evs) s))"
    for gh and s :: 's
    using lookup_internal_events [OF assms, of q None "Some gh" s] run_gaps [of gh q "r_start q" ?xs s]
      events_no_nodes [of q "r_start q" ?xs]
    by (simp add: rangemap_range_find_gaps_def Let_def)
  moreover have "points q \<inter> {p. r_start q \<le> p} - rest_points ?xs = points q - covered rm"
    using rest_points_hits [of q "rm_list rm"] by (auto simp: covered_rest points_def)
  moreover have "ranges_ok ?xs" using assms
    by (auto simp: rangemap_wf_def ranges_ok_def sorted_wrt_filter)
  moreover have "\<forall>x \<in> set ?xs. r_start q \<le> r_end (snd x)" by (auto simp: meets_def)
  ultimately show ?thesis using events_gaps [of ?xs "r_start q" q False]
    by (intro exI [of _ "gaps_of ?evs"]) (simp add: gaps_ok_def)
qed

lemma range_lookup_correct:
  assumes "rangemap_wf rm"
  shows "rangemap_range_lookup rm q nh s =
    (let as = map fst (filter (\<lambda>x. points q \<inter> points (snd x) \<noteq> {}) (rm_list rm)) in
     Some (verdict (as \<noteq> []) (run nh as s)))"
  using lookup_internal_events [OF assms, of q "Some nh" None s]
  by (simp add: rangemap_range_lookup_def Let_def events_nodes run_nodes meets_points del: map_map)

section \<open>The contract of the component\<close>

definition sample_map :: rangemap where
  "sample_map = \<lparr>rm_t = \<lparr>rb_root = Rbn 32 0 Black (irange 30 40) (Rbn 16 32 Red (irange 10 20) Null Null) Null,
     rb_count = 2\<rparr>, rm_freed = []\<rparr>"

lemma sample_map_wf: "rangemap_wf sample_map"
  by (simp add: rangemap_wf_def rbtree_wf_def sample_map_def ranges_ok_def rm_list_def)

lemma sample_map_list: "rm_list sample_map = [(16, irange 10 20), (32, irange 30 40)]"
  by (simp add: sample_map_def rm_list_def)

text \<open>
  Property C7. \<^verbatim>\<open>rangemap_insert\<close> refuses a node that overlaps the map and leaves the map as
  it is; otherwise it inserts the node, never halts, keeps the map well-formed and extends
  the covered points by the new range.
\<close>

theorem rangemap_insert_correct:
  assumes "rangemap_wf rm" "r_start r < r_end r" "a \<noteq> 0" "a \<notin> fst ` set (rm_list rm)"
  shows "if points r \<inter> covered rm \<noteq> {} then rangemap_insert rm a r = Some (rm, False)
    else \<exists>rm'. rangemap_insert rm a r = Some (rm', True) \<and> rangemap_wf rm' \<and>
      set (rm_list rm') = insert (a, r) (set (rm_list rm)) \<and> covered rm' = covered rm \<union> points r"
proof (cases "points r \<inter> covered rm = {}")
  case True
  then have "\<forall>x \<in> set (rm_list rm). \<not> meets r (snd x)"
    unfolding meets_points covered_def by blast
  then show ?thesis using True rangemap_insert_new [OF assms(1,2), of a] assms(3,4)
    by (auto simp: covered_def)
next
  case False
  then obtain x where "x \<in> set (rm_list rm)" "meets r (snd x)"
    unfolding meets_points covered_def by blast
  then show ?thesis using False rangemap_insert_overlap [OF assms(1)] by simp
qed

theorem rangemap_insert_correct_witness:
  "(\<exists>rm'. rangemap_insert sample_map 48 (irange 20 30) = Some (rm', True) \<and> rangemap_wf rm' \<and>
     set (rm_list rm') = {(16, irange 10 20), (32, irange 30 40), (48, irange 20 30)}) \<and>
   rangemap_insert sample_map 48 (irange 15 25) = Some (sample_map, False)"
proof -
  have "points (irange 20 30) \<inter> covered sample_map = {}"
    by (auto simp: covered_def sample_map_list points_def)
  moreover have "15 \<in> points (irange 15 25) \<inter> covered sample_map"
    by (simp add: covered_def sample_map_list points_def)
  then have "points (irange 15 25) \<inter> covered sample_map \<noteq> {}" by blast
  ultimately show ?thesis
    using rangemap_insert_correct [OF sample_map_wf, of "irange 20 30" 48]
      rangemap_insert_correct [OF sample_map_wf, of "irange 15 25" 48]
    by (auto simp: sample_map_list)
qed

text \<open>
  Property C8. \<^verbatim>\<open>rangemap_insert_range\<close> returns true on a well-formed map when a node can be
  allocated: it merges the range with the nodes it overlaps or touches, so the result is
  well-formed and covers the old points and the range, and nothing else.
\<close>

theorem rangemap_insert_range_correct:
  assumes "rangemap_wf rm" "r_start r < r_end r" "n \<noteq> 0" "n \<notin> fst ` set (rm_list rm)"
  shows "\<exists>rm'. rangemap_insert_range rm r (Some n) = Some (rm', True) \<and> rangemap_wf rm' \<and>
    covered rm' = covered rm \<union> points r"
  using insert_range_correct [OF assms(1,2)] assms(3,4) by blast

theorem rangemap_insert_range_correct_witness:
  "\<exists>rm'. rangemap_insert_range sample_map (irange 15 35) (Some 48) = Some (rm', True) \<and>
    rangemap_wf rm' \<and> covered rm' = covered sample_map \<union> points (irange 15 35)"
  using rangemap_insert_range_correct [OF sample_map_wf, of "irange 15 35" 48]
  by (simp add: sample_map_list)

text \<open>
  Property C9. \<^verbatim>\<open>rangemap_insert_hole\<close> returns true exactly when one node contains the whole
  hole; then the map is well-formed and covers the old points except the hole. Otherwise the
  map does not change.
\<close>

theorem rangemap_insert_hole_correct:
  assumes "rangemap_wf rm" "r_start r < r_end r" "n \<noteq> 0" "n \<notin> fst ` set (rm_list rm)"
  shows "\<exists>rm'. rangemap_insert_hole rm r (Some n) =
      Some (rm', \<exists>x \<in> set (rm_list rm). range_contains (snd x) r) \<and>
    (if \<exists>x \<in> set (rm_list rm). range_contains (snd x) r
     then rangemap_wf rm' \<and> covered rm' = covered rm - points r else rm' = rm)"
proof -
  obtain rm' where "rangemap_insert_hole rm r (Some n) =
      Some (rm', \<exists>x \<in> set (rm_list rm). range_contains (snd x) r)"
    "if \<exists>x \<in> set (rm_list rm). range_contains (snd x) r then hole_ok rm r rm' else rm' = rm"
    using insert_hole_correct [OF assms(1,2), of n] assms(3,4) by blast
  then show ?thesis unfolding hole_ok_def by (intro exI [of _ rm'] conjI)
qed

theorem rangemap_insert_hole_correct_witness:
  "\<exists>rm'. rangemap_insert_hole sample_map (irange 12 15) (Some 48) = Some (rm', True) \<and>
    rangemap_wf rm' \<and> covered rm' = covered sample_map - points (irange 12 15)"
proof -
  have ex: "(\<exists>x \<in> set (rm_list sample_map). range_contains (snd x) (irange 12 15)) = True"
    by (simp add: sample_map_list range_contains_def)
  have pre: "r_start (irange 12 15) < r_end (irange 12 15)" "(48 :: nat) \<noteq> 0"
    "48 \<notin> fst ` set (rm_list sample_map)"
    by (simp_all add: sample_map_list)
  show ?thesis using rangemap_insert_hole_correct [OF sample_map_wf pre] unfolding ex if_True .
qed

text \<open>
  Property C10. \<^verbatim>\<open>rangemap_lookup\<close> finds the node whose range contains the point,
  \<^verbatim>\<open>rangemap_range_intersects\<close> decides whether a range meets the map, and
  \<^verbatim>\<open>rangemap_range_lookup\<close> calls its handler on exactly the nodes that meet the query, in
  order. All three return.
\<close>

theorem rangemap_lookup_correct:
  assumes "rangemap_wf rm"
  shows "rangemap_lookup rm p = Some (map_option fst (find (\<lambda>x. p \<in> points (snd x)) (rm_list rm))) \<and>
    rangemap_range_intersects rm q = Some (points q \<inter> covered rm \<noteq> {}) \<and>
    rangemap_range_lookup rm q nh s =
      (let as = map fst (filter (\<lambda>x. points q \<inter> points (snd x) \<noteq> {}) (rm_list rm)) in
       Some (verdict (as \<noteq> []) (run nh as s)))"
  by (intro conjI lookup_list intersects_list range_lookup_correct assms)

theorem rangemap_lookup_correct_witness:
  "rangemap_lookup sample_map 35 = Some (Some 32) \<and> rangemap_lookup sample_map 20 = Some None"
  using rangemap_lookup_correct [OF sample_map_wf, of 35, THEN conjunct1]
    rangemap_lookup_correct [OF sample_map_wf, of 20, THEN conjunct1]
  by (simp add: sample_map_list points_def)

text \<open>
  Property C11. \<^verbatim>\<open>rangemap_range_find_gaps\<close> calls its handler on non-empty ranges in increasing
  order that together are the points of the query the map does not cover.
\<close>

theorem rangemap_find_gaps_correct:
  assumes "rangemap_wf rm"
  shows "\<exists>gs. (\<forall>gh s. rangemap_range_find_gaps rm q gh (s :: 's) = Some (verdict (gs \<noteq> []) (run gh gs s))) \<and>
    (\<Union>g \<in> set gs. points g) = points q - covered rm \<and>
    (\<forall>g \<in> set gs. r_start g < r_end g) \<and> sorted_wrt (\<lambda>a b. r_end a \<le> r_start b) gs"
  using assms by (rule find_gaps_correct)

theorem rangemap_find_gaps_correct_witness:
  "\<exists>gs. rangemap_range_find_gaps sample_map (irange 0 50) (\<lambda>g acc. (True, acc @ [g])) [] =
      Some (verdict (gs \<noteq> []) (run (\<lambda>g acc. (True, acc @ [g])) gs [])) \<and>
    (\<Union>g \<in> set gs. points g) = points (irange 0 50) - covered sample_map"
proof -
  obtain gs where "\<forall>gh s. rangemap_range_find_gaps sample_map (irange 0 50) gh (s :: range list) =
      Some (verdict (gs \<noteq> []) (run gh gs s))"
    "(\<Union>g \<in> set gs. points g) = points (irange 0 50) - covered sample_map"
    using rangemap_find_gaps_correct [OF sample_map_wf, of "irange 0 50", where 's = "range list"]
    by (elim exE conjE)
  then show ?thesis by (intro exI [of _ gs]) simp
qed

end
