(* ===== verification/Memops.thy ===== *)
theory Memops
  imports Prelude
begin

text \<open>
  The memory routines of \<^verbatim>\<open>kernel/src/runtime/memops.c\<close>: \<^verbatim>\<open>runtime_memcpy\<close>,
  \<^verbatim>\<open>runtime_memset\<close>, \<^verbatim>\<open>runtime_memcmp\<close> and \<^verbatim>\<open>runtime_memchr\<close>, on a byte memory with
  little-endian 64-bit accesses. Addresses are natural numbers: the objects of the kernel do
  not wrap around the address space. A load or store of an aligned word that contains a byte
  of the object touches no other page, so the words at the edges may be read whole.
\<close>

section \<open>Memory\<close>

type_synonym mem = "nat \<Rightarrow> u8"

definition load64 :: "mem \<Rightarrow> nat \<Rightarrow> u64" where
  "load64 m a = ucast (m a) OR push_bit 8 (ucast (m (a + 1))) OR push_bit 16 (ucast (m (a + 2))) OR
     push_bit 24 (ucast (m (a + 3))) OR push_bit 32 (ucast (m (a + 4))) OR
     push_bit 40 (ucast (m (a + 5))) OR push_bit 48 (ucast (m (a + 6))) OR
     push_bit 56 (ucast (m (a + 7)))"

definition store64 :: "mem \<Rightarrow> nat \<Rightarrow> u64 \<Rightarrow> mem" where
  "store64 m a w = (\<lambda>x. if a \<le> x \<and> x < a + 8 then ucast (drop_bit (8 * (x - a)) w) else m x)"

section \<open>Byte loops\<close>

fun memcpyf_from :: "mem \<Rightarrow> nat \<Rightarrow> nat \<Rightarrow> nat \<Rightarrow> nat \<Rightarrow> mem" where
  "memcpyf_from m dst src i 0 = m"
| "memcpyf_from m dst src i (Suc n) = memcpyf_from (m(dst + i := m (src + i))) dst src (Suc i) n"

definition memcpyf_8 :: "mem \<Rightarrow> nat \<Rightarrow> nat \<Rightarrow> nat \<Rightarrow> mem" where
  "memcpyf_8 m dst src len = memcpyf_from m dst src 0 len"

text \<open>The index runs from \<^verbatim>\<open>len - 1\<close> down and leaves the loop when it wraps below zero.\<close>

fun memcpyb_8 :: "mem \<Rightarrow> nat \<Rightarrow> nat \<Rightarrow> nat \<Rightarrow> mem" where
  "memcpyb_8 m dst src 0 = m"
| "memcpyb_8 m dst src (Suc n) = memcpyb_8 (m(dst + n := m (src + n))) dst src n"

fun memset_from :: "mem \<Rightarrow> nat \<Rightarrow> u8 \<Rightarrow> nat \<Rightarrow> nat \<Rightarrow> mem" where
  "memset_from m a b i 0 = m"
| "memset_from m a b i (Suc n) = memset_from (m(a + i := b)) a b (Suc i) n"

definition memset_8 :: "mem \<Rightarrow> nat \<Rightarrow> u8 \<Rightarrow> nat \<Rightarrow> mem" where
  "memset_8 m a b len = memset_from m a b 0 len"

fun memcmp_from :: "mem \<Rightarrow> nat \<Rightarrow> nat \<Rightarrow> nat \<Rightarrow> nat \<Rightarrow> int" where
  "memcmp_from m a b i 0 = 0"
| "memcmp_from m a b i (Suc n) =
     (let res = uint (m (a + i)) - uint (m (b + i)) in
      if res \<noteq> 0 then res else memcmp_from m a b (Suc i) n)"

definition memcmp_8 :: "mem \<Rightarrow> nat \<Rightarrow> nat \<Rightarrow> nat \<Rightarrow> int" where
  "memcmp_8 m a b len = memcmp_from m a b 0 len"

section \<open>Word loops\<close>

text \<open>The distance from an address up to the next multiple of the word size.\<close>

definition align_cnt :: "nat \<Rightarrow> nat" where
  "align_cnt a = (let cnt = 8 - a mod 8 in if cnt = 8 then 0 else cnt)"

fun copy_words_f :: "mem \<Rightarrow> nat \<Rightarrow> nat \<Rightarrow> nat \<Rightarrow> mem \<times> nat" where
  "copy_words_f m d s 0 = (m, d)"
| "copy_words_f m d s (Suc n) = copy_words_f (store64 m d (load64 m s)) (d + 8) (s + 8) n"

fun shift_words_f :: "mem \<Rightarrow> nat \<Rightarrow> nat \<Rightarrow> nat \<Rightarrow> u64 \<Rightarrow> nat \<Rightarrow> mem \<times> nat" where
  "shift_words_f m d s alignment w1 0 = (m, d)"
| "shift_words_f m d s alignment w1 (Suc n) =
     (let w2 = load64 m s in
      shift_words_f
        (store64 m d (drop_bit (8 * (8 - alignment)) w1 OR push_bit (8 * alignment) w2))
        (d + 8) (s + 8) alignment w2 n)"

fun copy_words_b :: "mem \<Rightarrow> nat \<Rightarrow> nat \<Rightarrow> nat \<Rightarrow> mem" where
  "copy_words_b m d s 0 = m"
| "copy_words_b m d s (Suc n) = copy_words_b (store64 m d (load64 m s)) (d - 8) (s - 8) n"

fun shift_words_b :: "mem \<Rightarrow> nat \<Rightarrow> nat \<Rightarrow> nat \<Rightarrow> u64 \<Rightarrow> nat \<Rightarrow> mem" where
  "shift_words_b m d s alignment w1 0 = m"
| "shift_words_b m d s alignment w1 (Suc n) =
     (let w2 = load64 m s in
      shift_words_b
        (store64 m d (push_bit (8 * (8 - alignment)) w1 OR drop_bit (8 * alignment) w2))
        (d - 8) (s - 8) alignment w2 n)"

definition memcpy_forward :: "mem \<Rightarrow> nat \<Rightarrow> nat \<Rightarrow> nat \<Rightarrow> mem" where
  "memcpy_forward m a b len =
     (if len < 8 then memcpyf_8 m a b len
      else
        let src_cnt = align_cnt b;
            dest_cnt = align_cnt a;
            m1 = (if dest_cnt = 0 then m else memcpyf_8 m a b dest_cnt);
            long_len = (len - dest_cnt) div 8;
            end_len = (len - dest_cnt) mod 8;
            p_long_src = (if src_cnt > dest_cnt then b + src_cnt - 8 else b + src_cnt);
            p_long_dest = a + dest_cnt;
            (m2, p_long_dest') =
              (if src_cnt = dest_cnt then copy_words_f m1 p_long_dest p_long_src long_len
               else shift_words_f m1 p_long_dest (p_long_src + 8) ((src_cnt + 8 - dest_cnt) mod 8)
                      (load64 m1 p_long_src) long_len)
        in memcpyf_8 m2 p_long_dest' (b + len - end_len) end_len)"

definition memcpy_backward :: "mem \<Rightarrow> nat \<Rightarrow> nat \<Rightarrow> nat \<Rightarrow> mem" where
  "memcpy_backward m a b len0 =
     (if len0 < 8 then memcpyb_8 m a b len0
      else
        let src_cnt = (b + len0) mod 8;
            dest_cnt = (a + len0) mod 8;
            m1 = memcpyb_8 m (a + len0 - dest_cnt) (b + len0 - dest_cnt) dest_cnt;
            len = len0 - dest_cnt;
            long_len = len div 8;
            end_len = len mod 8;
            p_long_src = (if src_cnt \<le> dest_cnt then b + len0 - src_cnt - 8 else b + len0 - src_cnt);
            p_long_dest = a + len0 - dest_cnt - 8;
            m2 =
              (if src_cnt = dest_cnt then copy_words_b m1 p_long_dest p_long_src long_len
               else shift_words_b m1 p_long_dest (p_long_src - 8) ((src_cnt + 8 - dest_cnt) mod 8)
                      (load64 m1 p_long_src) long_len)
        in memcpyb_8 m2 a b end_len)"

definition runtime_memcpy :: "mem \<Rightarrow> nat \<Rightarrow> nat \<Rightarrow> nat \<Rightarrow> mem" where
  "runtime_memcpy m a b len = (if a < b then memcpy_forward m a b len else memcpy_backward m a b len)"

text \<open>The word with the byte \<open>b\<close> in every position, built by eight shifts.\<close>

fun fill_word :: "u8 \<Rightarrow> nat \<Rightarrow> u64 \<Rightarrow> u64" where
  "fill_word b 0 w = w"
| "fill_word b (Suc n) w = fill_word b n (push_bit 8 w OR ucast b)"

fun set_words :: "mem \<Rightarrow> nat \<Rightarrow> u64 \<Rightarrow> nat \<Rightarrow> mem \<times> nat" where
  "set_words m d w 0 = (m, d)"
| "set_words m d w (Suc n) = set_words (store64 m d w) (d + 8) w n"

definition runtime_memset :: "mem \<Rightarrow> nat \<Rightarrow> u8 \<Rightarrow> nat \<Rightarrow> mem" where
  "runtime_memset m a b len0 =
     (if len0 < 8 then memset_8 m a b len0
      else
        let cnt = align_cnt a;
            m1 = (if cnt = 0 then m else memset_8 m a b cnt);
            len = (if cnt = 0 then len0 else len0 - cnt);
            word = fill_word b 8 0;
            (m2, dest) = set_words m1 (a + cnt) word (len div 8)
        in memset_8 m2 dest b (len mod 8))"

text \<open>\<open>Some p\<close> is the position after equal words, \<open>None\<close> an early return of 1.\<close>

fun cmp_words :: "mem \<Rightarrow> nat \<Rightarrow> nat \<Rightarrow> nat \<Rightarrow> nat option" where
  "cmp_words m p q 0 = Some q"
| "cmp_words m p q (Suc n) =
     (if load64 m p - load64 m q \<noteq> 0 then None else cmp_words m (p + 8) (q + 8) n)"

fun cmp_shift_words :: "mem \<Rightarrow> nat \<Rightarrow> nat \<Rightarrow> nat \<Rightarrow> u64 \<Rightarrow> nat \<Rightarrow> nat option" where
  "cmp_shift_words m p q alignment w1 0 = Some q"
| "cmp_shift_words m p q alignment w1 (Suc n) =
     (let w2 = load64 m p in
      if (drop_bit (8 * (8 - alignment)) w1 OR push_bit (8 * alignment) w2) - load64 m q \<noteq> 0 then None
      else cmp_shift_words m (p + 8) (q + 8) alignment w2 n)"

definition runtime_memcmp :: "mem \<Rightarrow> nat \<Rightarrow> nat \<Rightarrow> nat \<Rightarrow> int" where
  "runtime_memcmp m a b len =
     (if len < 8 then memcmp_8 m a b len
      else
        let a_cnt = align_cnt a;
            b_cnt = align_cnt b;
            res = (if b_cnt = 0 then 0 else memcmp_8 m a b b_cnt)
        in if res \<noteq> 0 then res
           else
             let long_len = (len - b_cnt) div 8;
                 end_len = (len - b_cnt) mod 8;
                 p_long_a = (if a_cnt > b_cnt then a + a_cnt - 8 else a + a_cnt);
                 p_long_b = b + b_cnt
             in case (if a_cnt = b_cnt then cmp_words m p_long_a p_long_b long_len
                      else cmp_shift_words m (p_long_a + 8) p_long_b ((a_cnt + 8 - b_cnt) mod 8)
                             (load64 m p_long_a) long_len) of
                  None \<Rightarrow> 1
                | Some p_long_b' \<Rightarrow> memcmp_8 m (a + len - end_len) p_long_b' end_len)"

text \<open>The bytes are read as signed characters and compared with an \<^verbatim>\<open>int\<close>.\<close>

fun runtime_memchr :: "mem \<Rightarrow> nat \<Rightarrow> int \<Rightarrow> nat \<Rightarrow> nat option" where
  "runtime_memchr m p c 0 = None"
| "runtime_memchr m p c (Suc len) = (if sint (m p) = c then Some p else runtime_memchr m (p + 1) c len)"

section \<open>Bytes of words\<close>

lemma u8_bit_beyond: "8 \<le> j \<Longrightarrow> \<not> bit (w :: u8) j"
  using bit_imp_le_length [of w j] by auto

lemma bit_load64_byte:
  assumes "q < 8" "r < 8"
  shows "bit (load64 m a) (8 * q + r) = bit (m (a + q)) r"
proof -
  have "q \<in> {0, 1, 2, 3, 4, 5, 6, 7}" using assms(1) by auto
  then show ?thesis using assms(2)
    by (elim insertE emptyE) (simp_all add: load64_def bit_simps u8_bit_beyond)
qed

lemma bit_load64: "n < 64 \<Longrightarrow> bit (load64 m a) n = bit (m (a + n div 8)) (n mod 8)"
  using bit_load64_byte [of "n div 8" "n mod 8" m a] by simp

lemma byte_load64: "i < 8 \<Longrightarrow> ucast (drop_bit (8 * i) (load64 m s)) = m (s + i)"
proof (rule bit_eqI)
  fix n assume i: "i < 8" and "possible_bit TYPE(8 word) n"
  then have "n < 8" by simp
  then show "bit (ucast (drop_bit (8 * i) (load64 m s)) :: u8) n = bit (m (s + i)) n"
    using bit_load64_byte [OF i, of n m s] by (simp add: bit_simps)
qed

lemma store_load: "store64 m d (load64 m' s) = (\<lambda>x. if d \<le> x \<and> x < d + 8 then m' (s + (x - d)) else m x)"
proof
  fix x
  show "store64 m d (load64 m' s) x = (if d \<le> x \<and> x < d + 8 then m' (s + (x - d)) else m x)"
    using byte_load64 [of "x - d" m' s] by (auto simp: store64_def)
qed

text \<open>The two neighbouring words shifted together are the word at the unaligned address.\<close>

lemma load64_shift:
  assumes "0 < t" "t < 8"
  shows "drop_bit (8 * t) (load64 m A) OR push_bit (8 * (8 - t)) (load64 m (A + 8)) = load64 m (A + t)"
proof (rule bit_eqI)
  fix n assume "possible_bit TYPE(64 word) n"
  then have n: "n < 64" by simp
  show "bit (drop_bit (8 * t) (load64 m A) OR push_bit (8 * (8 - t)) (load64 m (A + 8))) n =
      bit (load64 m (A + t)) n"
  proof (cases "n + 8 * t < 64")
    case True
    then have "\<not> 8 * (8 - t) \<le> n" using assms by arith
    moreover have "bit (load64 m A) (8 * t + n) = bit (m (A + t + n div 8)) (n mod 8)"
      using bit_load64 [of "8 * t + n" m A] True by (simp add: add.assoc)
    ultimately show ?thesis using bit_load64 [OF n, of m "A + t"]
      by (simp add: bit_simps add.commute)
  next
    case False
    define k where "k = n - 8 * (8 - t)"
    have k: "n = 8 * (8 - t) + k" "k < 64" using False assms n by (auto simp: k_def)
    have "\<not> bit (load64 m A) (8 * t + n)"
      using bit_imp_le_length [of "load64 m A" "8 * t + n"] False by auto
    moreover have "A + t + n div 8 = A + 8 + k div 8" using k(1) assms by simp
    moreover have "n mod 8 = k mod 8" using k(1) by simp
    ultimately show ?thesis using bit_load64 [OF n, of m "A + t"] bit_load64 [OF k(2), of m "A + 8"] k n
      by (simp add: bit_simps ac_simps)
  qed
qed

section \<open>Copying\<close>

text \<open>The reference: all bytes are read before any is written.\<close>

definition memmove :: "mem \<Rightarrow> nat \<Rightarrow> nat \<Rightarrow> nat \<Rightarrow> mem" where
  "memmove m a b len = (\<lambda>x. if a \<le> x \<and> x < a + len then m (b + (x - a)) else m x)"

lemma memmove_0 [simp]: "memmove m a b 0 = m"
  by (auto simp: memmove_def fun_eq_iff)

lemma memmove_Suc: "(memmove m a b i)(a + i := m (b + i)) = memmove m a b (Suc i)"
  by (auto simp: memmove_def fun_eq_iff)

lemma memmove_same: "a + k \<le> x \<Longrightarrow> memmove m a b k x = m x"
  by (simp add: memmove_def)

lemma load64_cong: "(\<And>i. i < 8 \<Longrightarrow> m (s + i) = m' (s + i)) \<Longrightarrow> load64 m s = load64 m' s"
  by (rule bit_eqI) (simp add: bit_load64)

lemma load64_memmove: "a + k \<le> s \<Longrightarrow> load64 (memmove m a b k) s = load64 m s"
  by (rule load64_cong) (simp add: memmove_same)

lemma store_memmove:
  "store64 (memmove m a b k) (a + k) (load64 m (b + k)) = memmove m a b (k + 8)"
  by (auto simp: store_load memmove_def fun_eq_iff)

lemma memcpyf_from_shift: "memcpyf_from m (a + k) (b + k) i n = memcpyf_from m a b (k + i) n"
  by (induction n arbitrary: m i) (simp_all add: add.assoc)

lemma memcpyf_memmove:
  assumes "a < b"
  shows "memcpyf_from (memmove m a b i) a b i n = memmove m a b (i + n)"
proof (induction n arbitrary: i)
  case (Suc n)
  have "memmove m a b i (b + i) = m (b + i)" using assms by (intro memmove_same) simp
  then show ?case using Suc.IH [of "Suc i"] by (simp add: memmove_Suc)
qed simp

lemma copy_words_memmove:
  assumes "a < b"
  shows "copy_words_f (memmove m a b k) (a + k) (b + k) n = (memmove m a b (k + 8 * n), a + k + 8 * n)"
proof (induction n arbitrary: k)
  case (Suc n)
  have "load64 (memmove m a b k) (b + k) = load64 m (b + k)" using assms by (intro load64_memmove) simp
  then show ?case using Suc.IH [of "k + 8"] by (simp add: store_memmove add.assoc)
qed simp

lemma shift_words_memmove:
  assumes "a < b" "(b + k) mod 8 = t" "0 < t"
  shows "shift_words_f (memmove m a b k) (a + k) (b + k - t + 8) (8 - t) (load64 m (b + k - t)) n =
    (memmove m a b (k + 8 * n), a + k + 8 * n)"
  using assms(2)
proof (induction n arbitrary: k)
  case (Suc n)
  have t: "t < 8" "t \<le> b + k" using Suc.prems by auto
  have w2: "load64 (memmove m a b k) (b + k - t + 8) = load64 m (b + k - t + 8)"
    using assms(1) t by (intro load64_memmove) simp
  have "8 - (8 - t) = t" using t by simp
  then have w: "drop_bit (8 * (8 - (8 - t))) (load64 m (b + k - t)) OR
      push_bit (8 * (8 - t)) (load64 m (b + k - t + 8)) = load64 m (b + k)"
    using load64_shift [OF assms(3) t(1), of m "b + k - t"] t(2) by simp
  have "b + k - t + 8 = b + (k + 8) - t" "(b + (k + 8)) mod 8 = t"
    using Suc.prems t by (simp_all add: add.assoc [symmetric])
  then show ?case using Suc.IH [of "k + 8"]
    unfolding shift_words_f.simps Let_def w2 w store_memmove by (simp add: add.assoc)
qed simp

lemma align_cnt_simps:
  "align_cnt (8 * q) = 0" "0 < r \<Longrightarrow> r < 8 \<Longrightarrow> align_cnt (8 * q + r) = 8 - r"
  by (simp_all add: align_cnt_def Let_def)

lemma word_parts:
  fixes a :: nat
  obtains q r where "a = 8 * q + r" "r < 8"
  by (rule that [of "a div 8" "a mod 8"]) simp_all

lemma mod8_once:
  fixes x :: nat
  assumes "x < 16"
  shows "x mod 8 = (if x < 8 then x else x - 8)"
  using assms by (simp add: le_mod_geq)

lemma align_cnt: "align_cnt a < 8" "(a + align_cnt a) mod 8 = 0"
proof -
  obtain q r where a: "a = 8 * q + r" "r < 8" by (rule word_parts)
  have "a + align_cnt a = 8 * (if r = 0 then q else q + 1)"
    using a by (auto simp: align_cnt_def Let_def)
  then show "(a + align_cnt a) mod 8 = 0" by simp
  show "align_cnt a < 8" using a by (simp add: align_cnt_def Let_def)
qed

lemma align_shift:
  assumes "align_cnt b \<noteq> align_cnt a"
  defines "t \<equiv> (b + align_cnt a) mod 8"
  shows "0 < t" "(align_cnt b + 8 - align_cnt a) mod 8 = 8 - t"
    and "(if align_cnt b > align_cnt a then b + align_cnt b - 8 else b + align_cnt b) = b + align_cnt a - t"
proof -
  obtain q r where a: "a = 8 * q + r" "r < 8" by (rule word_parts)
  obtain q' r' where b: "b = 8 * q' + r'" "r' < 8" by (rule word_parts)
  define k where "k = (if r = 0 then 0 else 8 - r)"
  define l where "l = (if r' = 0 then 0 else 8 - r')"
  have k: "align_cnt a = k" "align_cnt b = l" using a b by (auto simp: k_def l_def align_cnt_def Let_def)
  have ne: "l \<noteq> k" using assms(1) unfolding k .
  have lk: "l < 8" "k < 8" by (simp_all add: k_def l_def)
  have t: "t = (if r' + k < 8 then r' + k else r' + k - 8)"
    using b(2) lk(2) unfolding t_def k(1) b(1) by (simp add: add.assoc mod8_once)
  have al: "(l + 8 - k) mod 8 = (if l < k then l + 8 - k else l - k)"
    using lk mod8_once [of "l + 8 - k"] by simp
  have "0 < t \<and> (if l < k then l + 8 - k else l - k) = 8 - t \<and>
      (if l > k then b + l - 8 else b + l) = b + k - t"
    using ne t b a(2) unfolding k_def l_def by (cases "r = 0"; cases "r' = 0") (auto split: if_splits)
  then have "0 < t \<and> (l + 8 - k) mod 8 = 8 - t \<and> (if l > k then b + l - 8 else b + l) = b + k - t"
    unfolding al .
  then show "0 < t" "(align_cnt b + 8 - align_cnt a) mod 8 = 8 - t"
    "(if align_cnt b > align_cnt a then b + align_cnt b - 8 else b + align_cnt b) = b + align_cnt a - t"
    unfolding k by simp_all
qed

text \<open>The multiple of the word size at or below an address, seen from a lower aligned address.\<close>

lemma aligned_below:
  assumes "x mod 8 = 0" "x \<le> (y :: nat)"
  shows "x \<le> y - y mod 8"
proof -
  have "8 * (x div 8) \<le> 8 * (y div 8)" using assms(2) by (simp add: div_le_mono)
  then show ?thesis using assms(1) by (simp add: minus_mod_eq_mult_div [symmetric] mult.commute)
qed

lemma align_same:
  assumes "align_cnt b = align_cnt a"
  shows "(if align_cnt b > align_cnt a then b + align_cnt b - 8 else b + align_cnt b) = b + align_cnt a"
  using assms by simp

lemma memcpy_forward_correct:
  assumes "a < b"
  shows "memcpy_forward m a b len = memmove m a b len"
proof (cases "len < 8")
  case True
  then show ?thesis using memcpyf_memmove [OF assms, of m 0 len] by (simp add: memcpy_forward_def memcpyf_8_def)
next
  case False
  define k n e where "k = align_cnt a" and "n = (len - k) div 8" and "e = (len - k) mod 8"
  have k: "k < 8" "(a + k) mod 8 = 0" unfolding k_def by (rule align_cnt)+
  have len: "len = k + 8 * n + e" using False k(1) by (simp add: n_def e_def)
  have head: "(if k = 0 then m else memcpyf_8 m a b k) = memmove m a b k"
    using memcpyf_memmove [OF assms, of m 0 k] by (simp add: memcpyf_8_def)
  let ?p = "if align_cnt b > k then b + align_cnt b - 8 else b + align_cnt b"
  have mid: "(if align_cnt b = k then copy_words_f (memmove m a b k) (a + k) ?p n
      else shift_words_f (memmove m a b k) (a + k) (?p + 8) ((align_cnt b + 8 - k) mod 8)
        (load64 (memmove m a b k) ?p) n) = (memmove m a b (k + 8 * n), a + k + 8 * n)"
  proof (cases "align_cnt b = k")
    case True
    then show ?thesis using copy_words_memmove [OF assms, of m k n] by simp
  next
    case False
    define t where "t = (b + k) mod 8"
    have t: "0 < t" "(align_cnt b + 8 - k) mod 8 = 8 - t" "?p = b + k - t"
      using align_shift [of b a] False unfolding k_def t_def by simp_all
    have "a + k \<le> b + k - t" unfolding t_def using assms k(2) by (intro aligned_below) auto
    then have "load64 (memmove m a b k) ?p = load64 m (b + k - t)" unfolding t(3) by (rule load64_memmove)
    then show ?thesis using shift_words_memmove [OF assms t_def [symmetric] t(1), of m n] t(2,3) False by simp
  qed
  have "memcpyf_8 (memmove m a b (k + 8 * n)) (a + k + 8 * n) (b + len - e) e = memmove m a b len"
    using memcpyf_memmove [OF assms, of m "k + 8 * n" e] len
      memcpyf_from_shift [of "memmove m a b (k + 8 * n)" a "k + 8 * n" b 0 e]
    by (simp add: memcpyf_8_def add.assoc)
  then show ?thesis
    unfolding memcpy_forward_def Let_def k_def [symmetric] n_def [symmetric] e_def [symmetric]
    by (simp only: False if_False head mid prod.case)
qed

text \<open>Backward: the bytes from \<open>r\<close> to \<open>len\<close> have been copied.\<close>

definition moved_from :: "mem \<Rightarrow> nat \<Rightarrow> nat \<Rightarrow> nat \<Rightarrow> nat \<Rightarrow> mem" where
  "moved_from m a b len r = (\<lambda>x. if a + r \<le> x \<and> x < a + len then m (b + (x - a)) else m x)"

lemma moved_from_all [simp]: "moved_from m a b len len = m"
  by (auto simp: moved_from_def fun_eq_iff)

lemma moved_from_0: "moved_from m a b len 0 = memmove m a b len"
  by (simp add: moved_from_def memmove_def)

lemma moved_from_same: "x < a + r \<Longrightarrow> moved_from m a b len r x = m x"
  by (simp add: moved_from_def)

lemma load64_moved_from: "s + 8 \<le> a + r \<Longrightarrow> load64 (moved_from m a b len r) s = load64 m s"
  by (rule load64_cong) (simp add: moved_from_same)

lemma store_moved_from:
  "r + 8 \<le> len \<Longrightarrow> store64 (moved_from m a b len (r + 8)) (a + r) (load64 m (b + r)) = moved_from m a b len r"
  by (auto simp: store_load moved_from_def fun_eq_iff)

lemma memcpyb_moved_from:
  assumes "b \<le> a" "c + n \<le> len"
  shows "memcpyb_8 (moved_from m a b len (c + n)) (a + c) (b + c) n = moved_from m a b len c"
  using assms(2)
proof (induction n)
  case (Suc n)
  have "moved_from m a b len (c + Suc n) (b + c + n) = m (b + c + n)"
    using assms(1) by (intro moved_from_same) simp
  moreover have "(moved_from m a b len (c + Suc n))(a + c + n := m (b + c + n)) = moved_from m a b len (c + n)"
    using Suc.prems by (auto simp: moved_from_def fun_eq_iff add.assoc)
  ultimately show ?case using Suc by simp
qed simp

lemma copy_words_moved_from:
  assumes "b \<le> a" "c + 8 * n \<le> len"
  shows "copy_words_b (moved_from m a b len (c + 8 * n)) (a + (c + 8 * n) - 8) (b + (c + 8 * n) - 8) n =
    moved_from m a b len c"
  using assms(2)
proof (induction n)
  case (Suc n)
  have "load64 (moved_from m a b len (c + 8 * n + 8)) (b + (c + 8 * n)) = load64 m (b + (c + 8 * n))"
    using assms(1) by (intro load64_moved_from) simp
  moreover have "store64 (moved_from m a b len (c + 8 * n + 8)) (a + (c + 8 * n)) (load64 m (b + (c + 8 * n))) =
      moved_from m a b len (c + 8 * n)"
    using Suc.prems by (intro store_moved_from) simp
  moreover have "c + 8 * Suc n = c + 8 * n + 8" "a + (c + 8 * n + 8) - 8 = a + (c + 8 * n)"
    "b + (c + 8 * n + 8) - 8 = b + (c + 8 * n)" by simp_all
  moreover have "c + 8 * n \<le> len" using Suc.prems by simp
  ultimately show ?case using Suc.IH by (simp only: copy_words_b.simps)
qed simp

lemma shift_words_moved_from:
  assumes "b \<le> a" "(b + c) mod 8 = t" "0 < t" "c + 8 * n \<le> len"
  shows "shift_words_b (moved_from m a b len (c + 8 * n)) (a + (c + 8 * n) - 8) (b + (c + 8 * n) - t - 8) t
    (load64 m (b + (c + 8 * n) - t)) n = moved_from m a b len c"
  using assms(4)
proof (induction n)
  case (Suc n)
  let ?k = "c + 8 * n"
  have t: "t < 8" "t \<le> b + ?k" using assms(2) mod_less_eq_dividend [of "b + c" 8] by auto
  have w2: "load64 (moved_from m a b len (?k + 8)) (b + ?k - t) = load64 m (b + ?k - t)"
    using assms(1) t by (intro load64_moved_from) simp
  have eq: "c + 8 * Suc n = ?k + 8" "a + (?k + 8) - 8 = a + ?k" "b + (?k + 8) - t - 8 = b + ?k - t"
    "b + (?k + 8) - t = b + ?k - t + 8" using t by simp_all
  have w: "push_bit (8 * (8 - t)) (load64 m (b + ?k - t + 8)) OR drop_bit (8 * t) (load64 m (b + ?k - t)) =
      load64 m (b + ?k)"
    using load64_shift [OF assms(3) t(1), of m "b + ?k - t"] t(2) by (simp add: or.commute)
  have st: "store64 (moved_from m a b len (?k + 8)) (a + ?k) (load64 m (b + ?k)) = moved_from m a b len ?k"
    using Suc.prems by (intro store_moved_from) simp
  have "c + 8 * n \<le> len" using Suc.prems by simp
  then show ?case using Suc.IH by (simp only: shift_words_b.simps Let_def eq add_diff_cancel_right' w2 w st)
qed simp

lemma backward_shift:
  fixes a b len :: nat
  assumes "(b + len) mod 8 \<noteq> (a + len) mod 8" "k = (a + len) mod 8" "k \<le> len"
  defines "t \<equiv> (b + (len - k)) mod 8"
  shows "0 < t" "((b + len) mod 8 + 8 - k) mod 8 = t"
    and "(if (b + len) mod 8 \<le> k then b + len - (b + len) mod 8 - 8 else b + len - (b + len) mod 8) =
      b + (len - k) - t"
proof -
  obtain q r where b: "b + len = 8 * q + r" "r < 8" by (rule word_parts)
  have k: "k < 8" "k \<noteq> r" using assms(1,2) b by auto
  have "b + (len - k) = 8 * q + r - k" using b(1) assms(3) by simp
  moreover have "8 * q + r - k = (if k < r then 8 * q + (r - k) else 8 * (q - 1) + (8 + r - k))"
    using k b assms(3) by (cases q) auto
  moreover have "q \<noteq> 0" if "\<not> k < r" using that k b(1) assms(3) by (cases q) auto
  ultimately have bk: "b + (len - k) = (if k < r then 8 * q + (r - k) else 8 * (q - 1) + (8 + r - k))"
    and q: "\<not> k < r \<Longrightarrow> q \<noteq> 0" by simp_all
  then have t: "t = (if k < r then r - k else 8 + r - k)"
    using k b(2) unfolding t_def bk by (simp del: add_diff_assoc)
  show "0 < t" using t k by auto
  show "((b + len) mod 8 + 8 - k) mod 8 = t" using b k t mod8_once [of "r + 8 - k"] by auto
  show "(if (b + len) mod 8 \<le> k then b + len - (b + len) mod 8 - 8 else b + len - (b + len) mod 8) =
      b + (len - k) - t"
    using b k t bk q by (auto simp: algebra_simps)
qed

lemma memcpy_backward_correct:
  assumes "b \<le> a"
  shows "memcpy_backward m a b len = memmove m a b len"
proof (cases "len < 8")
  case True
  then show ?thesis using memcpyb_moved_from [OF assms, of 0 len len m]
    by (simp add: memcpy_backward_def moved_from_0)
next
  case False
  define k where "k = (a + len) mod 8"
  define n e where "n = (len - k) div 8" and "e = (len - k) mod 8"
  have k: "k < 8" "k \<le> len" using False by (auto simp: k_def)
  have len: "len - k = e + 8 * n" by (simp add: n_def e_def)
  have lk: "e + 8 * n + k = len" using len k by simp
  have al: "a + len - k = a + (len - k)" "b + len - k = b + (len - k)" using k by simp_all
  have head: "memcpyb_8 m (a + (len - k)) (b + (len - k)) k = moved_from m a b len (e + 8 * n)"
    using memcpyb_moved_from [OF assms, of "len - k" k len m] k lk by (simp add: len)
  let ?sc = "(b + len) mod 8"
  let ?p = "if ?sc \<le> k then b + len - ?sc - 8 else b + len - ?sc"
  let ?m = "moved_from m a b len (e + 8 * n)"
  have mid: "(if ?sc = k then copy_words_b ?m (a + (len - k) - 8) ?p n
      else shift_words_b ?m (a + (len - k) - 8) (?p - 8) ((?sc + 8 - k) mod 8) (load64 ?m ?p) n) =
    moved_from m a b len e"
  proof (cases "?sc = k")
    case True
    have "?p = b + (e + 8 * n) - 8" using True k len by simp
    then show ?thesis using True copy_words_moved_from [OF assms, of e n len m] len k by simp
  next
    case False
    define t where "t = (b + (len - k)) mod 8"
    have t: "0 < t" "(?sc + 8 - k) mod 8 = t" "?p = b + (e + 8 * n) - t"
      using backward_shift [OF False [unfolded k_def] k_def] k(2) len unfolding t_def k_def by simp_all
    have "(b + e) mod 8 = t" unfolding t_def len by (simp add: add.assoc [symmetric])
    have "b + (e + 8 * n) - t + 8 \<le> a + (e + 8 * n)"
    proof -
      obtain q where q: "a + len = 8 * q + k" using k_def mult_div_mod_eq [of 8 "a + len"] by metis
      obtain q' where q': "b + (len - k) = 8 * q' + t" using t_def mult_div_mod_eq [of 8 "b + (len - k)"] by metis
      have "8 * q' + t \<le> 8 * q" using q q' assms k by linarith
      then have "q' < q" using t(1) by linarith
      then show ?thesis using q q' k len by linarith
    qed
    then have "load64 ?m ?p = load64 m (b + (e + 8 * n) - t)" unfolding t(3) by (rule load64_moved_from)
    then show ?thesis using False shift_words_moved_from [OF assms \<open>(b + e) mod 8 = t\<close> t(1), of n len m] t(2,3) len lk
      by simp
  qed
  have "memcpyb_8 (moved_from m a b len e) a b e = memmove m a b len"
    using memcpyb_moved_from [OF assms, of 0 e len m] len k by (simp add: moved_from_0)
  then show ?thesis
    unfolding memcpy_backward_def Let_def k_def [symmetric] n_def [symmetric] e_def [symmetric] al
    by (simp only: False if_False head mid)
qed

section \<open>Filling\<close>

definition memfill :: "mem \<Rightarrow> nat \<Rightarrow> u8 \<Rightarrow> nat \<Rightarrow> mem" where
  "memfill m a b len = (\<lambda>x. if a \<le> x \<and> x < a + len then b else m x)"

lemma memfill_0 [simp]: "memfill m a b 0 = m"
  by (auto simp: memfill_def fun_eq_iff)

lemma memset_from_memfill: "memset_from (memfill m a b i) a b i n = memfill m a b (i + n)"
proof (induction n arbitrary: i)
  case (Suc n)
  have "(memfill m a b i)(a + i := b) = memfill m a b (Suc i)" by (auto simp: memfill_def fun_eq_iff)
  then show ?case using Suc.IH [of "Suc i"] by simp
qed simp

lemma memset_from_shift: "memset_from m (a + k) b i n = memset_from m a b (k + i) n"
  by (induction n arbitrary: m i) (simp_all add: add.assoc)

lemma bit_fill_word:
  "j < 64 \<Longrightarrow> bit (fill_word b n w) j = (if j < 8 * n then bit b (j mod 8) else bit w (j - 8 * n))"
proof (induction n arbitrary: w)
  case (Suc n)
  define k where "k = j - 8 * n"
  have step: "bit (push_bit 8 w OR ucast b :: u64) k = (if k < 8 then bit b k else bit w (k - 8))"
    using Suc.prems by (auto simp: bit_simps k_def u8_bit_beyond)
  have "k < 8 \<longleftrightarrow> j < 8 * Suc n" "k - 8 = j - 8 * Suc n" by (auto simp: k_def)
  moreover have "bit b k = bit b (j mod 8)" if "\<not> j < 8 * n" "k < 8"
  proof -
    have "j = 8 * n + k" using that by (simp add: k_def)
    then show ?thesis using that by simp
  qed
  ultimately show ?case using Suc.IH [OF Suc.prems, of "push_bit 8 w OR ucast b"] step
    by (auto simp: k_def [symmetric])
qed simp

lemma fill_word_byte:
  assumes "i < 8"
  shows "ucast (drop_bit (8 * i) (fill_word b 8 0)) = b"
proof (rule bit_eqI)
  fix n assume "possible_bit TYPE(8 word) n"
  then have n: "n < 8" by simp
  then have "8 * i + n < 64" using assms by simp
  then show "bit (ucast (drop_bit (8 * i) (fill_word b 8 0)) :: u8) n = bit b n"
    using bit_fill_word [of "8 * i + n" b 8 0] n by (simp add: bit_simps del: fill_word.simps)
qed

lemma set_words_memfill:
  "set_words (memfill m a b k) (a + k) (fill_word b 8 0) n = (memfill m a b (k + 8 * n), a + k + 8 * n)"
proof (induction n arbitrary: k)
  case (Suc n)
  have "store64 (memfill m a b k) (a + k) (fill_word b 8 0) = memfill m a b (k + 8)"
    by (auto simp: store64_def memfill_def fun_eq_iff fill_word_byte)
  then show ?case using Suc.IH [of "k + 8"] by (simp add: add.assoc del: fill_word.simps)
qed simp

lemma runtime_memset_memfill: "runtime_memset m a b len = memfill m a b len"
proof (cases "len < 8")
  case True
  then show ?thesis using memset_from_memfill [of m a b 0 len] by (simp add: runtime_memset_def memset_8_def)
next
  case False
  define k n e where "k = align_cnt a" and "n = (len - k) div 8" and "e = (len - k) mod 8"
  have k: "k < 8" unfolding k_def by (rule align_cnt)
  have len: "len = k + 8 * n + e" using False k by (simp add: n_def e_def)
  have head: "(if k = 0 then m else memset_8 m a b k) = memfill m a b k"
    using memset_from_memfill [of m a b 0 k] by (simp add: memset_8_def)
  have rest: "(if k = 0 then len else len - k) = len - k" by simp
  have "memset_8 (memfill m a b (k + 8 * n)) (a + k + 8 * n) b e = memfill m a b len"
    using memset_from_memfill [of m a b "k + 8 * n" e] len
      memset_from_shift [of "memfill m a b (k + 8 * n)" a "k + 8 * n" b 0 e]
    by (simp add: memset_8_def add.assoc)
  then show ?thesis
    unfolding runtime_memset_def Let_def k_def [symmetric] rest n_def [symmetric] e_def [symmetric]
    by (simp only: False if_False head set_words_memfill prod.case)
qed

section \<open>Comparing\<close>

definition mem_equal :: "mem \<Rightarrow> nat \<Rightarrow> nat \<Rightarrow> nat \<Rightarrow> bool" where
  "mem_equal m a b len \<longleftrightarrow> (\<forall>i < len. m (a + i) = m (b + i))"

lemma mem_equal_add: "mem_equal m a b (k + n) \<longleftrightarrow> mem_equal m a b k \<and> mem_equal m (a + k) (b + k) n"
proof -
  have "(\<forall>i < k + n. m (a + i) = m (b + i)) \<longleftrightarrow>
      (\<forall>i < k. m (a + i) = m (b + i)) \<and> (\<forall>i < n. m (a + k + i) = m (b + k + i))"
    by (auto simp: add.assoc) (metis add_less_cancel_left le_add_diff_inverse not_less)
  then show ?thesis by (simp add: mem_equal_def)
qed

lemma memcmp_from_equal: "memcmp_from m a b i n = 0 \<longleftrightarrow> mem_equal m (a + i) (b + i) n"
proof (induction n arbitrary: i)
  case (Suc n)
  have "mem_equal m (a + i) (b + i) (Suc n) \<longleftrightarrow> m (a + i) = m (b + i) \<and> mem_equal m (a + Suc i) (b + Suc i) n"
    using mem_equal_add [of m "a + i" "b + i" 1 n] by (simp add: mem_equal_def)
  then show ?case using Suc.IH [of "Suc i"] by (simp add: Let_def word_uint_eq_iff)
qed (simp add: mem_equal_def)

lemma memcmp_8_equal: "memcmp_8 m a b n = 0 \<longleftrightarrow> mem_equal m a b n"
  using memcmp_from_equal [of m a b 0 n] by (simp add: memcmp_8_def)

lemma load64_equal: "load64 m p = load64 m q \<longleftrightarrow> mem_equal m p q 8"
proof
  assume eq: "load64 m p = load64 m q"
  then show "mem_equal m p q 8" unfolding mem_equal_def by (metis byte_load64)
next
  assume eq: "mem_equal m p q 8"
  show "load64 m p = load64 m q"
    using eq by (intro bit_eqI) (simp add: bit_load64 mem_equal_def)
qed

lemma cmp_words_equal:
  "cmp_words m p q n = (if mem_equal m p q (8 * n) then Some (q + 8 * n) else None)"
proof (induction n arbitrary: p q)
  case (Suc n)
  then show ?case using mem_equal_add [of m p q 8 "8 * n"] load64_equal [of m p q] by (simp add: add.assoc)
qed (simp add: mem_equal_def)

lemma cmp_shift_words_equal:
  assumes "p mod 8 = t" "0 < t"
  shows "cmp_shift_words m (p - t + 8) q (8 - t) (load64 m (p - t)) n =
    (if mem_equal m p q (8 * n) then Some (q + 8 * n) else None)"
  using assms(1)
proof (induction n arbitrary: p q)
  case (Suc n)
  have t: "t < 8" "t \<le> p" using Suc.prems by auto
  have "8 - (8 - t) = t" using t by simp
  then have w: "drop_bit (8 * (8 - (8 - t))) (load64 m (p - t)) OR
      push_bit (8 * (8 - t)) (load64 m (p - t + 8)) = load64 m p"
    using load64_shift [OF assms(2) t(1), of m "p - t"] t(2) by simp
  have p: "p - t + 8 = p + 8 - t" "(p + 8) mod 8 = t" using Suc.prems t by simp_all
  have "cmp_shift_words m (p - t + 8) q (8 - t) (load64 m (p - t)) (Suc n) =
      (if load64 m p = load64 m q then cmp_shift_words m (p + 8 - t + 8) (q + 8) (8 - t) (load64 m (p + 8 - t)) n
       else None)"
    unfolding cmp_shift_words.simps Let_def w by (simp add: p(1))
  then show ?case using Suc.IH [OF p(2), of "q + 8"] mem_equal_add [of m p q 8 "8 * n"] load64_equal [of m p q]
    by (simp add: add.assoc)
qed (simp add: mem_equal_def)

lemma runtime_memcmp_equal: "runtime_memcmp m a b len = 0 \<longleftrightarrow> mem_equal m a b len"
proof (cases "len < 8")
  case True
  then show ?thesis by (simp add: runtime_memcmp_def memcmp_8_equal)
next
  case False
  define k n e where "k = align_cnt b" and "n = (len - k) div 8" and "e = (len - k) mod 8"
  have k: "k < 8" unfolding k_def by (rule align_cnt)
  have len: "len = k + 8 * n + e" using False k by (simp add: n_def e_def)
  have head: "(if k = 0 then 0 else memcmp_8 m a b k) = 0 \<longleftrightarrow> mem_equal m a b k"
    by (simp add: memcmp_8_equal mem_equal_def)
  let ?p = "if align_cnt a > k then a + align_cnt a - 8 else a + align_cnt a"
  have mid: "(if align_cnt a = k then cmp_words m ?p (b + k) n
      else cmp_shift_words m (?p + 8) (b + k) ((align_cnt a + 8 - k) mod 8) (load64 m ?p) n) =
    (if mem_equal m (a + k) (b + k) (8 * n) then Some (b + k + 8 * n) else None)"
  proof (cases "align_cnt a = k")
    case True
    then show ?thesis using cmp_words_equal [of m "a + k" "b + k" n] by simp
  next
    case False
    define t where "t = (a + k) mod 8"
    have t: "0 < t" "(align_cnt a + 8 - k) mod 8 = 8 - t" "?p = a + k - t"
      using align_shift [of a b] False unfolding k_def t_def by simp_all
    then show ?thesis using cmp_shift_words_equal [OF t_def [symmetric] t(1), of m "b + k" n] False by simp
  qed
  have tail: "memcmp_8 m (a + len - e) (b + k + 8 * n) e = 0 \<longleftrightarrow> mem_equal m (a + k + 8 * n) (b + k + 8 * n) e"
    using len by (simp add: memcmp_8_equal add.assoc)
  have eq: "mem_equal m a b len \<longleftrightarrow> mem_equal m a b k \<and> mem_equal m (a + k) (b + k) (8 * n) \<and>
      mem_equal m (a + k + 8 * n) (b + k + 8 * n) e"
    unfolding len using mem_equal_add [of m a b "k + 8 * n" e] mem_equal_add [of m a b k "8 * n"]
    by (simp add: add.assoc)
  show ?thesis
    unfolding runtime_memcmp_def Let_def k_def [symmetric] n_def [symmetric] e_def [symmetric] eq
    using False head tail by (simp only: mid) (simp split: option.splits)
qed

section \<open>The contract of the component\<close>

text \<open>
  Property C12. \<^verbatim>\<open>runtime_memcpy\<close>, with its aligned word loops and its two directions, is equal
  to the copy that reads every source byte first, for every alignment, every length and every
  overlap of the two areas.
\<close>

theorem runtime_memcpy_correct: "runtime_memcpy m a b len = memmove m a b len"
  using memcpy_forward_correct [of a b m len] memcpy_backward_correct [of b a m len]
  by (simp add: runtime_memcpy_def)

text \<open>
  Property C13. \<^verbatim>\<open>runtime_memset\<close> writes the byte to the whole area and to nothing else, and
  \<^verbatim>\<open>runtime_memcmp\<close> returns zero exactly when the two areas hold the same bytes.
\<close>

theorem runtime_memset_memcmp_correct:
  "runtime_memset m a b len = memfill m a b len \<and>
   (runtime_memcmp m a' b' len = 0 \<longleftrightarrow> mem_equal m a' b' len)"
  using runtime_memset_memfill runtime_memcmp_equal by blast

end
