(* ===== verification/Bytes.thy ===== *)
theory Bytes
  imports Prelude
begin

text \<open>
  Areas of memory as lists of bytes, with the accesses of the runtime: a block copy out of an
  area (\<open>peek\<close>), into an area (\<open>poke\<close>), and the little- and big-endian representation of
  machine integers in such an area. An access outside of the area gives \<open>None\<close>. The copies
  behave as \<^verbatim>\<open>runtime_memcpy\<close> does by the theorem of the theory on
  \<^verbatim>\<open>memops.c\<close>: all bytes are read before any is written.
\<close>

section \<open>Blocks\<close>

definition peek :: "'a list \<Rightarrow> nat \<Rightarrow> nat \<Rightarrow> 'a list option" where
  "peek xs i n = (if i + n \<le> length xs then Some (take n (drop i xs)) else None)"

definition poke :: "'a list \<Rightarrow> nat \<Rightarrow> 'a list \<Rightarrow> 'a list option" where
  "poke xs i ys =
     (if i + length ys \<le> length xs then Some (take i xs @ ys @ drop (i + length ys) xs) else None)"

lemma peek_length: "peek xs i n = Some ys \<Longrightarrow> length ys = n"
  by (auto simp: peek_def split: if_splits)

lemma poke_length: "poke xs i ys = Some zs \<Longrightarrow> length zs = length xs"
  by (auto simp: poke_def split: if_splits)

lemma take_poke: "poke xs i ys = Some zs \<Longrightarrow> n \<le> i \<Longrightarrow> take n zs = take n xs"
  by (auto simp: poke_def min_absorb1 split: if_splits)

lemma drop_poke: "poke xs i ys = Some zs \<Longrightarrow> i + length ys \<le> n \<Longrightarrow> drop n zs = drop n xs"
  by (auto simp: poke_def min_def split: if_splits)

lemma slice_poke:
  assumes "poke xs e ys = Some zs" "s \<le> e"
  shows "take (e + length ys - s) (drop s zs) = take (e - s) (drop s xs) @ ys"
proof -
  have "e + length ys \<le> length xs" and zs: "zs = take e xs @ ys @ drop (e + length ys) xs"
    using assms(1) by (auto simp: poke_def split: if_splits)
  moreover have "drop s (take e xs) = take (e - s) (drop s xs)" by (simp add: drop_take)
  ultimately show ?thesis using assms(2) by simp
qed

lemma peek_poke: "poke xs i ys = Some zs \<Longrightarrow> peek zs i (length ys) = Some ys"
  by (auto simp: peek_def poke_def split: if_splits)

lemma nth_slice: "i < n \<Longrightarrow> s + n \<le> length xs \<Longrightarrow> take n (drop s xs) ! i = xs ! (s + i)"
  by simp

section \<open>Integers in memory\<close>

fun le_bytes :: "nat \<Rightarrow> 'a::len word \<Rightarrow> u8 list" where
  "le_bytes 0 w = []"
| "le_bytes (Suc n) w = ucast w # le_bytes n (drop_bit 8 w)"

fun le_word :: "u8 list \<Rightarrow> 'a::len word" where
  "le_word [] = 0"
| "le_word (b # bs) = ucast b OR push_bit 8 (le_word bs)"

definition be_bytes :: "nat \<Rightarrow> 'a::len word \<Rightarrow> u8 list" where
  "be_bytes n w = rev (le_bytes n w)"

definition be_word :: "u8 list \<Rightarrow> 'a::len word" where
  "be_word bs = le_word (rev bs)"

lemma length_le_bytes [simp]: "length (le_bytes n w) = n"
  by (induction n arbitrary: w) simp_all

lemma length_be_bytes [simp]: "length (be_bytes n w) = n"
  by (simp add: be_bytes_def)

lemma byte_bit_beyond: "8 \<le> j \<Longrightarrow> \<not> bit (w :: u8) j"
  using bit_imp_le_length [of w j] by auto

lemma bit_le_word:
  "bit (le_word bs :: 'a::len word) j \<longleftrightarrow>
     j < LENGTH('a) \<and> j div 8 < length bs \<and> bit (bs ! (j div 8)) (j mod 8)"
proof (induction bs arbitrary: j)
  case (Cons b bs)
  show ?case
  proof (cases "j < 8")
    case True
    then show ?thesis by (auto simp: bit_simps)
  next
    case False
    then have "j div 8 = Suc ((j - 8) div 8)" "j mod 8 = (j - 8) mod 8"
      by (simp_all add: le_div_geq le_mod_geq)
    then show ?thesis using False Cons.IH [of "j - 8"] by (auto simp: bit_simps byte_bit_beyond)
  qed
qed simp

lemma bit_le_bytes:
  "i < n \<Longrightarrow> bit (le_bytes n w ! i) j \<longleftrightarrow> j < 8 \<and> bit w (8 * i + j)"
proof (induction n arbitrary: w i)
  case (Suc n)
  show ?case
  proof (cases i)
    case 0
    then show ?thesis by (auto simp: bit_simps)
  next
    case (Suc k)
    then show ?thesis using Suc.IH [of k "drop_bit 8 w"] Suc.prems by (simp add: bit_simps add.assoc)
  qed
qed simp

lemma le_word_le_bytes [simp]:
  assumes "LENGTH('a) \<le> 8 * n"
  shows "le_word (le_bytes n w) = (w :: 'a::len word)"
proof (rule bit_eqI)
  fix j assume "possible_bit TYPE('a word) j"
  then have j: "j < LENGTH('a)" by simp
  then have "j div 8 < n" using assms by auto
  then show "bit (le_word (le_bytes n w) :: 'a word) j = bit w j"
    using j by (simp add: bit_le_word bit_le_bytes)
qed

lemma le_bytes_le_word [simp]:
  assumes "8 * length bs \<le> LENGTH('a::len)"
  shows "le_bytes (length bs) (le_word bs :: 'a word) = bs"
proof (rule nth_equalityI)
  fix i assume "i < length (le_bytes (length bs) (le_word bs :: 'a word))"
  then have i: "i < length bs" by simp
  show "le_bytes (length bs) (le_word bs :: 'a word) ! i = bs ! i"
  proof (rule bit_eqI)
    fix j assume "possible_bit TYPE(8 word) j"
    then have "j < 8" by simp
    moreover have "8 * i + j < LENGTH('a)" using \<open>j < 8\<close> i assms by linarith
    ultimately show "bit (le_bytes (length bs) (le_word bs :: 'a word) ! i) j = bit (bs ! i) j"
      using i by (simp add: bit_le_bytes bit_le_word)
  qed
qed simp

lemma be_word_be_bytes [simp]:
  "LENGTH('a) \<le> 8 * n \<Longrightarrow> be_word (be_bytes n w) = (w :: 'a::len word)"
  by (simp add: be_word_def be_bytes_def)

end
