(* ===== verification/Buffer.thy ===== *)
theory Buffer
  imports Memops Bytes
begin

text \<open>
  The byte buffers of \<^verbatim>\<open>kernel/src/runtime/buffer.h\<close> and \<^verbatim>\<open>buffer.c\<close>: a window
  \<open>b_start .. b_end\<close> of an allocated area of \<open>b_length\<close> bytes, which is written at its end
  and read at its start. Offsets are 64-bit words, so every sum wraps as it does in the code.
  A heap is a function from the size of a request to the fresh area or to
  \<^verbatim>\<open>INVALID_ADDRESS\<close>; releasing memory has no effect on the model. \<open>None\<close> as the result
  of an operation stands for a failed assertion or for an access outside of the area.
\<close>

section \<open>State\<close>

type_synonym heap = "u64 \<Rightarrow> u8 list option"

record buffer =
  b_start :: u64
  b_end :: u64
  b_length :: u64
  b_wrapped :: bool
  b_h :: heap
  b_contents :: "u8 list"

definition init_buffer :: "u64 \<Rightarrow> bool \<Rightarrow> heap \<Rightarrow> u8 list \<Rightarrow> buffer" where
  "init_buffer s wrapped h contents =
     \<lparr>b_start = 0, b_end = 0, b_length = s, b_wrapped = wrapped, b_h = h, b_contents = contents\<rparr>"

text \<open>A pointer into the area of a buffer is its offset from \<open>b_contents\<close>.\<close>

definition buffer_ref :: "buffer \<Rightarrow> u64 \<Rightarrow> u64 option" where
  "buffer_ref b offset =
     do { assert_ok (b_start b + offset \<le> b_length b); Some (b_start b + offset) }"

definition buffer_length :: "buffer \<Rightarrow> u64" where
  "buffer_length b = b_end b - b_start b"

definition load_byte :: "u8 list \<Rightarrow> nat \<Rightarrow> u8 option" where
  "load_byte xs i = (if i < length xs then Some (xs ! i) else None)"

definition peek_char :: "buffer \<Rightarrow> u8 option" where
  "peek_char b = do { p \<leftarrow> buffer_ref b 0; load_byte (b_contents b) (unat p) }"

definition alloca_wrap_buffer :: "heap \<Rightarrow> u8 list \<Rightarrow> u64 \<Rightarrow> buffer" where
  "alloca_wrap_buffer h contents l =
     \<lparr>b_start = 0, b_end = l, b_length = l, b_wrapped = True, b_h = h, b_contents = contents\<rparr>"

definition alloca_wrap :: "heap \<Rightarrow> buffer \<Rightarrow> buffer option" where
  "alloca_wrap h z =
     do { p \<leftarrow> buffer_ref z 0;
          Some (alloca_wrap_buffer h (drop (unat p) (b_contents z)) (buffer_length z)) }"

definition byte :: "buffer \<Rightarrow> nat \<Rightarrow> u8 option" where
  "byte b i = load_byte (b_contents b) (unat (b_start b) + i)"

definition buffer_to_sstring :: "buffer \<Rightarrow> (u8 list \<times> u64) option" where
  "buffer_to_sstring b =
     do { p \<leftarrow> buffer_ref b 0; Some (drop (unat p) (b_contents b), buffer_length b) }"

definition buffer_to_cstring :: "buffer \<Rightarrow> u8 list option" where
  "buffer_to_cstring b =
     do { p \<leftarrow> buffer_ref b 0;
          str \<leftarrow> peek (b_contents b) (unat p) (unat (buffer_length b));
          Some (str @ [0]) }"

definition buffer_clear :: "buffer \<Rightarrow> buffer" where
  "buffer_clear b = b\<lparr>b_start := 0, b_end := 0\<rparr>"

definition buffer_consume :: "buffer \<Rightarrow> u64 \<Rightarrow> buffer option" where
  "buffer_consume b s =
     do { assert_ok (b_start b + s \<le> b_end b);
          assert_ok (b_end b \<le> b_length b);
          Some (b\<lparr>b_start := b_start b + s\<rparr>) }"

definition buffer_produce :: "buffer \<Rightarrow> u64 \<Rightarrow> buffer option" where
  "buffer_produce b s =
     do { assert_ok (b_start b \<le> b_end b);
          assert_ok (b_end b + s \<le> b_length b);
          Some (b\<lparr>b_end := b_end b + s\<rparr>) }"

definition buffer_space :: "buffer \<Rightarrow> u64" where
  "buffer_space b = b_length b - b_end b"

definition buffer_is_wrapped :: "buffer \<Rightarrow> bool" where
  "buffer_is_wrapped b = b_wrapped b"

section \<open>Capacity\<close>

text \<open>The size of \<^verbatim>\<open>struct buffer\<close> on a 64-bit target.\<close>

definition sizeof_buffer :: u64 where
  "sizeof_buffer = 48"

definition allocate_buffer :: "heap \<Rightarrow> u64 \<Rightarrow> buffer option" where
  "allocate_buffer h s =
     (case h sizeof_buffer of
        None \<Rightarrow> None
      | Some _ \<Rightarrow>
          (if s \<noteq> 0 then
             (case h s of None \<Rightarrow> None | Some contents \<Rightarrow> Some (init_buffer s False h contents))
           else Some (init_buffer s False h [])))"

definition buffer_set_capacity :: "buffer \<Rightarrow> u64 \<Rightarrow> (u64 \<times> buffer) option" where
  "buffer_set_capacity b len0 =
     (let old_len = b_length b in
      if buffer_is_wrapped b then Some (old_len, b)
      else
        let content_len = b_end b - b_start b;
            len = (if len0 < content_len then content_len else len0)
        in if len \<noteq> old_len then
             (case b_h b len of
                None \<Rightarrow> Some (old_len, b)
              | Some new \<Rightarrow> do {
                  new' \<leftarrow> (if old_len \<noteq> 0 then do {
                              c \<leftarrow> peek (b_contents b) (unat (b_start b)) (unat content_len);
                              poke new 0 c }
                            else Some new);
                  Some (len, b\<lparr>b_length := len, b_end := content_len, b_start := 0, b_contents := new'\<rparr>) })
           else Some (len, b))"

definition buffer_extend :: "buffer \<Rightarrow> u64 \<Rightarrow> (bool \<times> buffer) option" where
  "buffer_extend b len =
     (if b_length b < b_end b + len then
        let new_len = 2 * (b_end b - b_start b + len) in
        if new_len > b_length b then do {
          (cap, b') \<leftarrow> buffer_set_capacity b new_len;
          Some (cap = new_len, b') }
        else do {
          c \<leftarrow> peek (b_contents b) (unat (b_start b)) (unat (b_end b - b_start b));
          contents \<leftarrow> poke (b_contents b) 0 c;
          Some (True, b\<lparr>b_contents := contents, b_end := b_end b - b_start b, b_start := 0\<rparr>) }
      else Some (True, b))"

text \<open>\<^verbatim>\<open>zero(contents + end, offset - end)\<close> runs after the extension, which may have moved the window.\<close>

definition extend_total :: "buffer \<Rightarrow> 32 word \<Rightarrow> (bool \<times> buffer) option" where
  "extend_total b offset =
     (let off = (scast offset :: u64) in
      if off > b_end b then do {
        (ok, b') \<leftarrow> buffer_extend b (off - b_end b);
        if \<not> ok then Some (False, b')
        else do {
          contents \<leftarrow> poke (b_contents b') (unat (b_end b')) (replicate (unat (off - b_end b')) 0);
          Some (True, b'\<lparr>b_contents := contents, b_end := off\<rparr>) } }
      else Some (True, b))"

definition wrap_buffer :: "heap \<Rightarrow> u8 list \<Rightarrow> u64 \<Rightarrow> buffer option" where
  "wrap_buffer h body len =
     (case h sizeof_buffer of
        None \<Rightarrow> None
      | Some _ \<Rightarrow>
          Some \<lparr>b_start = 0, b_end = len, b_length = len, b_wrapped = True, b_h = h, b_contents = body\<rparr>)"

section \<open>Reading and writing\<close>

definition buffer_write :: "buffer \<Rightarrow> u8 list \<Rightarrow> (bool \<times> buffer) option" where
  "buffer_write b source =
     (let len = of_nat (length source) in
      do { (ok, b') \<leftarrow> buffer_extend b len;
           if \<not> ok then Some (False, b')
           else do {
             p \<leftarrow> buffer_ref b' (buffer_length b');
             contents \<leftarrow> poke (b_contents b') (unat p) source;
             b'' \<leftarrow> buffer_produce (b'\<lparr>b_contents := contents\<rparr>) len;
             Some (True, b'') } })"

text \<open>\<open>Inl b\<close> is the result \<^verbatim>\<open>false\<close>; \<open>Inr (dest, b)\<close> the bytes copied to the destination.\<close>

definition buffer_read :: "buffer \<Rightarrow> u64 \<Rightarrow> (buffer + u8 list \<times> buffer) option" where
  "buffer_read b len =
     (if buffer_length b < len then Some (Inl b)
      else do {
        p \<leftarrow> buffer_ref b 0;
        dest \<leftarrow> peek (b_contents b) (unat p) (unat len);
        b' \<leftarrow> buffer_consume b len;
        Some (Inr (dest, b')) })"

definition buffer_read_at :: "buffer \<Rightarrow> u64 \<Rightarrow> u64 \<Rightarrow> u8 list option" where
  "buffer_read_at b offset len =
     (let available = buffer_length b in
      if available \<le> offset then Some []
      else do {
        p \<leftarrow> buffer_ref b offset;
        peek (b_contents b) (unat p) (unat (min len (available - offset))) })"

definition push_buffer :: "buffer \<Rightarrow> buffer \<Rightarrow> (bool \<times> buffer) option" where
  "push_buffer d s =
     do { p \<leftarrow> buffer_ref s 0;
          source \<leftarrow> peek (b_contents s) (unat p) (unat (buffer_length s));
          buffer_write d source }"

text \<open>The inner \<open>None\<close> is \<^verbatim>\<open>INVALID_ADDRESS\<close>.\<close>

definition clone_buffer :: "heap \<Rightarrow> buffer \<Rightarrow> buffer option option" where
  "clone_buffer h b =
     (case allocate_buffer h (buffer_length b) of
        None \<Rightarrow> Some None
      | Some new \<Rightarrow> do {
          (ok, new') \<leftarrow> push_buffer new b;
          assert_ok ok;
          Some (Some new') })"

definition buffer_append :: "buffer \<Rightarrow> u8 list \<Rightarrow> (bool \<times> buffer) option" where
  "buffer_append b body =
     do { (ok, b') \<leftarrow> buffer_extend b (of_nat (length body));
          if \<not> ok then Some (False, b') else buffer_write b' body }"

text \<open>The result is the block the returned pointer refers to.\<close>

definition buffer_pop :: "buffer \<Rightarrow> u64 \<Rightarrow> (buffer + u8 list \<times> buffer) option" where
  "buffer_pop b len =
     (if buffer_length b < len then Some (Inl b)
      else do {
        p \<leftarrow> buffer_ref b 0;
        b' \<leftarrow> buffer_consume b len;
        ptr \<leftarrow> peek (b_contents b) (unat p) (unat len);
        Some (Inr (ptr, b')) })"

text \<open>The macros \<^verbatim>\<open>BUF_WRITE_ENDIAN\<close> and \<^verbatim>\<open>BUF_READ_ENDIAN\<close>, over the representation of the integer.\<close>

definition buf_write_endian :: "buffer \<Rightarrow> u8 list \<Rightarrow> (bool \<times> buffer) option" where
  "buf_write_endian b repr =
     (let len = of_nat (length repr) in
      do { (ok, b') \<leftarrow> buffer_extend b len;
           if \<not> ok then Some (False, b')
           else do {
             contents \<leftarrow> poke (b_contents b') (unat (b_end b')) repr;
             Some (True, b'\<lparr>b_contents := contents, b_end := b_end b' + len\<rparr>) } })"

definition buf_read_endian :: "buffer \<Rightarrow> nat \<Rightarrow> (u8 list \<times> buffer) option" where
  "buf_read_endian b len =
     do { repr \<leftarrow> peek (b_contents b) (unat (b_start b)) len;
          Some (repr, b\<lparr>b_start := b_start b + of_nat len\<rparr>) }"

definition buffer_write_le16 :: "buffer \<Rightarrow> u16 \<Rightarrow> (bool \<times> buffer) option" where
  "buffer_write_le16 b x = buf_write_endian b (le_bytes 2 x)"

definition buffer_write_le32 :: "buffer \<Rightarrow> u32 \<Rightarrow> (bool \<times> buffer) option" where
  "buffer_write_le32 b x = buf_write_endian b (le_bytes 4 x)"

definition buffer_write_le64 :: "buffer \<Rightarrow> u64 \<Rightarrow> (bool \<times> buffer) option" where
  "buffer_write_le64 b x = buf_write_endian b (le_bytes 8 x)"

definition buffer_read_le16 :: "buffer \<Rightarrow> (u16 \<times> buffer) option" where
  "buffer_read_le16 b = do { (r, b') \<leftarrow> buf_read_endian b 2; Some (le_word r, b') }"

definition buffer_read_le32 :: "buffer \<Rightarrow> (u32 \<times> buffer) option" where
  "buffer_read_le32 b = do { (r, b') \<leftarrow> buf_read_endian b 4; Some (le_word r, b') }"

definition buffer_read_le64 :: "buffer \<Rightarrow> (u64 \<times> buffer) option" where
  "buffer_read_le64 b = do { (r, b') \<leftarrow> buf_read_endian b 8; Some (le_word r, b') }"

definition buffer_write_be16 :: "buffer \<Rightarrow> u16 \<Rightarrow> (bool \<times> buffer) option" where
  "buffer_write_be16 b x = buf_write_endian b (be_bytes 2 x)"

definition buffer_write_be32 :: "buffer \<Rightarrow> u32 \<Rightarrow> (bool \<times> buffer) option" where
  "buffer_write_be32 b x = buf_write_endian b (be_bytes 4 x)"

definition buffer_write_be64 :: "buffer \<Rightarrow> u64 \<Rightarrow> (bool \<times> buffer) option" where
  "buffer_write_be64 b x = buf_write_endian b (be_bytes 8 x)"

definition buffer_read_be16 :: "buffer \<Rightarrow> (u16 \<times> buffer) option" where
  "buffer_read_be16 b = do { (r, b') \<leftarrow> buf_read_endian b 2; Some (be_word r, b') }"

definition buffer_read_be32 :: "buffer \<Rightarrow> (u32 \<times> buffer) option" where
  "buffer_read_be32 b = do { (r, b') \<leftarrow> buf_read_endian b 4; Some (be_word r, b') }"

definition buffer_read_be64 :: "buffer \<Rightarrow> (u64 \<times> buffer) option" where
  "buffer_read_be64 b = do { (r, b') \<leftarrow> buf_read_endian b 8; Some (be_word r, b') }"

definition buffer_read_byte :: "buffer \<Rightarrow> (u64 \<times> buffer) option" where
  "buffer_read_byte b =
     (if buffer_length b = 0 then Some (- 1, b)
      else do {
        p \<leftarrow> buffer_ref b 0;
        x \<leftarrow> load_byte (b_contents b) (unat p);
        Some (ucast x, b\<lparr>b_start := b_start b + 1\<rparr>) })"

definition buffer_write_byte :: "buffer \<Rightarrow> u8 \<Rightarrow> (bool \<times> buffer) option" where
  "buffer_write_byte b x =
     do { (ok, b') \<leftarrow> buffer_extend b 1;
          if \<not> ok then Some (False, b')
          else do {
            p \<leftarrow> buffer_ref b' (buffer_length b');
            contents \<leftarrow> poke (b_contents b') (unat p) [x];
            Some (True, b'\<lparr>b_contents := contents, b_end := b_end b' + 1\<rparr>) } }"

definition sub_buffer :: "heap \<Rightarrow> buffer \<Rightarrow> u64 \<Rightarrow> u64 \<Rightarrow> buffer option" where
  "sub_buffer h b start len = wrap_buffer h (drop (unat (b_start b + start)) (b_contents b)) len"

definition copy_descriptor :: "buffer \<Rightarrow> buffer \<Rightarrow> buffer" where
  "copy_descriptor d s =
     d\<lparr>b_contents := b_contents s, b_start := b_start s, b_end := b_end s,
       b_length := b_length s, b_wrapped := b_wrapped s\<rparr>"

definition little_stack_buffer :: "heap \<Rightarrow> u8 list \<Rightarrow> buffer" where
  "little_stack_buffer h stack =
     \<lparr>b_start = 0, b_end = 0, b_length = of_nat (length stack), b_wrapped = True, b_h = h,
      b_contents = stack[0 := 0]\<rparr>"

definition pop_u8 :: "buffer \<Rightarrow> (u8 \<times> buffer) option" where
  "pop_u8 b =
     do { assert_ok (b_start b + 1 \<le> b_end b);
          assert_ok (b_end b \<le> b_length b);
          p \<leftarrow> buffer_ref b 0;
          x \<leftarrow> load_byte (b_contents b) (unat p);
          Some (x, b\<lparr>b_start := b_start b + 1\<rparr>) }"

definition push_u8 :: "buffer \<Rightarrow> u8 \<Rightarrow> buffer option" where
  "push_u8 b x =
     do { (ok, b') \<leftarrow> buffer_extend b 1;
          assert_ok ok;
          assert_ok (b_start b' \<le> b_end b');
          assert_ok (b_end b' < b_length b');
          p \<leftarrow> buffer_ref b' (buffer_length b');
          contents \<leftarrow> poke (b_contents b') (unat p) [x];
          Some (b'\<lparr>b_contents := contents, b_end := b_end b' + 1\<rparr>) }"

section \<open>Variable-length integers\<close>

text \<open>The part of \<^verbatim>\<open>tmp\<close> above its first byte, lowest stride first.\<close>

function varint_strides :: "u64 \<Rightarrow> u8 list" where
  "varint_strides x = (if x = 0 then [] else (0x80 OR (ucast x AND 0x7f)) # varint_strides (drop_bit 7 x))"
  by auto
termination
proof (relation "measure unat")
  fix x :: u64 assume "x \<noteq> 0"
  then have "0 < unat x" by (simp add: unat_gt_0)
  then show "(drop_bit 7 x, x) \<in> measure unat"
    by (simp add: drop_bit_eq_div unat_div)
qed simp

definition varint_tmp :: "u64 \<Rightarrow> u8 list" where
  "varint_tmp x = (ucast x AND 0x7f) # varint_strides (drop_bit 7 x)"

fun push_bytes :: "buffer \<Rightarrow> u8 list \<Rightarrow> buffer option" where
  "push_bytes b [] = Some b"
| "push_bytes b (x # xs) = do { b' \<leftarrow> push_u8 b x; push_bytes b' xs }"

definition push_varint :: "buffer \<Rightarrow> u64 \<Rightarrow> buffer option" where
  "push_varint b x = push_bytes b (rev (varint_tmp x))"

partial_function (option) pop_varint_loop :: "buffer \<Rightarrow> u64 \<Rightarrow> (u64 \<times> buffer) option" where
  "pop_varint_loop b out =
     do { (m, b') \<leftarrow> pop_u8 b;
          let out' = push_bit 7 out OR (ucast m AND mask 7);
          if m AND 0x80 \<noteq> 0 then pop_varint_loop b' out' else Some (out', b') }"

definition pop_varint :: "buffer \<Rightarrow> (u64 \<times> buffer) option" where
  "pop_varint b = pop_varint_loop b 0"

section \<open>Comparison and search\<close>

text \<open>\<^verbatim>\<open>int\<close> variables are 32-bit words read with sign; \<open>int_of\<close> is the conversion of a length to one.\<close>

definition int_of :: "u64 \<Rightarrow> int" where
  "int_of w = sint (ucast w :: 32 word)"

fun compare_from :: "buffer \<Rightarrow> buffer \<Rightarrow> nat \<Rightarrow> nat \<Rightarrow> bool option" where
  "compare_from a b i 0 = Some True"
| "compare_from a b i (Suc n) =
     do { x \<leftarrow> byte a i; y \<leftarrow> byte b i;
          if x \<noteq> y then Some False else compare_from a b (Suc i) n }"

definition buffer_compare :: "buffer \<Rightarrow> buffer \<Rightarrow> bool option" where
  "buffer_compare a b =
     (let len = int_of (buffer_length a) in
      if word_of_int len \<noteq> buffer_length b then Some False else compare_from a b 0 (nat len))"

fun lt_from :: "buffer \<Rightarrow> buffer \<Rightarrow> int \<Rightarrow> nat \<Rightarrow> nat \<Rightarrow> bool option" where
  "lt_from a b alen i 0 = Some False"
| "lt_from a b alen i (Suc n) =
     (if int i \<ge> alen then Some True
      else do {
        x \<leftarrow> byte a i; y \<leftarrow> byte b i;
        if x < y then Some True
        else if x > y then Some False
        else lt_from a b alen (Suc i) n })"

definition buffer_lt :: "buffer \<Rightarrow> buffer \<Rightarrow> bool option" where
  "buffer_lt a b = lt_from a b (int_of (buffer_length a)) 0 (nat (int_of (buffer_length b)))"

text \<open>
  \<^verbatim>\<open>runtime_memcmp\<close> runs on memory, so the operations that call it take the addresses \<open>pa\<close> and
  \<open>pb\<close> at which the two areas lie.
\<close>

definition memory_with :: "nat \<Rightarrow> u8 list \<Rightarrow> nat \<Rightarrow> u8 list \<Rightarrow> mem" where
  "memory_with pa xs pb ys =
     (\<lambda>p. if pa \<le> p \<and> p < pa + length xs then xs ! (p - pa)
          else if pb \<le> p \<and> p < pb + length ys then ys ! (p - pb) else 0)"

definition memcmp_at :: "nat \<Rightarrow> u8 list \<Rightarrow> nat \<Rightarrow> nat \<Rightarrow> u8 list \<Rightarrow> nat \<Rightarrow> int option" where
  "memcmp_at pa xs i pb ys n =
     (if i + n \<le> length xs \<and> n \<le> length ys
      then Some (runtime_memcmp (memory_with pa xs pb ys) (pa + i) pb n) else None)"

definition buffer_memcmp :: "nat \<Rightarrow> nat \<Rightarrow> buffer \<Rightarrow> u8 list \<Rightarrow> u64 \<Rightarrow> int option" where
  "buffer_memcmp pa pb b ptr n =
     (let len = buffer_length b in
      do { p \<leftarrow> buffer_ref b 0;
           ret \<leftarrow> memcmp_at pa (b_contents b) (unat p) pb ptr (unat (min len n));
           if ret \<noteq> 0 then Some ret
           else if len < n then Some (- 1)
           else Some 0 })"

definition buffer_compare_with_sstring :: "nat \<Rightarrow> nat \<Rightarrow> buffer \<Rightarrow> u8 list \<Rightarrow> int option" where
  "buffer_compare_with_sstring pa pb b str =
     (let str_len = of_nat (length str) in
      do { res \<leftarrow> buffer_memcmp pa pb b str str_len;
           if res \<noteq> 0 then Some res
           else
             let len = buffer_length b in
             if len > str_len + 1 then Some 1
             else if len = str_len + 1 then do {
               x \<leftarrow> byte b (unat str_len);
               Some (if x \<noteq> 0 then 1 else 0) }
             else Some 0 })"

text \<open>The macros \<^verbatim>\<open>isupper\<close> and \<^verbatim>\<open>tolower\<close>: the subtraction is done after promotion to \<^verbatim>\<open>int\<close>.\<close>

definition isupper :: "int \<Rightarrow> bool" where
  "isupper a \<longleftrightarrow> a mod 256 - 65 < 26"

definition tolower :: "int \<Rightarrow> int" where
  "tolower a = (if isupper a then a OR 0x20 else a)"

text \<open>The bytes of the buffer are unsigned, those of the string are of type \<^verbatim>\<open>char\<close>, which is signed.\<close>

fun compare_ci_from :: "buffer \<Rightarrow> u8 list \<Rightarrow> nat \<Rightarrow> nat \<Rightarrow> int option" where
  "compare_ci_from b str i 0 = Some 0"
| "compare_ci_from b str i (Suc n) =
     do { x \<leftarrow> byte b i;
          y \<leftarrow> load_byte str i;
          let res = tolower (uint x) - tolower (sint y);
          if res \<noteq> 0 then Some res else compare_ci_from b str (Suc i) n }"

definition buffer_compare_with_sstring_ci :: "buffer \<Rightarrow> u8 list \<Rightarrow> int option" where
  "buffer_compare_with_sstring_ci b str =
     (let str_len = of_nat (length str); len = buffer_length b in
      do { res \<leftarrow> compare_ci_from b str 0 (unat (min len str_len));
           if res \<noteq> 0 then Some res
           else if len < str_len then Some (- 1)
           else if len > str_len + 1 then Some 1
           else if len = str_len + 1 then do {
             x \<leftarrow> byte b (unat str_len);
             Some (if x \<noteq> 0 then 1 else 0) }
           else Some 0 })"

fun strchr_from :: "buffer \<Rightarrow> int \<Rightarrow> nat \<Rightarrow> nat \<Rightarrow> int option" where
  "strchr_from b c i 0 = Some (- 1)"
| "strchr_from b c i (Suc n) =
     do { x \<leftarrow> byte b i; if uint x = c then Some (int_of (of_nat i)) else strchr_from b c (Suc i) n }"

definition buffer_strchr :: "buffer \<Rightarrow> int \<Rightarrow> int option" where
  "buffer_strchr b c = strchr_from b c 0 (unat (buffer_length b))"

text \<open>\<open>strrchr_down b c n\<close> runs from index \<open>n - 1\<close> down to 0.\<close>

fun strrchr_down :: "buffer \<Rightarrow> int \<Rightarrow> nat \<Rightarrow> int option" where
  "strrchr_down b c 0 = Some (- 1)"
| "strrchr_down b c (Suc n) =
     do { x \<leftarrow> byte b n; if uint x = c then Some (int_of (of_nat n)) else strrchr_down b c n }"

definition buffer_strrchr :: "buffer \<Rightarrow> int \<Rightarrow> int option" where
  "buffer_strrchr b c = strrchr_down b c (nat (sint (buffer_length b - 1) + 1))"

fun strstr_from :: "nat \<Rightarrow> nat \<Rightarrow> buffer \<Rightarrow> u8 list \<Rightarrow> nat \<Rightarrow> nat \<Rightarrow> int option" where
  "strstr_from pa pb b str i 0 = Some (- 1)"
| "strstr_from pa pb b str i (Suc n) =
     do { p \<leftarrow> buffer_ref b (of_nat i);
          res \<leftarrow> memcmp_at pa (b_contents b) (unat p) pb str (length str);
          if res = 0 then Some (int i) else strstr_from pa pb b str (Suc i) n }"

text \<open>The loop runs while \<open>b_start + i + str.len \<le> b_end\<close>.\<close>

definition buffer_strstr :: "nat \<Rightarrow> nat \<Rightarrow> buffer \<Rightarrow> u8 list \<Rightarrow> int option" where
  "buffer_strstr pa pb b str =
     strstr_from pa pb b str 0 (unat (b_end b) + 1 - (unat (b_start b) + length str))"

fun fnv64_from :: "buffer \<Rightarrow> u64 \<Rightarrow> nat \<Rightarrow> nat \<Rightarrow> u64 option" where
  "fnv64_from b hash i 0 = Some hash"
| "fnv64_from b hash i (Suc n) =
     do { x \<leftarrow> byte b i; fnv64_from b ((hash XOR ucast x) * 1099511628211) (Suc i) n }"

definition fnv64 :: "buffer \<Rightarrow> u64 option" where
  "fnv64 b = fnv64_from b 0xcbf29ce484222325 0 (unat (buffer_length b))"

definition buffer_basename :: "buffer \<Rightarrow> buffer option" where
  "buffer_basename b =
     (if buffer_length b \<le> 1 then Some b
      else do {
        p \<leftarrow> buffer_strrchr b 47;
        if p \<noteq> - 1 then
          if word_of_int p = buffer_length b - 1 then
            let b1 = b\<lparr>b_end := b_end b - 1\<rparr> in
            do { p1 \<leftarrow> buffer_strrchr b1 47;
                 if p1 = - 1 \<or> buffer_length b1 = 1 then Some b1
                 else buffer_consume b1 (word_of_int (p1 + 1)) }
          else buffer_consume b (word_of_int (p + 1))
        else Some b })"

end
