(* ===== verification/Fifo.thy ===== *)
theory Fifo
  imports Prelude
begin

text \<open>
  The contract of a first-in first-out store, which several components of the runtime provide: what is
  put in comes out in the same order, nothing is lost and nothing is made up. \<open>fits\<close> bounds the
  sizes for which the machine arithmetic of the provider does not wrap. The lemma on a whole
  history of operations is proved here once for all providers.
\<close>

datatype 'e fifo_op = Put "'e list" | Get nat

locale fifo_store =
  fixes inv :: "'q \<Rightarrow> bool"
    and abs :: "'q \<Rightarrow> 'e list"
    and fits :: "'q \<Rightarrow> nat \<Rightarrow> bool"
    and put :: "'q \<Rightarrow> 'e list \<Rightarrow> 'q option"
    and get :: "'q \<Rightarrow> nat \<Rightarrow> ('e list \<times> 'q) option"
  assumes put_law: "\<lbrakk>inv q; fits q (length xs); put q xs = Some q'\<rbrakk> \<Longrightarrow> inv q' \<and> abs q' = abs q @ xs"
    and get_law: "\<lbrakk>inv q; n \<le> length (abs q)\<rbrakk> \<Longrightarrow>
      \<exists>q'. get q n = Some (take n (abs q), q') \<and> inv q' \<and> abs q' = drop n (abs q)"
    and get_short: "\<lbrakk>inv q; length (abs q) < n\<rbrakk> \<Longrightarrow> get q n = None"
begin

text \<open>
  A history: a refused operation leaves the store unchanged. The results are the final store, the
  accepted input and the output.
\<close>

fun run :: "'q \<Rightarrow> 'e fifo_op list \<Rightarrow> ('q \<times> 'e list \<times> 'e list) option" where
  "run q [] = Some (q, [], [])"
| "run q (Put xs # ops) =
     (if \<not> fits q (length xs) then None
      else case put q xs of
        None \<Rightarrow> run q ops
      | Some q' \<Rightarrow> do { (r, i, out) \<leftarrow> run q' ops; Some (r, xs @ i, out) })"
| "run q (Get n # ops) =
     (case get q n of
        None \<Rightarrow> run q ops
      | Some (ys, q') \<Rightarrow> do { (r, i, out) \<leftarrow> run q' ops; Some (r, i, ys @ out) })"

lemma run_conserves:
  "\<lbrakk>inv q; run q ops = Some (r, i, out)\<rbrakk> \<Longrightarrow> inv r \<and> abs q @ i = out @ abs r"
proof (induction q ops arbitrary: r i out rule: run.induct)
  case (2 q xs ops)
  show ?case
  proof (cases "put q xs")
    case None
    then show ?thesis using 2 by (auto split: if_splits)
  next
    case (Some q')
    moreover have fits: "fits q (length xs)" using 2(4) by (auto split: if_splits)
    ultimately obtain i' where i': "run q' ops = Some (r, i', out)" "i = xs @ i'"
      using 2(4) by (auto split: Option.bind_splits)
    have q': "inv q'" "abs q' = abs q @ xs" using put_law [OF 2(3) fits Some] by auto
    show ?thesis using 2(2) [OF _ Some q'(1) i'(1)] fits q'(2) i'(2) by simp
  qed
next
  case (3 q n ops)
  show ?case
  proof (cases "n \<le> length (abs q)")
    case True
    then obtain q' where q': "get q n = Some (take n (abs q), q')" "inv q'" "abs q' = drop n (abs q)"
      using get_law [OF 3(3)] by blast
    then obtain out' where out': "run q' ops = Some (r, i, out')" "out = take n (abs q) @ out'"
      using 3(4) by (auto split: Option.bind_splits)
    have "inv r \<and> abs q' @ i = out' @ abs r" using 3(2) [OF q'(1) refl q'(2) out'(1)] .
    then show ?thesis using q'(3) out'(2) append_take_drop_id [of n "abs q"]
      by (metis append.assoc)
  next
    case False
    then show ?thesis using 3(1) get_short [OF 3(3)] 3(3,4) by simp
  qed
qed simp

text \<open>What is put into an empty store is returned by the reads of the same total size.\<close>

lemma put_get:
  assumes "inv q" "fits q (length xs)" "put q xs = Some q'" "abs q = []"
  shows "\<exists>q''. get q' (length xs) = Some (xs, q'') \<and> inv q'' \<and> abs q'' = []"
  using put_law [OF assms(1-3)] get_law [of q' "length xs"] assms(4) by auto

end

end
