(* ===== verification/Buffer_Correct.thy ===== *)
theory Buffer_Correct
  imports Buffer Fifo
begin

text \<open>
  Correctness of the byte buffers: the abstract value of a buffer is the list of bytes of its window,
  writing appends to it and reading removes from its front. The little- and big-endian
  and the variable-length integers make the round trip.
\<close>

section \<open>Invariant and abstract value\<close>

definition heap_ok :: "heap \<Rightarrow> bool" where
  "heap_ok h \<longleftrightarrow> (\<forall>n c. h n = Some c \<longrightarrow> length c = unat n)"

definition wf_buffer :: "buffer \<Rightarrow> bool" where
  "wf_buffer b \<longleftrightarrow>
     b_start b \<le> b_end b \<and> b_end b \<le> b_length b \<and> unat (b_length b) = length (b_contents b) \<and>
     heap_ok (b_h b)"

definition bytes_of :: "buffer \<Rightarrow> u8 list" where
  "bytes_of b = take (unat (b_end b) - unat (b_start b)) (drop (unat (b_start b)) (b_contents b))"

text \<open>The sizes at which no sum of \<^verbatim>\<open>buffer_extend\<close> wraps.\<close>

definition buffer_fits :: "buffer \<Rightarrow> nat \<Rightarrow> bool" where
  "buffer_fits b n \<longleftrightarrow> length (b_contents b) + n < 2 ^ 62"

text \<open>When \<^verbatim>\<open>buffer_extend\<close> succeeds.\<close>

definition buffer_room :: "buffer \<Rightarrow> nat \<Rightarrow> bool" where
  "buffer_room b n \<longleftrightarrow>
     unat (b_end b) + n \<le> length (b_contents b) \<or>
     2 * (length (bytes_of b) + n) \<le> length (b_contents b) \<or>
     \<not> b_wrapped b \<and> b_h b (2 * (buffer_length b + of_nat n)) \<noteq> None"

lemma wf_bufferD:
  assumes "wf_buffer b"
  shows "unat (b_start b) \<le> unat (b_end b)" "unat (b_end b) \<le> unat (b_length b)"
    "unat (b_length b) = length (b_contents b)" "heap_ok (b_h b)"
  using assms by (auto simp: wf_buffer_def word_le_nat_alt)

lemma unat_buffer_length: "wf_buffer b \<Longrightarrow> unat (buffer_length b) = length (bytes_of b)"
  using wf_bufferD [of b] by (simp add: buffer_length_def bytes_of_def unat_sub word_le_nat_alt)

lemma length_bytes_of: "wf_buffer b \<Longrightarrow> length (bytes_of b) = unat (b_end b) - unat (b_start b)"
  using wf_bufferD [of b] by (simp add: bytes_of_def)

lemma unat_add_u64: "unat (x :: u64) + unat y < 2 ^ 64 \<Longrightarrow> unat (x + y) = unat x + unat y"
  by (simp add: unat_word_ariths)

lemma unat_u64_less: "unat (w :: u64) < 2 ^ 64"
  using unsigned_less [of w] by simp

lemma unat_of_nat_u64: "n < 2 ^ 64 \<Longrightarrow> unat (of_nat n :: u64) = n"
  by (simp add: unat_of_nat take_bit_eq_mod)

section \<open>Extension\<close>

lemma set_capacity_grow:
  assumes wf: "wf_buffer b" and grow: "b_length b < len"
  shows "buffer_set_capacity b len =
    (case (if b_wrapped b then None else b_h b len) of
       None \<Rightarrow> Some (b_length b, b)
     | Some new \<Rightarrow>
         Some (len, b\<lparr>b_length := len, b_end := b_end b - b_start b, b_start := 0,
           b_contents := bytes_of b @ drop (length (bytes_of b)) new\<rparr>))"
proof -
  note w = wf_bufferD [OF wf]
  have len: "\<not> len < b_end b - b_start b" "len \<noteq> b_length b"
    using grow w by (auto simp: word_less_nat_alt unat_sub word_le_nat_alt)
  have c: "unat (b_end b - b_start b) = length (bytes_of b)"
    using unat_buffer_length [OF wf] by (simp add: buffer_length_def)
  have peek: "peek (b_contents b) (unat (b_start b)) (unat (b_end b - b_start b)) = Some (bytes_of b)"
    using w unfolding c by (simp add: peek_def bytes_of_def)
  show ?thesis
  proof (cases "if b_wrapped b then None else b_h b len")
    case None
    then show ?thesis using len by (auto simp: buffer_set_capacity_def buffer_is_wrapped_def Let_def split: if_splits)
  next
    case (Some new)
    then have h: "\<not> b_wrapped b" "b_h b len = Some new" by (auto split: if_splits)
    then have new: "length new = unat len" using w(4) by (simp add: heap_ok_def)
    then have "length (bytes_of b) \<le> length new"
      using grow w length_bytes_of [OF wf] by (simp add: word_less_nat_alt)
    then have "poke new 0 (bytes_of b) = Some (bytes_of b @ drop (length (bytes_of b)) new)"
      by (simp add: poke_def)
    moreover have "b_length b = 0 \<Longrightarrow> bytes_of b = []"
      using w length_bytes_of [OF wf] by (simp add: bytes_of_def)
    ultimately show ?thesis using h len peek
      by (cases "b_length b = 0") (simp_all add: buffer_set_capacity_def buffer_is_wrapped_def Let_def)
  qed
qed

lemma extend_sizes:
  assumes wf: "wf_buffer b" and fits: "buffer_fits b n"
  shows "unat (b_end b + of_nat n) = unat (b_end b) + n"
    "unat (b_end b - b_start b) = length (bytes_of b)"
    "length (bytes_of b) \<le> length (b_contents b)"
    "unat (2 * (buffer_length b + of_nat n)) = 2 * (length (bytes_of b) + n)"
proof -
  note w = wf_bufferD [OF wf]
  have n: "unat (of_nat n :: u64) = n" "length (b_contents b) + n < 2 ^ 62"
    using fits by (simp_all add: buffer_fits_def unat_of_nat_u64)
  show "unat (b_end b + of_nat n) = unat (b_end b) + n"
    using w n unat_add_u64 [of "b_end b" "of_nat n"] by simp
  show e: "unat (b_end b - b_start b) = length (bytes_of b)"
    using unat_buffer_length [OF wf] by (simp add: buffer_length_def)
  show c: "length (bytes_of b) \<le> length (b_contents b)" using length_bytes_of [OF wf] w by auto
  have len1: "unat (buffer_length b + of_nat n) = length (bytes_of b) + n"
    using e c n unat_add_u64 [of "buffer_length b" "of_nat n"] by (simp add: buffer_length_def)
  have double: "2 * (buffer_length b + of_nat n) = (buffer_length b + of_nat n) + (buffer_length b + of_nat n)"
    by (rule mult_2)
  show "unat (2 * (buffer_length b + of_nat n)) = 2 * (length (bytes_of b) + n)"
    unfolding double using len1 c n by (subst unat_add_u64) simp_all
qed

lemma moved_window:
  assumes wf: "wf_buffer b" and c: "length c = unat l" "length (bytes_of b) \<le> length c"
  defines "b' \<equiv> b\<lparr>b_length := l, b_end := b_end b - b_start b, b_start := 0,
    b_contents := bytes_of b @ drop (length (bytes_of b)) c\<rparr>"
  shows "wf_buffer b'" "bytes_of b' = bytes_of b" "unat (b_end b') = length (bytes_of b)"
    "length (b_contents b') = length c"
proof -
  have e: "unat (b_end b - b_start b) = length (bytes_of b)"
    using unat_buffer_length [OF wf] by (simp add: buffer_length_def)
  then show "wf_buffer b'" using c wf_bufferD(4) [OF wf] by (simp add: wf_buffer_def b'_def word_le_nat_alt)
  show "bytes_of b' = bytes_of b" unfolding bytes_of_def [of b'] unfolding b'_def using e by simp
  show "unat (b_end b') = length (bytes_of b)" "length (b_contents b') = length c"
    using e c by (simp_all add: b'_def)
qed

definition extended :: "buffer \<Rightarrow> nat \<Rightarrow> bool \<Rightarrow> buffer \<Rightarrow> bool" where
  "extended b n ok b' \<longleftrightarrow>
     wf_buffer b' \<and> bytes_of b' = bytes_of b \<and> b_wrapped b' = b_wrapped b \<and> b_h b' = b_h b \<and>
     (if ok then unat (b_end b') + n \<le> length (b_contents b') else b' = b) \<and>
     (unat (b_end b) + n \<le> length (b_contents b) \<longrightarrow> b' = b) \<and>
     length (b_contents b') \<le> max (length (b_contents b)) (2 * (length (bytes_of b) + n)) \<and>
     (b_start b = 0 \<longrightarrow> b_start b' = 0)"

lemma extend_resize:
  assumes wf: "wf_buffer b" and fits: "buffer_fits b n"
    and outer: "b_length b < b_end b + of_nat n" and "b_length b < 2 * (buffer_length b + of_nat n)"
  shows "\<exists>b'. buffer_extend b (of_nat n) = Some (buffer_room b n, b') \<and> extended b n (buffer_room b n) b'"
proof -
  note w = wf_bufferD [OF wf] and sz = extend_sizes [OF wf fits]
  have short: "\<not> unat (b_end b) + n \<le> length (b_contents b)"
    using outer sz(1) w by (simp add: word_less_nat_alt)
  define new_len where "new_len = 2 * (buffer_length b + of_nat n)"
  have inner: "b_length b < new_len" and len: "unat new_len = 2 * (length (bytes_of b) + n)"
    using assms(4) sz(4) by (simp_all only: new_len_def)
  have ext: "buffer_extend b (of_nat n) = do { (cap, b') \<leftarrow> buffer_set_capacity b new_len; Some (cap = new_len, b') }"
    using outer inner by (simp add: buffer_extend_def buffer_length_def Let_def new_len_def)
  have room: "buffer_room b n \<longleftrightarrow> \<not> b_wrapped b \<and> b_h b new_len \<noteq> None"
    using outer inner sz w len by (simp add: buffer_room_def word_less_nat_alt new_len_def)
  show ?thesis
  proof (cases "if b_wrapped b then None else b_h b new_len")
    case None
    then have "\<not> buffer_room b n" using room by (auto split: if_splits)
    then show ?thesis using None inner wf by (auto simp: ext set_capacity_grow [OF wf inner] extended_def)
  next
    case (Some new)
    then have h: "buffer_room b n" "b_h b new_len = Some new" using room by (auto split: if_splits)
    have new: "length new = unat new_len" "length (bytes_of b) \<le> length new"
      using h w(4) len by (simp_all add: heap_ok_def)
    show ?thesis using Some h moved_window [OF wf new] new len short
      by (simp add: ext set_capacity_grow [OF wf inner] extended_def)
  qed
qed

lemma extend_move:
  assumes wf: "wf_buffer b" and fits: "buffer_fits b n"
    and outer: "b_length b < b_end b + of_nat n" and inner: "\<not> b_length b < 2 * (buffer_length b + of_nat n)"
  shows "\<exists>b'. buffer_extend b (of_nat n) = Some (True, b') \<and> extended b n True b'"
proof -
  note w = wf_bufferD [OF wf] and sz = extend_sizes [OF wf fits]
  have short: "\<not> unat (b_end b) + n \<le> length (b_contents b)"
    using outer sz(1) w by (simp add: word_less_nat_alt)
  have room: "2 * (length (bytes_of b) + n) \<le> length (b_contents b)"
    using inner sz w by (simp add: word_less_nat_alt)
  have "peek (b_contents b) (unat (b_start b)) (unat (b_end b - b_start b)) = Some (bytes_of b)"
    using w length_bytes_of [OF wf] unfolding sz(2) by (simp add: peek_def bytes_of_def)
  moreover have "poke (b_contents b) 0 (bytes_of b) = Some (bytes_of b @ drop (length (bytes_of b)) (b_contents b))"
    using sz(3) by (simp add: poke_def)
  ultimately have "buffer_extend b (of_nat n) = Some (True, b\<lparr>b_length := b_length b,
      b_end := b_end b - b_start b, b_start := 0, b_contents := bytes_of b @ drop (length (bytes_of b)) (b_contents b)\<rparr>)"
    using outer inner by (simp add: buffer_extend_def buffer_length_def Let_def)
  then show ?thesis using moved_window [OF wf w(3) [symmetric] sz(3)] room short by (simp add: extended_def)
qed

lemma buffer_extend_correct:
  assumes wf: "wf_buffer b" and fits: "buffer_fits b n"
  shows "\<exists>b'. buffer_extend b (of_nat n) = Some (buffer_room b n, b') \<and> extended b n (buffer_room b n) b'"
proof -
  note w = wf_bufferD [OF wf] and sz = extend_sizes [OF wf fits]
  consider "\<not> b_length b < b_end b + of_nat n"
    | "b_length b < b_end b + of_nat n" "b_length b < 2 * (buffer_length b + of_nat n)"
    | "b_length b < b_end b + of_nat n" "\<not> b_length b < 2 * (buffer_length b + of_nat n)" by blast
  then show ?thesis
  proof cases
    case 1
    then have "unat (b_end b) + n \<le> length (b_contents b)" using sz w by (simp add: word_less_nat_alt)
    then show ?thesis using 1 wf by (auto simp: buffer_extend_def buffer_room_def extended_def)
  next
    case 2
    then show ?thesis by (rule extend_resize [OF wf fits])
  next
    case 3
    then have "buffer_room b n" using sz w by (simp add: buffer_room_def word_less_nat_alt)
    then show ?thesis using extend_move [OF wf fits 3] by simp
  qed
qed

section \<open>Writing and reading\<close>

text \<open>Bytes placed behind the window and taken into it.\<close>

lemma append_at_end:
  assumes wf: "wf_buffer b" and room: "unat (b_end b) + length src \<le> length (b_contents b)"
  obtains contents where "poke (b_contents b) (unat (b_end b)) src = Some contents"
    "wf_buffer (b\<lparr>b_contents := contents, b_end := b_end b + of_nat (length src)\<rparr>)"
    "bytes_of (b\<lparr>b_contents := contents, b_end := b_end b + of_nat (length src)\<rparr>) = bytes_of b @ src"
    "b_end b + of_nat (length src) \<le> b_length b"
proof -
  note w = wf_bufferD [OF wf]
  obtain contents where poke: "poke (b_contents b) (unat (b_end b)) src = Some contents"
    using room by (simp add: poke_def)
  have lt: "length (b_contents b) < 2 ^ 64" using w(3) unat_u64_less [of "b_length b"] by simp
  then have e: "unat (b_end b + of_nat (length src)) = unat (b_end b) + length src"
    using room unat_add_u64 [of "b_end b" "of_nat (length src)"] by (simp add: unat_of_nat_u64)
  let ?b = "b\<lparr>b_contents := contents, b_end := b_end b + of_nat (length src)\<rparr>"
  have "wf_buffer ?b"
    using w room poke_length [OF poke] by (simp add: wf_buffer_def word_le_nat_alt e)
  moreover have "bytes_of ?b = bytes_of b @ src"
    using slice_poke [OF poke w(1)] by (simp add: bytes_of_def e)
  moreover have "b_end b + of_nat (length src) \<le> b_length b" using e room w by (simp add: word_le_nat_alt)
  ultimately show ?thesis using that poke by blast
qed

lemma ref_end: "wf_buffer b \<Longrightarrow> buffer_ref b (buffer_length b) = Some (b_end b)"
  by (simp add: buffer_ref_def buffer_length_def wf_buffer_def)

lemma ref_start: "wf_buffer b \<Longrightarrow> buffer_ref b 0 = Some (b_start b)"
  by (auto simp: buffer_ref_def wf_buffer_def)

definition written :: "buffer \<Rightarrow> u8 list \<Rightarrow> buffer \<Rightarrow> bool" where
  "written b src b' \<longleftrightarrow>
     wf_buffer b' \<and> bytes_of b' = bytes_of b @ src \<and> b_wrapped b' = b_wrapped b \<and> b_h b' = b_h b"

lemma buffer_write_correct:
  assumes wf: "wf_buffer b" and fits: "buffer_fits b (length src)"
  shows "\<exists>b'. buffer_write b src = Some (buffer_room b (length src), b') \<and>
    (if buffer_room b (length src) then written b src b' else b' = b)"
proof -
  obtain b1 where ext: "buffer_extend b (of_nat (length src)) = Some (buffer_room b (length src), b1)"
      "extended b (length src) (buffer_room b (length src)) b1"
    using buffer_extend_correct [OF wf fits] by blast
  show ?thesis
  proof (cases "buffer_room b (length src)")
    case True
    then have b1: "wf_buffer b1" "unat (b_end b1) + length src \<le> length (b_contents b1)"
      using ext(2) by (simp_all add: extended_def)
    obtain c where "poke (b_contents b1) (unat (b_end b1)) src = Some c"
      "wf_buffer (b1\<lparr>b_contents := c, b_end := b_end b1 + of_nat (length src)\<rparr>)"
      "bytes_of (b1\<lparr>b_contents := c, b_end := b_end b1 + of_nat (length src)\<rparr>) = bytes_of b1 @ src"
      "b_end b1 + of_nat (length src) \<le> b_length b1"
      using append_at_end [OF b1] by blast
    then show ?thesis using True ext b1(1)
      by (simp add: buffer_write_def Let_def ref_end buffer_produce_def written_def extended_def wf_buffer_def)
  next
    case False
    then show ?thesis using ext by (simp add: buffer_write_def Let_def extended_def)
  qed
qed

lemma consume_correct:
  assumes wf: "wf_buffer b" and n: "n \<le> length (bytes_of b)"
  shows "buffer_consume b (of_nat n) = Some (b\<lparr>b_start := b_start b + of_nat n\<rparr>)"
    "wf_buffer (b\<lparr>b_start := b_start b + of_nat n\<rparr>)"
    "bytes_of (b\<lparr>b_start := b_start b + of_nat n\<rparr>) = drop n (bytes_of b)"
    "peek (b_contents b) (unat (b_start b)) n = Some (take n (bytes_of b))"
proof -
  note w = wf_bufferD [OF wf] and l = length_bytes_of [OF wf]
  have lt: "unat (b_end b) < 2 ^ 64" using unat_u64_less [of "b_end b"] by simp
  have s: "unat (b_start b + of_nat n) = unat (b_start b) + n"
    using n l lt w(1) unat_add_u64 [of "b_start b" "of_nat n"] by (simp add: unat_of_nat_u64)
  show "buffer_consume b (of_nat n) = Some (b\<lparr>b_start := b_start b + of_nat n\<rparr>)"
    "wf_buffer (b\<lparr>b_start := b_start b + of_nat n\<rparr>)"
    using s n l w by (simp_all add: buffer_consume_def wf_buffer_def word_le_nat_alt)
  show "bytes_of (b\<lparr>b_start := b_start b + of_nat n\<rparr>) = drop n (bytes_of b)"
    using n l by (simp add: bytes_of_def s drop_take add.commute)
  show "peek (b_contents b) (unat (b_start b)) n = Some (take n (bytes_of b))"
    using n l w by (simp add: peek_def bytes_of_def min_absorb1)
qed

lemma buffer_read_correct:
  assumes wf: "wf_buffer b" and n: "n < 2 ^ 64"
  shows "if length (bytes_of b) < n then buffer_read b (of_nat n) = Some (Inl b)
    else \<exists>b'. buffer_read b (of_nat n) = Some (Inr (take n (bytes_of b), b')) \<and> wf_buffer b' \<and>
      bytes_of b' = drop n (bytes_of b)"
proof -
  have lt: "buffer_length b < of_nat n \<longleftrightarrow> length (bytes_of b) < n"
    using unat_buffer_length [OF wf] n by (simp add: word_less_nat_alt unat_of_nat_u64)
  show ?thesis using lt consume_correct [OF wf, of n] n
    by (simp add: buffer_read_def ref_start [OF wf] unat_of_nat_u64)
qed

lemma buffer_pop_read: "wf_buffer b \<Longrightarrow> n < 2 ^ 64 \<Longrightarrow> buffer_pop b (of_nat n) = buffer_read b (of_nat n)"
  using consume_correct [of b n] unat_buffer_length [of b]
  by (simp add: buffer_pop_def buffer_read_def ref_start unat_of_nat_u64 word_less_nat_alt)

lemma buffer_read_at_correct:
  assumes wf: "wf_buffer b"
  shows "buffer_read_at b off len = Some (take (unat len) (drop (unat off) (bytes_of b)))"
proof (cases "buffer_length b \<le> off")
  case True
  then show ?thesis using unat_buffer_length [OF wf] by (simp add: buffer_read_at_def word_le_nat_alt)
next
  case False
  note w = wf_bufferD [OF wf] and l = length_bytes_of [OF wf]
  have off: "unat off < length (bytes_of b)"
    using False unat_buffer_length [OF wf] by (simp add: word_le_nat_alt)
  have p: "unat (b_start b + off) = unat (b_start b) + unat off"
    using off l w unat_u64_less [of "b_end b"] unat_add_u64 [of "b_start b" off] by linarith
  have ref: "buffer_ref b off = Some (b_start b + off)"
    using off l w p by (simp add: buffer_ref_def word_le_nat_alt)
  have m: "unat (min len (buffer_length b - off)) = min (unat len) (length (bytes_of b) - unat off)"
    using False unat_buffer_length [OF wf] by (simp add: min_def word_le_nat_alt unat_sub)
  have eq: "take (unat len) (drop (unat off) (bytes_of b)) =
      take (min (unat len) (length (bytes_of b) - unat off)) (drop (unat (b_start b + off)) (b_contents b))"
    unfolding p bytes_of_def using l w
    by (simp add: drop_take bytes_of_def add.commute min.commute)
  show ?thesis using False off l w
    unfolding buffer_read_at_def Let_def eq m ref peek_def p by (simp add: ref m peek_def p)
qed

text \<open>A buffer that accepts \<open>n\<close> further bytes: it has the space, or it may grow and its heap does not fail.\<close>

definition roomy :: "buffer \<Rightarrow> nat \<Rightarrow> bool" where
  "roomy b n \<longleftrightarrow>
     length (b_contents b) \<le> 2 ^ 61 \<and> length (bytes_of b) + n \<le> 2 ^ 60 \<and>
     (unat (b_end b) + n \<le> length (b_contents b) \<or> \<not> b_wrapped b \<and> (\<forall>k. b_h b k \<noteq> None))"

lemma roomy_room: "roomy b n \<Longrightarrow> k \<le> n \<Longrightarrow> buffer_room b k \<and> buffer_fits b k"
  by (auto simp: roomy_def buffer_room_def buffer_fits_def)

lemma append_repr:
  assumes wf: "wf_buffer b" and roomy: "roomy b (length xs + n)"
  obtains b1 c where "buffer_extend b (of_nat (length xs)) = Some (True, b1)" "wf_buffer b1"
    "bytes_of b1 = bytes_of b" "unat (b_end b1) + length xs \<le> length (b_contents b1)"
    "poke (b_contents b1) (unat (b_end b1)) xs = Some c"
    "written b xs (b1\<lparr>b_contents := c, b_end := b_end b1 + of_nat (length xs)\<rparr>)"
    "roomy (b1\<lparr>b_contents := c, b_end := b_end b1 + of_nat (length xs)\<rparr>) n"
    "b_end b1 + of_nat (length xs) \<le> b_length b1"
proof -
  have ok: "buffer_room b (length xs)" and fits: "buffer_fits b (length xs)"
    using roomy_room [OF roomy, of "length xs"] by simp_all
  obtain b1 where ext: "buffer_extend b (of_nat (length xs)) = Some (True, b1)" "extended b (length xs) True b1"
    using buffer_extend_correct [OF wf fits] ok by auto
  then have b1: "wf_buffer b1" "unat (b_end b1) + length xs \<le> length (b_contents b1)" "bytes_of b1 = bytes_of b"
    by (simp_all add: extended_def)
  obtain c where c: "poke (b_contents b1) (unat (b_end b1)) xs = Some c"
    "wf_buffer (b1\<lparr>b_contents := c, b_end := b_end b1 + of_nat (length xs)\<rparr>)"
    "bytes_of (b1\<lparr>b_contents := c, b_end := b_end b1 + of_nat (length xs)\<rparr>) = bytes_of b1 @ xs"
    "b_end b1 + of_nat (length xs) \<le> b_length b1"
    using append_at_end [OF b1(1,2)] by blast
  let ?b = "b1\<lparr>b_contents := c, b_end := b_end b1 + of_nat (length xs)\<rparr>"
  have written: "written b xs ?b" using c b1 ext(2) by (simp add: written_def extended_def)
  have "length (b_contents b1) \<le> 2 ^ 61"
    using ext(2) roomy by (auto simp: extended_def roomy_def max_def split: if_splits)
  moreover have "unat (b_end ?b) + n \<le> length (b_contents ?b)"
    if le: "unat (b_end b) + (length xs + n) \<le> length (b_contents b)"
  proof -
    have "b1 = b" using le ext(2) by (simp add: extended_def)
    moreover have "unat (b_end b + of_nat (length xs)) = unat (b_end b) + length xs"
      using extend_sizes(1) [OF wf fits] .
    ultimately show ?thesis using le poke_length [OF c(1)] by simp
  qed
  ultimately have "roomy ?b n"
    using roomy c(3) b1(3) poke_length [OF c(1)] ext(2) by (auto simp: roomy_def extended_def)
  then show ?thesis using that ext(1) b1 c written by blast
qed

lemma written_Nil [simp]: "wf_buffer b \<Longrightarrow> written b [] b"
  by (simp add: written_def)

lemma written_trans: "written b xs b1 \<Longrightarrow> written b1 ys b2 \<Longrightarrow> written b (xs @ ys) b2"
  by (simp add: written_def)

lemma written_wf: "written b xs b' \<Longrightarrow> wf_buffer b'"
  by (simp add: written_def)

lemma buf_write_endian_correct:
  assumes "wf_buffer b" "roomy b (length xs + n)"
  shows "\<exists>b'. buf_write_endian b xs = Some (True, b') \<and> written b xs b' \<and> roomy b' n"
proof -
  obtain b1 c where "buffer_extend b (of_nat (length xs)) = Some (True, b1)" 
    "poke (b_contents b1) (unat (b_end b1)) xs = Some c"
    "written b xs (b1\<lparr>b_contents := c, b_end := b_end b1 + of_nat (length xs)\<rparr>)"
    "roomy (b1\<lparr>b_contents := c, b_end := b_end b1 + of_nat (length xs)\<rparr>) n"
    using append_repr [OF assms] by blast
  then show ?thesis by (simp add: buf_write_endian_def Let_def)
qed

lemma buf_read_endian_correct:
  assumes "wf_buffer b" "bytes_of b = xs @ rest"
  shows "\<exists>b'. buf_read_endian b (length xs) = Some (xs, b') \<and> wf_buffer b' \<and> bytes_of b' = rest"
  using consume_correct [OF assms(1), of "length xs"] assms(2) by (simp add: buf_read_endian_def)

lemma push_u8_correct:
  assumes "wf_buffer b" "roomy b (Suc n)"
  shows "\<exists>b'. push_u8 b x = Some b' \<and> written b [x] b' \<and> roomy b' n"
proof -
  have "roomy b (length [x] + n)" using assms(2) by simp
  then obtain b1 c where b1: "buffer_extend b (of_nat (length [x])) = Some (True, b1)" "wf_buffer b1"
    "unat (b_end b1) + length [x] \<le> length (b_contents b1)"
    "poke (b_contents b1) (unat (b_end b1)) [x] = Some c"
    "written b [x] (b1\<lparr>b_contents := c, b_end := b_end b1 + of_nat (length [x])\<rparr>)"
    "roomy (b1\<lparr>b_contents := c, b_end := b_end b1 + of_nat (length [x])\<rparr>) n"
    using append_repr [OF assms(1)] by blast
  have "b_start b1 \<le> b_end b1" "b_end b1 < b_length b1"
    using wf_bufferD [OF b1(2)] b1(3) by (simp_all add: word_less_nat_alt word_le_nat_alt)
  then show ?thesis using b1 by (simp add: push_u8_def ref_end)
qed

lemma buffer_write_byte_push:
  assumes "wf_buffer b" "roomy b (Suc n)"
  shows "buffer_write_byte b x = map_option (Pair True) (push_u8 b x)"
proof -
  have "roomy b (length [x] + n)" using assms(2) by simp
  then obtain b1 c where b1: "buffer_extend b (of_nat (length [x])) = Some (True, b1)" "wf_buffer b1"
    "unat (b_end b1) + length [x] \<le> length (b_contents b1)"
    using append_repr [OF assms(1)] by blast
  have "b_start b1 \<le> b_end b1" "b_end b1 < b_length b1"
    using wf_bufferD [OF b1(2)] b1(3) by (simp_all add: word_less_nat_alt word_le_nat_alt)
  then show ?thesis using b1
    by (simp add: push_u8_def buffer_write_byte_def ref_end split: Option.bind_splits)
qed

lemma push_bytes_correct:
  "\<lbrakk>wf_buffer b; roomy b (length xs + n)\<rbrakk> \<Longrightarrow> \<exists>b'. push_bytes b xs = Some b' \<and> written b xs b' \<and> roomy b' n"
proof (induction xs arbitrary: b)
  case (Cons x xs)
  then obtain b1 where b1: "push_u8 b x = Some b1" "written b [x] b1" "roomy b1 (length xs + n)"
    using push_u8_correct [of b "length xs + n" x] by auto
  then obtain b2 where "push_bytes b1 xs = Some b2" "written b1 xs b2" "roomy b2 n"
    using Cons.IH [OF written_wf [OF b1(2)] b1(3)] by blast
  then show ?case using b1 written_trans [OF b1(2)] by fastforce
qed simp

lemma pop_u8_correct:
  assumes "wf_buffer b" "bytes_of b = x # rest"
  shows "\<exists>b'. pop_u8 b = Some (x, b') \<and> wf_buffer b' \<and> bytes_of b' = rest"
proof -
  have one: "buffer_consume b 1 = Some (b\<lparr>b_start := b_start b + 1\<rparr>)"
    "wf_buffer (b\<lparr>b_start := b_start b + 1\<rparr>)" "bytes_of (b\<lparr>b_start := b_start b + 1\<rparr>) = rest"
    using consume_correct [OF assms(1), of 1] assms(2) by simp_all
  have "load_byte (b_contents b) (unat (b_start b)) = Some x"
    using assms(2) wf_bufferD [OF assms(1)] length_bytes_of [OF assms(1)]
    by (auto simp: load_byte_def bytes_of_def dest!: arg_cong [where f = "\<lambda>xs. xs ! 0"])
  then show ?thesis using one ref_start [OF assms(1)]
    by (auto simp: pop_u8_def buffer_consume_def split: if_splits)
qed

lemma pop_u8_empty:
  assumes "wf_buffer b" "bytes_of b = []" "length (b_contents b) < 2 ^ 61"
  shows "pop_u8 b = None"
proof -
  have e: "unat (b_end b) = unat (b_start b)" "unat (b_start b) < 2 ^ 61"
    using wf_bufferD [OF assms(1)] length_bytes_of [OF assms(1)] assms(2,3) by simp_all
  have "unat (b_start b + 1) = unat (b_start b) + 1" using e(2) unat_add_u64 [of "b_start b" 1] by simp
  then have "\<not> b_start b + 1 \<le> b_end b" using e by (simp add: word_le_nat_alt)
  then show ?thesis by (simp add: pop_u8_def)
qed

section \<open>Variable-length integers\<close>

definition varint_acc :: "u64 \<Rightarrow> u8 \<Rightarrow> u64" where
  "varint_acc out m = push_bit 7 out OR (ucast m AND mask 7)"

lemma and_0x7f_mask: "(w :: u8) AND 0x7f = w AND mask 7"
  by (simp add: mask_eq_exp_minus_1)

lemma bit_0x80: "bit (0x80 :: u8) n \<longleftrightarrow> n = 7"
proof -
  have "(0x80 :: u8) = push_bit 7 1" by simp
  then show ?thesis by (simp only: bit_push_bit_iff) (auto simp: bit_simps)
qed

lemma and_0x80: "(w :: u8) AND 0x80 \<noteq> 0 \<longleftrightarrow> bit w 7"
proof -
  have "(0x80 :: u8) = push_bit 7 1" by simp
  then show ?thesis by (simp only: and_exp_eq_0_iff_not_bit push_bit_of_1) simp
qed

lemma bit_varint_acc: "n < 64 \<Longrightarrow> bit (varint_acc out m) n = (if n < 7 then bit m n else bit out (n - 7))"
  by (auto simp: varint_acc_def bit_simps)

lemma stride_acc:
  assumes "\<And>n. n < 7 \<Longrightarrow> bit m n = bit x n"
  shows "varint_acc (drop_bit 7 x) m = x"
  by (rule bit_eqI) (simp add: bit_varint_acc assms bit_drop_bit_eq)

lemma stride_bits:
  "n < 7 \<Longrightarrow> bit (0x80 OR (ucast x AND 0x7f) :: u8) n = bit (x :: u64) n"
  "n < 7 \<Longrightarrow> bit (ucast x AND 0x7f :: u8) n = bit (x :: u64) n"
  unfolding and_0x7f_mask bit_or_iff bit_and_iff bit_0x80 by (simp_all add: bit_simps)

declare varint_strides.simps [simp del]

lemma strides_value: "foldr (\<lambda>m out. varint_acc out m) (varint_strides x) 0 = x"
proof (induction x rule: varint_strides.induct)
  case (1 x)
  then show ?case by (subst varint_strides.simps) (simp add: stride_acc [OF stride_bits(1)])
qed

lemma varint_value: "foldl varint_acc 0 (rev (varint_tmp x)) = x"
  using strides_value [of "drop_bit 7 x"]
  by (simp add: foldl_conv_foldr varint_tmp_def stride_acc [OF stride_bits(2)])

lemma strides_continue: "\<forall>m \<in> set (varint_strides x). bit m 7"
proof (induction x rule: varint_strides.induct)
  case (1 x)
  then show ?case by (subst varint_strides.simps) (simp add: bit_simps bit_0x80)
qed

lemma strides_length: "unat x < 2 ^ (7 * k) \<Longrightarrow> length (varint_strides x) \<le> k"
proof (induction k arbitrary: x)
  case 0
  then have "x = 0" by (simp add: unat_eq_zero)
  then show ?case by (simp add: varint_strides.simps)
next
  case (Suc k)
  have "unat (drop_bit 7 x) < 2 ^ (7 * k)"
    using Suc.prems by (simp add: drop_bit_eq_div unat_div less_mult_imp_div_less power_add mult.commute)
  then show ?case using Suc.IH by (subst varint_strides.simps) simp
qed

lemma varint_tmp_length: "length (varint_tmp x) \<le> 10"
proof -
  have "unat (drop_bit 7 x) < 2 ^ (7 * 9)"
    using unat_u64_less [of x] by (simp add: drop_bit_eq_div unat_div less_mult_imp_div_less)
  then show ?thesis using strides_length [of "drop_bit 7 x" 9] by (simp add: varint_tmp_def)
qed

lemma pop_varint_loop_correct:
  "\<lbrakk>wf_buffer b; bytes_of b = xs @ m # rest; \<forall>y \<in> set xs. bit y 7; \<not> bit m 7\<rbrakk> \<Longrightarrow>
   \<exists>b'. pop_varint_loop b out = Some (foldl varint_acc out (xs @ [m]), b') \<and> wf_buffer b' \<and> bytes_of b' = rest"
proof (induction xs arbitrary: b out)
  case Nil
  then obtain b1 where "pop_u8 b = Some (m, b1)" "wf_buffer b1" "bytes_of b1 = rest"
    using pop_u8_correct [of b m rest] by auto
  then show ?case using Nil(4)
    by (subst pop_varint_loop.simps) (simp add: varint_acc_def and_0x80 Let_def)
next
  case (Cons y ys)
  then obtain b1 where b1: "pop_u8 b = Some (y, b1)" "wf_buffer b1" "bytes_of b1 = ys @ m # rest"
    using pop_u8_correct [of b y "ys @ m # rest"] by auto
  then show ?case using Cons.IH [OF b1(2,3), of "varint_acc out y"] Cons.prems(3,4)
    by (subst pop_varint_loop.simps) (simp add: varint_acc_def [of out y] and_0x80 Let_def)
qed

lemma pop_varint_tmp:
  assumes "wf_buffer b" "bytes_of b = rev (varint_tmp x) @ rest"
  shows "\<exists>b'. pop_varint b = Some (x, b') \<and> wf_buffer b' \<and> bytes_of b' = rest"
proof -
  have bytes: "bytes_of b = rev (varint_strides (drop_bit 7 x)) @ (ucast x AND 0x7f) # rest"
    using assms(2) by (simp add: varint_tmp_def)
  have "\<not> bit (ucast x AND 0x7f :: u8) 7" by (simp add: and_0x7f_mask bit_simps)
  then have "\<exists>b'. pop_varint b = Some (foldl varint_acc 0 (rev (varint_tmp x)), b') \<and> wf_buffer b' \<and> bytes_of b' = rest"
    using pop_varint_loop_correct [OF assms(1) bytes, of 0] strides_continue [of "drop_bit 7 x"]
    by (simp add: pop_varint_def varint_tmp_def)
  then show ?thesis unfolding varint_value .
qed

lemma push_varint_tmp:
  assumes "wf_buffer b" "roomy b (10 + n)"
  shows "\<exists>b'. push_varint b x = Some b' \<and> written b (rev (varint_tmp x)) b' \<and> roomy b' n"
proof -
  have "roomy b (length (rev (varint_tmp x)) + n)"
    using assms(2) varint_tmp_length [of x] by (auto simp: roomy_def)
  then show ?thesis using push_bytes_correct [OF assms(1), of "rev (varint_tmp x)" n] by (simp add: push_varint_def)
qed

section \<open>The buffer as a first-in first-out store\<close>

definition buffer_put :: "buffer \<Rightarrow> u8 list \<Rightarrow> buffer option" where
  "buffer_put b src = (case buffer_write b src of Some (True, b') \<Rightarrow> Some b' | _ \<Rightarrow> None)"

definition buffer_get :: "buffer \<Rightarrow> nat \<Rightarrow> (u8 list \<times> buffer) option" where
  "buffer_get b n =
     (if n < 2 ^ 64 then case buffer_read b (of_nat n) of Some (Inr r) \<Rightarrow> Some r | _ \<Rightarrow> None else None)"

interpretation bq: fifo_store wf_buffer bytes_of buffer_fits buffer_put buffer_get
proof unfold_locales
  fix q q' :: buffer and xs
  assume "wf_buffer q" "buffer_fits q (length xs)" "buffer_put q xs = Some q'"
  then show "wf_buffer q' \<and> bytes_of q' = bytes_of q @ xs"
    using buffer_write_correct [of q xs] by (auto simp: buffer_put_def written_def split: if_splits)
next
  fix q :: buffer and n
  assume q: "wf_buffer q" "n \<le> length (bytes_of q)"
  moreover have "n < 2 ^ 64" using q unat_buffer_length [OF q(1)] unat_u64_less [of "buffer_length q"] by simp
  ultimately show "\<exists>q'. buffer_get q n = Some (take n (bytes_of q), q') \<and> wf_buffer q' \<and> bytes_of q' = drop n (bytes_of q)"
    using buffer_read_correct [of q n] by (auto simp: buffer_get_def)
next
  fix q :: buffer and n
  assume "wf_buffer q" "length (bytes_of q) < n"
  then show "buffer_get q n = None" using buffer_read_correct [of q n] by (simp add: buffer_get_def)
qed

end
