(* ===== verification/Buffer_Search.thy ===== *)
theory Buffer_Search
  imports Buffer_Correct
begin

text \<open>
  Comparison, search and hashing of buffers, stated on the bytes of their windows, and the
  properties of the buffer component.
\<close>

section \<open>Single bytes\<close>

lemma byte_bytes: "wf_buffer b \<Longrightarrow> i < length (bytes_of b) \<Longrightarrow> byte b i = Some (bytes_of b ! i)"
  using wf_bufferD [of b] length_bytes_of [of b] by (auto simp: byte_def load_byte_def bytes_of_def)

lemma int_of_small:
  assumes "n < 2 ^ 31"
  shows "int_of (of_nat n) = int n"
proof -
  have "signed_take_bit 31 (int n) = int n" using assms by (intro signed_take_bit_int_eq_self) simp_all
  moreover have "take_bit 64 n = n" using assms by (intro take_bit_nat_eq_self) simp
  ultimately show ?thesis by (simp add: int_of_def unsigned_of_nat signed_of_nat)
qed

lemma buffer_length_of_nat: "wf_buffer b \<Longrightarrow> buffer_length b = of_nat (length (bytes_of b))"
  using unat_buffer_length [of b] unat_u64_less [of "buffer_length b"]
  by (simp add: word_unat_eq_iff unat_of_nat_u64)

lemma int_of_length:
  "wf_buffer b \<Longrightarrow> length (bytes_of b) < 2 ^ 31 \<Longrightarrow> int_of (buffer_length b) = int (length (bytes_of b))"
  by (simp only: int_of_small buffer_length_of_nat)

lemma of_nat_length_eq:
  "wf_buffer b \<Longrightarrow> n < 2 ^ 64 \<Longrightarrow> of_nat n = buffer_length b \<longleftrightarrow> n = length (bytes_of b)"
  using unat_buffer_length [of b] by (simp add: word_unat_eq_iff unat_of_nat_u64)

section \<open>Comparison\<close>

lemma compare_from_correct:
  "\<lbrakk>wf_buffer a; wf_buffer b; i + n = length (bytes_of a); length (bytes_of b) = length (bytes_of a)\<rbrakk> \<Longrightarrow>
   compare_from a b i n = Some (drop i (bytes_of a) = drop i (bytes_of b))"
proof (induction n arbitrary: i)
  case (Suc n)
  then have "drop i (bytes_of a) = bytes_of a ! i # drop (Suc i) (bytes_of a)"
    "drop i (bytes_of b) = bytes_of b ! i # drop (Suc i) (bytes_of b)"
    by (simp_all add: Cons_nth_drop_Suc)
  then show ?case using Suc by (simp add: byte_bytes)
qed simp

lemma buffer_compare_bytes:
  assumes "wf_buffer a" "wf_buffer b" "length (bytes_of a) < 2 ^ 31"
  shows "buffer_compare a b = Some (bytes_of a = bytes_of b)"
proof -
  have "word_of_int (int (length (bytes_of a))) = buffer_length b \<longleftrightarrow> length (bytes_of a) = length (bytes_of b)"
    using of_nat_length_eq [OF assms(2), of "length (bytes_of a)"] assms(3) by simp
  then show ?thesis
    using compare_from_correct [OF assms(1,2), of 0 "length (bytes_of a)"] int_of_length [OF assms(1,3)]
    by (auto simp: buffer_compare_def)
qed

lemma lt_from_correct:
  "\<lbrakk>wf_buffer a; wf_buffer b; i + n = length (bytes_of b); i \<le> length (bytes_of a)\<rbrakk> \<Longrightarrow>
   lt_from a b (int (length (bytes_of a))) i n = Some (ord_class.lexordp (drop i (bytes_of a)) (drop i (bytes_of b)))"
proof (induction n arbitrary: i)
  case (Suc n)
  have b: "drop i (bytes_of b) = bytes_of b ! i # drop (Suc i) (bytes_of b)"
    using Suc.prems by (simp add: Cons_nth_drop_Suc)
  show ?case
  proof (cases "i < length (bytes_of a)")
    case True
    then have "drop i (bytes_of a) = bytes_of a ! i # drop (Suc i) (bytes_of a)"
      by (simp add: Cons_nth_drop_Suc)
    then show ?thesis using True Suc b by (auto simp: byte_bytes)
  next
    case False
    then show ?thesis using b by simp
  qed
qed simp

lemma buffer_lt_bytes:
  assumes "wf_buffer a" "wf_buffer b" "length (bytes_of a) < 2 ^ 31" "length (bytes_of b) < 2 ^ 31"
  shows "buffer_lt a b = Some (ord_class.lexordp (bytes_of a) (bytes_of b))"
  using lt_from_correct [OF assms(1,2), of 0 "length (bytes_of b)"] int_of_length assms
  by (simp add: buffer_lt_def)

section \<open>Comparison with a string\<close>

definition apart :: "nat \<Rightarrow> u8 list \<Rightarrow> nat \<Rightarrow> u8 list \<Rightarrow> bool" where
  "apart pa xs pb ys \<longleftrightarrow> pa + length xs \<le> pb \<or> pb + length ys \<le> pa"

lemma memcmp_at_correct:
  assumes "apart pa xs pb ys" "i + n \<le> length xs" "n \<le> length ys"
  shows "\<exists>r. memcmp_at pa xs i pb ys n = Some r \<and> (r = 0 \<longleftrightarrow> take n (drop i xs) = take n ys)"
proof -
  have at: "memory_with pa xs pb ys (pa + i + k) = xs ! (i + k)" "memory_with pa xs pb ys (pb + k) = ys ! k"
    if "k < n" for k
    using assms that by (simp_all add: memory_with_def apart_def add.assoc) linarith
  have "mem_equal (memory_with pa xs pb ys) (pa + i) pb n \<longleftrightarrow> (\<forall>k < n. xs ! (i + k) = ys ! k)"
    by (simp add: mem_equal_def at)
  also have "\<dots> \<longleftrightarrow> take n (drop i xs) = take n ys"
    using assms(2,3) by (simp add: list_eq_iff_nth_eq)
  finally show ?thesis using assms(2,3) runtime_memcmp_equal by (auto simp: memcmp_at_def)
qed

lemma memcmp_at_bytes:
  assumes "wf_buffer b" "apart pa (b_contents b) pb ys" "i + n \<le> length (bytes_of b)" "n \<le> length ys"
  shows "\<exists>r. memcmp_at pa (b_contents b) (unat (b_start b) + i) pb ys n = Some r \<and>
    (r = 0 \<longleftrightarrow> take n (drop i (bytes_of b)) = take n ys)"
proof -
  note w = wf_bufferD [OF assms(1)] and l = length_bytes_of [OF assms(1)]
  have "take n (drop i (bytes_of b)) = take n (drop (unat (b_start b) + i) (b_contents b))"
  proof -
    have "n \<le> unat (b_end b) - unat (b_start b) - i" using assms(3) unfolding l by simp
    then show ?thesis by (simp add: bytes_of_def drop_take min_absorb1 add.commute)
  qed
  then show ?thesis using memcmp_at_correct [OF assms(2), of "unat (b_start b) + i" n] assms(3,4) l w by simp
qed

lemma buffer_memcmp_zero:
  assumes wf: "wf_buffer b" and apart: "apart pa (b_contents b) pb str" and n: "length str < 2 ^ 64"
  shows "\<exists>r. buffer_memcmp pa pb b str (of_nat (length str)) = Some r \<and>
    (r = 0 \<longleftrightarrow> length str \<le> length (bytes_of b) \<and> take (length str) (bytes_of b) = str)"
proof -
  let ?n = "min (length (bytes_of b)) (length str)"
  have m: "unat (min (buffer_length b) (of_nat (length str))) = ?n"
    using unat_buffer_length [OF wf] unat_of_nat_u64 [OF n] by (simp add: min_def word_le_nat_alt)
  have lt: "buffer_length b < of_nat (length str) \<longleftrightarrow> length (bytes_of b) < length str"
    using unat_buffer_length [OF wf] unat_of_nat_u64 [OF n] by (simp add: word_less_nat_alt)
  obtain r where r: "memcmp_at pa (b_contents b) (unat (b_start b)) pb str ?n = Some r"
      "r = 0 \<longleftrightarrow> take ?n (bytes_of b) = take ?n str"
    using memcmp_at_bytes [OF wf apart, of 0 ?n] by auto
  then show ?thesis using lt unfolding buffer_memcmp_def Let_def m ref_start [OF wf]
    by (auto simp: min_def)
qed

lemma buffer_compare_with_sstring_zero:
  assumes wf: "wf_buffer b" and apart: "apart pa (b_contents b) pb str" and n: "length str < 2 ^ 63"
  shows "\<exists>r. buffer_compare_with_sstring pa pb b str = Some r \<and> (r = 0 \<longleftrightarrow> bytes_of b = str \<or> bytes_of b = str @ [0])"
proof -
  have n': "length str < 2 ^ 64" and u: "unat (of_nat (length str) :: u64) = length str"
    "unat (of_nat (length str) + 1 :: u64) = length str + 1"
    using n unat_of_nat_u64 [of "length str"] unat_add_u64 [of "of_nat (length str)" 1] by simp_all
  obtain r where r: "buffer_memcmp pa pb b str (of_nat (length str)) = Some r"
      "r = 0 \<longleftrightarrow> length str \<le> length (bytes_of b) \<and> take (length str) (bytes_of b) = str"
    using buffer_memcmp_zero [OF wf apart n'] by blast
  have cmp: "buffer_length b > of_nat (length str) + 1 \<longleftrightarrow> length (bytes_of b) > length str + 1"
    "buffer_length b = of_nat (length str) + 1 \<longleftrightarrow> length (bytes_of b) = length str + 1"
    using u unat_buffer_length [OF wf] by (simp_all add: word_less_nat_alt word_unat_eq_iff)
  show ?thesis
  proof (cases "r = 0")
    case False
    then show ?thesis using r by (auto simp: buffer_compare_with_sstring_def Let_def)
  next
    case True
    then have t: "bytes_of b = str @ drop (length str) (bytes_of b)"
      using r(2) by (metis append_take_drop_id)
    consider "length (bytes_of b) = length str" | "length (bytes_of b) = length str + 1" | "length (bytes_of b) > length str + 1"
      using True r(2) by linarith
    then show ?thesis
    proof cases
      case 1
      then show ?thesis using r True t cmp by (auto simp: buffer_compare_with_sstring_def Let_def)
    next
      case 2
      then have "byte b (length str) = Some (bytes_of b ! length str)" "drop (length str) (bytes_of b) = [bytes_of b ! length str]"
        using byte_bytes [OF wf, of "length str"] Cons_nth_drop_Suc [of "length str" "bytes_of b"] by simp_all
      moreover from this(2) t have "bytes_of b = str @ [bytes_of b ! length str]" by simp
      ultimately show ?thesis using r True cmp 2 u(1)
        by (auto simp: buffer_compare_with_sstring_def Let_def)
    next
      case 3
      then have "length (bytes_of b) \<noteq> length str" "length (bytes_of b) \<noteq> length (str @ [0])" by simp_all
      then have "bytes_of b \<noteq> str" "bytes_of b \<noteq> str @ [0]" by metis+
      then show ?thesis using 3 r True cmp by (auto simp: buffer_compare_with_sstring_def Let_def)
    qed
  qed
qed

section \<open>Search\<close>

definition first_index :: "u8 list \<Rightarrow> u8 \<Rightarrow> int" where
  "first_index xs c = (if c \<in> set xs then int (length (takeWhile (\<lambda>x. x \<noteq> c) xs)) else - 1)"

definition last_index :: "u8 list \<Rightarrow> u8 \<Rightarrow> int" where
  "last_index xs c =
     (if c \<in> set xs then int (length xs - Suc (length (takeWhile (\<lambda>x. x \<noteq> c) (rev xs)))) else - 1)"

lemma strchr_from_correct:
  assumes "wf_buffer b" "length (bytes_of b) < 2 ^ 31"
  shows "i + n = length (bytes_of b) \<Longrightarrow> strchr_from b (uint c) i n =
    Some (if c \<in> set (drop i (bytes_of b)) then int i + first_index (drop i (bytes_of b)) c else - 1)"
proof (induction n arbitrary: i)
  case (Suc n)
  then have "drop i (bytes_of b) = bytes_of b ! i # drop (Suc i) (bytes_of b)" by (simp add: Cons_nth_drop_Suc)
  moreover have "int_of (of_nat i) = int i" using Suc.prems assms(2) int_of_small [of i] by simp
  ultimately show ?case using Suc assms(1)
    by (auto simp: byte_bytes first_index_def word_uint_eq_iff)
qed simp

lemma buffer_strchr_bytes:
  assumes "wf_buffer b" "length (bytes_of b) < 2 ^ 31"
  shows "buffer_strchr b (uint c) = Some (first_index (bytes_of b) c)"
  using strchr_from_correct [OF assms, of 0 "length (bytes_of b)" c] unat_buffer_length [OF assms(1)]
  by (simp add: buffer_strchr_def first_index_def)

lemma strrchr_down_correct:
  assumes "wf_buffer b" "length (bytes_of b) < 2 ^ 31"
  shows "n \<le> length (bytes_of b) \<Longrightarrow> strrchr_down b (uint c) n = Some (last_index (take n (bytes_of b)) c)"
proof (induction n)
  case (Suc n)
  then have "take (Suc n) (bytes_of b) = take n (bytes_of b) @ [bytes_of b ! n]" by (simp add: take_Suc_conv_app_nth)
  moreover have "int_of (of_nat n) = int n" using Suc.prems assms(2) int_of_small [of n] by simp
  ultimately show ?case using Suc assms(1)
    by (auto simp: byte_bytes last_index_def word_uint_eq_iff)
qed (simp add: last_index_def)

lemma sint_length_pred: "n < 2 ^ 31 \<Longrightarrow> sint (of_nat n - 1 :: u64) = int n - 1"
proof -
  assume n: "n < 2 ^ 31"
  have "(of_nat n - 1 :: u64) = word_of_int (int n - 1)" by simp
  moreover have "signed_take_bit 63 (int n - 1) = int n - 1"
    using n by (intro signed_take_bit_int_eq_self) simp_all
  ultimately show ?thesis by (simp only: signed_of_int) simp
qed

lemma buffer_strrchr_bytes:
  assumes "wf_buffer b" "length (bytes_of b) < 2 ^ 31"
  shows "buffer_strrchr b (uint c) = Some (last_index (bytes_of b) c)"
  using strrchr_down_correct [OF assms, of "length (bytes_of b)" c]
  by (simp only: buffer_strrchr_def buffer_length_of_nat [OF assms(1)] sint_length_pred [OF assms(2)]) simp

definition occurs_at :: "u8 list \<Rightarrow> u8 list \<Rightarrow> nat \<Rightarrow> bool" where
  "occurs_at str xs k \<longleftrightarrow> k + length str \<le> length xs \<and> take (length str) (drop k xs) = str"

definition first_occurrence :: "u8 list \<Rightarrow> u8 list \<Rightarrow> nat \<Rightarrow> int \<Rightarrow> bool" where
  "first_occurrence str xs i r \<longleftrightarrow>
     (if r = - 1 then \<forall>k \<ge> i. \<not> occurs_at str xs k
      else i \<le> nat r \<and> 0 \<le> r \<and> occurs_at str xs (nat r) \<and> (\<forall>k. i \<le> k \<and> k < nat r \<longrightarrow> \<not> occurs_at str xs k))"

lemma strstr_from_correct:
  assumes wf: "wf_buffer b" and apart: "apart pa (b_contents b) pb str"
  shows "i + n = length (bytes_of b) + 1 - length str \<or> n = 0 \<and> length (bytes_of b) < i + length str \<Longrightarrow>
    \<exists>r. strstr_from pa pb b str i n = Some r \<and> first_occurrence str (bytes_of b) i r"
proof (induction n arbitrary: i)
  case 0
  then have "length (bytes_of b) < i + length str" by auto
  then show ?case by (auto simp: first_occurrence_def occurs_at_def)
next
  case (Suc n)
  note w = wf_bufferD [OF wf] and l = length_bytes_of [OF wf]
  have i: "i + length str \<le> length (bytes_of b)" using Suc.prems by auto
  have u: "unat (b_start b + of_nat i) = unat (b_start b) + i"
    using i l w(1) unat_u64_less [of "b_end b"] unat_add_u64 [of "b_start b" "of_nat i"]
    by (simp add: unat_of_nat_u64)
  have ref: "buffer_ref b (of_nat i) = Some (b_start b + of_nat i)"
    using u i l w by (simp add: buffer_ref_def word_le_nat_alt)
  obtain r where r: "memcmp_at pa (b_contents b) (unat (b_start b) + i) pb str (length str) = Some r"
      "r = 0 \<longleftrightarrow> occurs_at str (bytes_of b) i"
    using memcmp_at_bytes [OF wf apart i] i by (auto simp: occurs_at_def)
  show ?case
  proof (cases "r = 0")
    case True
    then show ?thesis using r by (auto simp: ref u first_occurrence_def)
  next
    case False
    obtain r' where r': "strstr_from pa pb b str (Suc i) n = Some r'" "first_occurrence str (bytes_of b) (Suc i) r'"
      using Suc.IH [of "Suc i"] Suc.prems by auto
    have "first_occurrence str (bytes_of b) i r'"
      using r'(2) False r(2) unfolding first_occurrence_def by (metis Suc_leD Suc_leI le_neq_implies_less)
    then show ?thesis using r r'(1) False by (simp add: ref u)
  qed
qed

lemma buffer_strstr_bytes:
  assumes "wf_buffer b" "apart pa (b_contents b) pb str"
  shows "\<exists>r. buffer_strstr pa pb b str = Some r \<and> first_occurrence str (bytes_of b) 0 r"
proof -
  have "unat (b_end b) + 1 - (unat (b_start b) + length str) = length (bytes_of b) + 1 - length str"
    using wf_bufferD(1) [OF assms(1)] length_bytes_of [OF assms(1)] by simp
  then show ?thesis unfolding buffer_strstr_def using strstr_from_correct [OF assms, of 0] by simp
qed

section \<open>Base name\<close>

definition basename :: "u8 list \<Rightarrow> u8 list" where
  "basename s =
     (if length s \<le> 1 then s
      else let t = (if last s = 47 then butlast s else s) in
        if length t = 1 then t else rev (takeWhile (\<lambda>x. x \<noteq> 47) (rev t)))"

lemma drop_last_index:
  assumes "c \<in> set xs"
  shows "drop (nat (last_index xs c + 1)) xs = rev (takeWhile (\<lambda>x. x \<noteq> c) (rev xs))"
    "0 \<le> last_index xs c" "last_index xs c < int (length xs)"
    "last_index xs c = int (length xs) - 1 \<longleftrightarrow> last xs = c"
proof -
  let ?t = "length (takeWhile (\<lambda>x. x \<noteq> c) (rev xs))"
  have t: "?t < length xs"
  proof (rule ccontr)
    assume "\<not> ?t < length xs"
    then have "takeWhile (\<lambda>x. x \<noteq> c) (rev xs) = rev xs" by (subst takeWhile_eq_take) simp
    then show False using assms by (auto simp: takeWhile_eq_all_conv)
  qed
  have "rev (takeWhile (\<lambda>x. x \<noteq> c) (rev xs)) = drop (length xs - ?t) xs"
    by (subst takeWhile_eq_take) (simp add: rev_take)
  moreover have "nat (last_index xs c + 1) = length xs - ?t" using assms t by (simp add: last_index_def)
  ultimately show "drop (nat (last_index xs c + 1)) xs = rev (takeWhile (\<lambda>x. x \<noteq> c) (rev xs))" by simp
  show "0 \<le> last_index xs c" "last_index xs c < int (length xs)" using assms t by (auto simp: last_index_def)
  have "last xs = c \<longleftrightarrow> ?t = 0" using assms by (cases xs rule: rev_cases) auto
  then show "last_index xs c = int (length xs) - 1 \<longleftrightarrow> last xs = c" using assms t by (auto simp: last_index_def)
qed

lemma consume_after_slash:
  assumes "wf_buffer b" "(47 :: u8) \<in> set (bytes_of b)" "length (bytes_of b) < 2 ^ 31"
  shows "\<exists>b'. buffer_consume b (word_of_int (last_index (bytes_of b) 47 + 1)) = Some b' \<and> wf_buffer b' \<and>
    bytes_of b' = rev (takeWhile (\<lambda>x. x \<noteq> 47) (rev (bytes_of b)))"
proof -
  define k where "k = nat (last_index (bytes_of b) 47 + 1)"
  have k: "k \<le> length (bytes_of b)" "last_index (bytes_of b) 47 + 1 = int k"
    using drop_last_index(2,3) [OF assms(2)] by (auto simp: k_def)
  show ?thesis using consume_correct [OF assms(1) k(1)] drop_last_index(1) [OF assms(2)]
    by (simp add: k(2) k_def [symmetric])
qed

lemma last_index_absent: "c \<notin> set xs \<longleftrightarrow> last_index xs c = - 1"
  by (auto simp: last_index_def)

lemma takeWhile_absent: "c \<notin> set xs \<Longrightarrow> rev (takeWhile (\<lambda>x. x \<noteq> c) (rev xs)) = xs"
  by (subst takeWhile_eq_all_conv [THEN iffD2]) auto

lemma word_index_eq:
  assumes "0 \<le> k" "k < int n" "n < 2 ^ 31"
  shows "word_of_int k = (of_nat n - 1 :: u64) \<longleftrightarrow> k = int n - 1"
proof -
  have u: "uint (word_of_int j :: u64) = j" if "0 \<le> j" "j < 2 ^ 31" for j
    using that take_bit_int_eq_self [of j 64] by (simp add: uint_word_of_int_eq)
  have "uint (word_of_int k :: u64) = k" "uint (word_of_int (int n - 1) :: u64) = int n - 1"
    using assms by (intro u; simp)+
  moreover have "(of_nat n - 1 :: u64) = word_of_int (int n - 1)" by simp
  ultimately show ?thesis by (simp only: word_uint_eq_iff)
qed

lemma drop_last_byte:
  assumes wf: "wf_buffer b" and ne: "bytes_of b \<noteq> []"
  shows "wf_buffer (b\<lparr>b_end := b_end b - 1\<rparr>)" "bytes_of (b\<lparr>b_end := b_end b - 1\<rparr>) = butlast (bytes_of b)"
proof -
  note w = wf_bufferD [OF wf] and l = length_bytes_of [OF wf]
  have lt: "unat (b_start b) < unat (b_end b)" using ne l by (metis length_greater_0_conv zero_less_diff)
  then have e: "unat (b_end b - 1) = unat (b_end b) - 1" by (simp add: unat_sub word_le_nat_alt)
  then show "wf_buffer (b\<lparr>b_end := b_end b - 1\<rparr>)" using w lt by (simp add: wf_buffer_def word_le_nat_alt) linarith
  show "bytes_of (b\<lparr>b_end := b_end b - 1\<rparr>) = butlast (bytes_of b)"
    using w lt by (simp add: bytes_of_def e butlast_take)
qed

lemma basename_trailing_slash:
  assumes wf: "wf_buffer b" and small: "length (bytes_of b) < 2 ^ 31" and long: "1 < length (bytes_of b)"
  defines "b1 \<equiv> b\<lparr>b_end := b_end b - 1\<rparr>"
  shows "\<exists>b'. do { p1 \<leftarrow> buffer_strrchr b1 47;
      if p1 = - 1 \<or> buffer_length b1 = 1 then Some b1 else buffer_consume b1 (word_of_int (p1 + 1)) } = Some b' \<and>
    wf_buffer b' \<and> bytes_of b' = (let t = butlast (bytes_of b) in
      if length t = 1 then t else rev (takeWhile (\<lambda>x. x \<noteq> 47) (rev t)))"
proof -
  have ne: "bytes_of b \<noteq> []" using long by auto
  have b1: "wf_buffer b1" "bytes_of b1 = butlast (bytes_of b)" "length (bytes_of b1) < 2 ^ 31"
    using drop_last_byte [OF wf ne] small by (simp_all add: b1_def)
  have find: "buffer_strrchr b1 47 = Some (last_index (bytes_of b1) 47)"
    using buffer_strrchr_bytes [OF b1(1,3), of 47] by simp
  have one: "buffer_length b1 = 1 \<longleftrightarrow> length (bytes_of b1) = 1"
    using unat_buffer_length [OF b1(1)] by (auto simp: word_unat_eq_iff)
  show ?thesis
  proof (cases "last_index (bytes_of b1) 47 = - 1 \<or> length (bytes_of b1) = 1")
    case True
    then have "rev (takeWhile (\<lambda>x. x \<noteq> 47) (rev (bytes_of b1))) = bytes_of b1 \<or> length (bytes_of b1) = 1"
      using takeWhile_absent [of 47 "bytes_of b1"] last_index_absent [of 47 "bytes_of b1"] by blast
    then show ?thesis using True find one b1(1,2) by (auto simp: Let_def)
  next
    case False
    then have "(47 :: u8) \<in> set (bytes_of b1)" using last_index_absent by blast
    then show ?thesis using consume_after_slash [OF b1(1) _ b1(3)] False find one b1(2) by (auto simp: Let_def)
  qed
qed

lemma buffer_basename_bytes:
  assumes wf: "wf_buffer b" and small: "length (bytes_of b) < 2 ^ 31"
  shows "\<exists>b'. buffer_basename b = Some b' \<and> wf_buffer b' \<and> bytes_of b' = basename (bytes_of b)"
proof (cases "length (bytes_of b) \<le> 1")
  case True
  then have "buffer_length b \<le> 1" using unat_buffer_length [OF wf] by (simp add: word_le_nat_alt)
  then show ?thesis using True wf by (simp add: buffer_basename_def basename_def)
next
  case False
  then have long: "\<not> buffer_length b \<le> 1" "\<not> length (bytes_of b) \<le> 1" "1 < length (bytes_of b)"
    using unat_buffer_length [OF wf] by (simp_all add: word_le_nat_alt)
  have find: "buffer_strrchr b 47 = Some (last_index (bytes_of b) 47)"
    using buffer_strrchr_bytes [OF wf small, of 47] by simp
  show ?thesis
  proof (cases "(47 :: u8) \<in> set (bytes_of b)")
    case False
    then have "last (bytes_of b) \<noteq> 47" using long(2) by (metis last_in_set list.size(3) zero_le_one)
    moreover have "last_index (bytes_of b) 47 = - 1" using False last_index_absent by blast
    ultimately show ?thesis using wf long find takeWhile_absent [OF False]
      by (auto simp: buffer_basename_def basename_def)
  next
    case slash: True
    then have found: "last_index (bytes_of b) 47 \<noteq> - 1" using last_index_absent by blast
    have is_last: "word_of_int (last_index (bytes_of b) 47) = buffer_length b - 1 \<longleftrightarrow> last (bytes_of b) = 47"
      using word_index_eq [OF drop_last_index(2,3) [OF slash] small] drop_last_index(4) [OF slash]
      by (simp only: buffer_length_of_nat [OF wf])
    show ?thesis
      using consume_after_slash [OF wf slash small] basename_trailing_slash [OF wf small long(3)]
        long find found is_last
      by (cases "last (bytes_of b) = 47") (simp_all add: buffer_basename_def basename_def Let_def)
  qed
qed

section \<open>Hashing\<close>

lemma fnv64_from_correct:
  assumes "wf_buffer b"
  shows "i + n = length (bytes_of b) \<Longrightarrow> fnv64_from b hash i n =
    Some (foldl (\<lambda>hash x. (hash XOR ucast x) * 1099511628211) hash (drop i (bytes_of b)))"
proof (induction n arbitrary: i hash)
  case (Suc n)
  then have "drop i (bytes_of b) = bytes_of b ! i # drop (Suc i) (bytes_of b)" by (simp add: Cons_nth_drop_Suc)
  then show ?case using Suc assms by (simp add: byte_bytes)
qed simp

lemma fnv64_bytes:
  "wf_buffer b \<Longrightarrow> fnv64 b =
    Some (foldl (\<lambda>hash x. (hash XOR ucast x) * 1099511628211) 0xcbf29ce484222325 (bytes_of b))"
  using fnv64_from_correct [of b 0 "length (bytes_of b)"] unat_buffer_length [of b] by (simp add: fnv64_def)

section \<open>Comparison without case\<close>

definition lower :: "u8 \<Rightarrow> u8" where
  "lower x = (if 65 \<le> x \<and> x \<le> 90 then x + 32 else x)"

text \<open>Printable ASCII other than the commercial at, on which \<^verbatim>\<open>tolower\<close> is right.\<close>

definition plain_char :: "u8 \<Rightarrow> bool" where
  "plain_char x \<longleftrightarrow> 32 \<le> x \<and> x < 128 \<and> x \<noteq> 64"

lemma or_32: "\<forall>a \<in> {32..63 :: int}. a OR 32 = a" "\<forall>a \<in> {65..90 :: int}. a OR 32 = a + 32"
  by code_simp+

lemma tolower_plain:
  assumes "plain_char x"
  shows "tolower (uint x) = uint (lower x)" "tolower (sint x) = uint (lower x)"
proof -
  have r: "32 \<le> uint x" "uint x < 128" "uint x \<noteq> 64"
    using assms by (auto simp: plain_char_def word_le_def word_less_def word_uint_eq_iff)
  have s: "sint x = uint x"
    using r signed_take_bit_int_eq_self [of 7 "uint x"] by (simp add: signed_take_bit_int_eq_self sint_uint)
  have up: "65 \<le> x \<and> x \<le> 90 \<longleftrightarrow> 65 \<le> uint x \<and> uint x \<le> 90" by (simp add: word_le_def)
  have add: "uint (x + 32) = uint x + 32" using r by (simp add: uint_word_ariths)
  consider "uint x \<in> {32..63}" | "uint x \<in> {65..90}" | "91 \<le> uint x" using r by fastforce
  then show "tolower (uint x) = uint (lower x)"
    by cases (use r or_32 up add in \<open>auto simp: tolower_def isupper_def lower_def\<close>)
  then show "tolower (sint x) = uint (lower x)" by (simp only: s)
qed

lemma compare_ci_from_correct:
  assumes wf: "wf_buffer b" and plain: "\<forall>x \<in> set (bytes_of b) \<union> set str. plain_char x"
  shows "i + n \<le> length (bytes_of b) \<Longrightarrow> i + n \<le> length str \<Longrightarrow>
    \<exists>r. compare_ci_from b str i n = Some r \<and>
      (r = 0 \<longleftrightarrow> map lower (take n (drop i (bytes_of b))) = map lower (take n (drop i str)))"
proof (induction n arbitrary: i)
  case (Suc n)
  have d: "take (Suc n) (drop i xs) = xs ! i # take n (drop (Suc i) xs)" if "i < length xs" for xs :: "u8 list"
    using that by (simp add: Cons_nth_drop_Suc [symmetric])
  have p: "plain_char (bytes_of b ! i)" "plain_char (str ! i)" using plain Suc.prems by auto
  obtain r where r: "compare_ci_from b str (Suc i) n = Some r"
      "r = 0 \<longleftrightarrow> map lower (take n (drop (Suc i) (bytes_of b))) = map lower (take n (drop (Suc i) str))"
    using Suc.IH [of "Suc i"] Suc.prems by auto
  show ?case using Suc.prems r
    by (simp add: byte_bytes [OF wf] load_byte_def tolower_plain [OF p(1)] tolower_plain [OF p(2)] d
        Let_def word_uint_eq_iff [symmetric])
qed simp

lemma buffer_compare_ci_zero:
  assumes wf: "wf_buffer b" and n: "length str < 2 ^ 63"
    and plain: "\<forall>x \<in> set (bytes_of b) \<union> set str. plain_char x"
  shows "\<exists>r. buffer_compare_with_sstring_ci b str = Some r \<and> (r = 0 \<longleftrightarrow> map lower (bytes_of b) = map lower str)"
proof -
  let ?n = "min (length (bytes_of b)) (length str)"
  have u: "unat (of_nat (length str) :: u64) = length str" "unat (of_nat (length str) + 1 :: u64) = length str + 1"
    using n unat_of_nat_u64 [of "length str"] unat_add_u64 [of "of_nat (length str)" 1] by simp_all
  have m: "unat (min (buffer_length b) (of_nat (length str))) = ?n"
    using unat_buffer_length [OF wf] u by (simp add: min_def word_le_nat_alt)
  have cmp: "buffer_length b < of_nat (length str) \<longleftrightarrow> length (bytes_of b) < length str"
    "buffer_length b > of_nat (length str) + 1 \<longleftrightarrow> length (bytes_of b) > length str + 1"
    "buffer_length b = of_nat (length str) + 1 \<longleftrightarrow> length (bytes_of b) = length str + 1"
    using u unat_buffer_length [OF wf] by (simp_all add: word_less_nat_alt word_unat_eq_iff)
  obtain r where r: "compare_ci_from b str 0 ?n = Some r"
      "r = 0 \<longleftrightarrow> map lower (take ?n (bytes_of b)) = map lower (take ?n str)"
    using compare_ci_from_correct [OF wf plain, of 0 ?n] by auto
  have eq: "map lower (bytes_of b) = map lower str \<longleftrightarrow> r = 0 \<and> length (bytes_of b) = length str"
    using r(2) by (metis length_map min.idem take_all order_refl)
  have "byte b (length str) = Some (bytes_of b ! length str)" "plain_char (bytes_of b ! length str)"
    if "length (bytes_of b) = length str + 1"
    using byte_bytes [OF wf, of "length str"] plain that by auto
  moreover have "\<not> plain_char 0" by (simp add: plain_char_def)
  ultimately show ?thesis using r(1) cmp eq u(1)
    unfolding buffer_compare_with_sstring_ci_def Let_def m
    by (cases "r = 0"; cases "length (bytes_of b) = length str + 1") auto
qed

section \<open>The contract of the component\<close>

definition sample_heap :: heap where
  "sample_heap n = Some (replicate (unat n) 0)"

definition sample_buffer :: buffer where
  "sample_buffer = \<lparr>b_start = 1, b_end = 5, b_length = 6, b_wrapped = False, b_h = sample_heap,
     b_contents = [0, 65, 47, 66, 67, 0]\<rparr>"

definition other_buffer :: buffer where
  "other_buffer = \<lparr>b_start = 0, b_end = 2, b_length = 2, b_wrapped = True, b_h = sample_heap,
     b_contents = [66, 67]\<rparr>"

lemma sample_buffer_wf: "wf_buffer sample_buffer" "wf_buffer other_buffer"
  by (simp_all add: wf_buffer_def heap_ok_def sample_buffer_def other_buffer_def sample_heap_def)

lemma sample_buffer_bytes: "bytes_of sample_buffer = [65, 47, 66, 67]" "bytes_of other_buffer = [66, 67]"
  by (simp_all add: bytes_of_def sample_buffer_def other_buffer_def)

lemma sample_buffer_roomy: "n < 100 \<Longrightarrow> roomy sample_buffer n"
  by (simp add: roomy_def sample_buffer_bytes) (simp add: sample_buffer_def sample_heap_def)

text \<open>
  Property C14. \<^verbatim>\<open>buffer_write\<close> appends the source to the bytes of the buffer when
  \<^verbatim>\<open>buffer_extend\<close> finds room, by growing, by moving the window or because there is space, and
  otherwise reports false with the buffer unchanged; \<^verbatim>\<open>buffer_read\<close> returns the first bytes and removes
  them, or reports false. No assertion fails and no access leaves the allocated area.
\<close>

theorem buffer_write_read_correct:
  assumes "wf_buffer b" "buffer_fits b (length src)" "n < 2 ^ 64"
  shows "(\<exists>b'. buffer_write b src = Some (buffer_room b (length src), b') \<and> wf_buffer b' \<and>
      bytes_of b' = (if buffer_room b (length src) then bytes_of b @ src else bytes_of b)) \<and>
    (if length (bytes_of b) < n then buffer_read b (of_nat n) = Some (Inl b)
     else \<exists>b'. buffer_read b (of_nat n) = Some (Inr (take n (bytes_of b), b')) \<and> wf_buffer b' \<and>
       bytes_of b' = drop n (bytes_of b))"
  using buffer_write_correct [OF assms(1,2)] buffer_read_correct [OF assms(1,3)] assms(1)
  by (auto simp: written_def)

theorem buffer_write_read_correct_witness:
  "\<exists>b1 b2. buffer_write sample_buffer [1, 2, 3] = Some (True, b1) \<and> bytes_of b1 = [65, 47, 66, 67, 1, 2, 3] \<and>
     buffer_read sample_buffer (of_nat 3) = Some (Inr ([65, 47, 66], b2)) \<and> bytes_of b2 = [67]"
proof -
  have "buffer_room sample_buffer 3" "buffer_fits sample_buffer 3"
    using sample_buffer_roomy [of 3] roomy_room [of sample_buffer 3 3] by simp_all
  then show ?thesis
    using buffer_write_read_correct [OF sample_buffer_wf(1), of "[1, 2, 3]" 3] by (auto simp: sample_buffer_bytes numeral_3_eq_3)
qed

text \<open>
  Property C15. In every history of writes and reads on a buffer the bytes that come out are the bytes
  that went in, in the same order: the initial content followed by the accepted writes is the
  output followed by the final content, and the buffer stays well-formed.
\<close>

theorem buffer_history_correct:
  assumes "wf_buffer b" "bq.run b ops = Some (b', accepted, out)"
  shows "wf_buffer b' \<and> bytes_of b @ accepted = out @ bytes_of b'"
  using assms by (rule bq.run_conserves)

theorem buffer_history_correct_witness:
  "\<exists>b'. bq.run other_buffer [Get 1, Put [7], Get 1] = Some (b', [], [66, 67]) \<and> bytes_of b' = []"
proof -
  have fits: "buffer_fits (other_buffer\<lparr>b_start := 1\<rparr>) 1"
    by (simp add: buffer_fits_def other_buffer_def)
  have "bq.run other_buffer [Get 1, Put [7], Get 1] = Some (other_buffer\<lparr>b_start := 2\<rparr>, [], [66, 67])"
    by (simp add: buffer_get_def buffer_put_def buffer_read_def buffer_write_def buffer_extend_def
        buffer_set_capacity_def buffer_is_wrapped_def buffer_consume_def buffer_ref_def buffer_length_def
        peek_def other_buffer_def buffer_fits_def Let_def)
  then show ?thesis
    using buffer_history_correct [OF sample_buffer_wf(2), of "[Get 1, Put [7], Get 1]"]
    by (fastforce simp: sample_buffer_bytes)
qed

text \<open>
  Property C16. The integers written with \<^verbatim>\<open>buffer_write_le16\<close> to \<^verbatim>\<open>buffer_write_be64\<close> are read
  back by the reader of the same width and order from any buffer that starts with the bytes that were written.
\<close>

theorem buffer_endian_round_trip:
  assumes "wf_buffer b" "roomy b 8" "wf_buffer c"
  shows "(\<exists>b'. buffer_write_le16 b x = Some (True, b') \<and> written b (le_bytes 2 x) b') \<and>
    (\<exists>b'. buffer_write_le32 b y = Some (True, b') \<and> written b (le_bytes 4 y) b') \<and>
    (\<exists>b'. buffer_write_le64 b z = Some (True, b') \<and> written b (le_bytes 8 z) b') \<and>
    (\<exists>b'. buffer_write_be16 b x = Some (True, b') \<and> written b (be_bytes 2 x) b') \<and>
    (\<exists>b'. buffer_write_be32 b y = Some (True, b') \<and> written b (be_bytes 4 y) b') \<and>
    (\<exists>b'. buffer_write_be64 b z = Some (True, b') \<and> written b (be_bytes 8 z) b') \<and>
    (bytes_of c = le_bytes 2 x @ rest \<longrightarrow> (\<exists>c'. buffer_read_le16 c = Some (x, c') \<and> bytes_of c' = rest)) \<and>
    (bytes_of c = le_bytes 4 y @ rest \<longrightarrow> (\<exists>c'. buffer_read_le32 c = Some (y, c') \<and> bytes_of c' = rest)) \<and>
    (bytes_of c = le_bytes 8 z @ rest \<longrightarrow> (\<exists>c'. buffer_read_le64 c = Some (z, c') \<and> bytes_of c' = rest)) \<and>
    (bytes_of c = be_bytes 2 x @ rest \<longrightarrow> (\<exists>c'. buffer_read_be16 c = Some (x, c') \<and> bytes_of c' = rest)) \<and>
    (bytes_of c = be_bytes 4 y @ rest \<longrightarrow> (\<exists>c'. buffer_read_be32 c = Some (y, c') \<and> bytes_of c' = rest)) \<and>
    (bytes_of c = be_bytes 8 z @ rest \<longrightarrow> (\<exists>c'. buffer_read_be64 c = Some (z, c') \<and> bytes_of c' = rest))"
proof -
  have w: "\<exists>b'. buf_write_endian b xs = Some (True, b') \<and> written b xs b'" if "length xs \<le> 8" for xs
  proof -
    have "roomy b (length xs + 0)" using assms(2) that by (auto simp: roomy_def)
    then show ?thesis using buf_write_endian_correct [OF assms(1)] by blast
  qed
  have r: "\<exists>c'. buf_read_endian c n = Some (xs, c') \<and> bytes_of c' = rest"
    if "bytes_of c = xs @ rest" "length xs = n" for xs n
    using buf_read_endian_correct [OF assms(3) that(1)] that(2) by blast
  show ?thesis
    by (intro conjI impI)
      (simp_all add: buffer_write_le16_def buffer_write_le32_def buffer_write_le64_def
        buffer_write_be16_def buffer_write_be32_def buffer_write_be64_def w,
       (drule r, simp, force simp: buffer_read_le16_def buffer_read_le32_def buffer_read_le64_def
         buffer_read_be16_def buffer_read_be32_def buffer_read_be64_def)+)
qed

theorem buffer_endian_round_trip_witness:
  "\<exists>b' c'. buffer_write_be16 sample_buffer 0x1234 = Some (True, b') \<and> written sample_buffer [0x12, 0x34] b' \<and>
     buffer_read_le16 other_buffer = Some (0x4342, c')"
proof -
  have "le_bytes 2 (0x4342 :: u16) = [66, 67]" "be_bytes 2 (0x1234 :: u16) = [0x12, 0x34]"
    by (code_simp)+
  then show ?thesis
    using buffer_endian_round_trip [OF sample_buffer_wf(1) sample_buffer_roomy sample_buffer_wf(2), of "0x1234" 0 0 "[]"]
      buffer_endian_round_trip [OF sample_buffer_wf(1) sample_buffer_roomy sample_buffer_wf(2), of "0x4342" 0 0 "[]"]
    by (auto simp: sample_buffer_bytes)
qed

text \<open>
  Property C17. \<^verbatim>\<open>push_varint\<close> writes at most ten bytes, so it stays within its array
  \<^verbatim>\<open>tmp\<close>, and \<^verbatim>\<open>pop_varint\<close> returns and gives the value back from any buffer that starts with these bytes.
\<close>

theorem varint_round_trip:
  assumes "wf_buffer b" "roomy b (10 + n)"
  shows "\<exists>b' repr. push_varint b x = Some b' \<and> written b repr b' \<and> roomy b' n \<and> length repr \<le> 10 \<and>
    (\<forall>c rest. wf_buffer c \<and> bytes_of c = repr @ rest \<longrightarrow>
       (\<exists>c'. pop_varint c = Some (x, c') \<and> wf_buffer c' \<and> bytes_of c' = rest))"
proof -
  obtain b' where "push_varint b x = Some b'" "written b (rev (varint_tmp x)) b'" "roomy b' n"
    using push_varint_tmp [OF assms] by blast
  then show ?thesis using varint_tmp_length [of x] pop_varint_tmp by (metis length_rev)
qed

theorem varint_round_trip_witness:
  "\<exists>b' repr. push_varint sample_buffer 300 = Some b' \<and> written sample_buffer repr b' \<and> length repr \<le> 10 \<and>
     (\<forall>c rest. wf_buffer c \<and> bytes_of c = repr @ rest \<longrightarrow> (\<exists>c'. pop_varint c = Some (300, c')))"
  using varint_round_trip [OF sample_buffer_wf(1) sample_buffer_roomy, of 5 300] by (simp, blast)





end
