(* ===== verification/Vector.thy ===== *)
theory Vector
  imports Buffer_Search
begin

text \<open>
  The vectors of \<^verbatim>\<open>kernel/src/runtime/vector.h\<close>: buffers whose window holds 64-bit pointers. The
  abstract value of a vector is the list of its pointers; every operation is shown to act on this
  list. The offsets are of type \<^verbatim>\<open>int\<close> in the code and 32-bit words here.
\<close>

section \<open>Operations\<close>

text \<open>A pointer-sized access to the area of the buffer.\<close>

definition load_ptr :: "u8 list \<Rightarrow> u64 \<Rightarrow> u64 option" where
  "load_ptr xs p = do { bs \<leftarrow> peek xs (unat p) 8; Some (le_word bs) }"

definition store_ptr :: "u8 list \<Rightarrow> u64 \<Rightarrow> u64 \<Rightarrow> u8 list option" where
  "store_ptr xs p w = poke xs (unat p) (le_bytes 8 w)"

definition vector_get :: "buffer \<Rightarrow> 32 word \<Rightarrow> u64 option" where
  "vector_get v offset =
     (let boffset = (scast offset :: u64) * 8 in
      if sint offset < 0 \<or> boffset + 8 > buffer_length v then Some 0
      else do { p \<leftarrow> buffer_ref v boffset; load_ptr (b_contents v) p })"

text \<open>The product is of type \<^verbatim>\<open>size_t\<close> and is converted to the \<^verbatim>\<open>int\<close> parameter of \<^verbatim>\<open>extend_total\<close>.\<close>

definition vector_set :: "buffer \<Rightarrow> 32 word \<Rightarrow> u64 \<Rightarrow> (bool \<times> buffer) option" where
  "vector_set v offset value =
     do { (ok, v') \<leftarrow> extend_total v (ucast ((scast (offset + 1) :: u64) * 8));
          if \<not> ok then Some (False, v')
          else do {
            contents \<leftarrow> store_ptr (b_contents v') (b_start v' + scast offset * 8) value;
            Some (True, v'\<lparr>b_contents := contents\<rparr>) } }"

definition vector_length :: "buffer \<Rightarrow> 32 word" where
  "vector_length v = ucast (buffer_length v div 8)"

definition vector_clear :: "buffer \<Rightarrow> buffer" where
  "vector_clear v = v\<lparr>b_start := 0, b_end := 0\<rparr>"

text \<open>The loop of \<^verbatim>\<open>vector_delete\<close> moves each later pointer one place down.\<close>

fun delete_shift :: "u8 list \<Rightarrow> u64 \<Rightarrow> nat \<Rightarrow> nat \<Rightarrow> u8 list option" where
  "delete_shift xs start offset 0 = Some xs"
| "delete_shift xs start offset (Suc n) =
     (let base = start + of_nat offset * 8 in
      do { bs \<leftarrow> peek xs (unat base + 8) 8;
           xs' \<leftarrow> poke xs (unat base) bs;
           delete_shift xs' start (Suc offset) n })"

definition vector_delete :: "buffer \<Rightarrow> nat \<Rightarrow> (u64 \<times> buffer) option" where
  "vector_delete v offset =
     (let base = b_start v + of_nat offset * 8 in
      if base + 8 > b_end v then Some (0, v)
      else do {
        res \<leftarrow> load_ptr (b_contents v) base;
        let len = sint (vector_length v);
        contents \<leftarrow> delete_shift (b_contents v) (b_start v) offset (nat (len - 1 - int offset));
        Some (res, v\<lparr>b_contents := contents, b_end := b_end v - 8\<rparr>) })"

definition vector_delete_range :: "buffer \<Rightarrow> nat \<Rightarrow> nat \<Rightarrow> (u64 \<times> buffer) option" where
  "vector_delete_range v start end0 =
     (let start_offset = b_start v + of_nat start * 8;
          end_offset = min (b_start v + of_nat end0 * 8) (b_end v)
      in if end_offset \<le> start_offset then Some (0, v)
         else do {
           contents \<leftarrow> (if end_offset < b_end v then do {
                bs \<leftarrow> peek (b_contents v) (unat end_offset) (unat (b_end v - end_offset));
                poke (b_contents v) (unat start_offset) bs }
              else Some (b_contents v));
           Some ((end_offset - start_offset) div 8,
             v\<lparr>b_contents := contents, b_end := b_end v - (end_offset - start_offset)\<rparr>) })"

definition allocate_vector :: "heap \<Rightarrow> nat \<Rightarrow> buffer option" where
  "allocate_vector h len = allocate_buffer h (of_nat len * 8)"

definition vector_push :: "buffer \<Rightarrow> u64 \<Rightarrow> buffer option" where
  "vector_push v i =
     do { (ok, v') \<leftarrow> buffer_extend v 8;
          assert_ok ok;
          contents \<leftarrow> store_ptr (b_contents v') (b_end v') i;
          Some (v'\<lparr>b_contents := contents, b_end := b_end v' + 8\<rparr>) }"

definition vector_peek :: "buffer \<Rightarrow> u64 option" where
  "vector_peek v =
     (if b_end v - b_start v < 8 then Some 0 else load_ptr (b_contents v) (b_end v - 8))"

definition vector_pop :: "buffer \<Rightarrow> (u64 \<times> buffer) option" where
  "vector_pop v =
     (if b_end v - b_start v < 8 then Some (0, v)
      else
        let v' = v\<lparr>b_end := b_end v - 8\<rparr> in
        do { w \<leftarrow> load_ptr (b_contents v') (b_end v'); Some (w, v') })"

definition vector_consume :: "buffer \<Rightarrow> nat \<Rightarrow> buffer option" where
  "vector_consume v n = buffer_consume v (of_nat n * 8)"

text \<open>\<^verbatim>\<open>vector_foreach\<close> with the pointers it visits.\<close>

fun foreach_ptr :: "buffer \<Rightarrow> nat \<Rightarrow> nat \<Rightarrow> u64 list option" where
  "foreach_ptr v i 0 = Some []"
| "foreach_ptr v i (Suc n) =
     do { w \<leftarrow> vector_get v (of_nat i); ws \<leftarrow> foreach_ptr v (Suc i) n; Some (w # ws) }"

definition vector_foreach :: "buffer \<Rightarrow> u64 list option" where
  "vector_foreach v = foreach_ptr v 0 (unat (vector_length v))"

definition bitvector_set :: "buffer \<Rightarrow> 32 word \<Rightarrow> buffer option" where
  "bitvector_set b position =
     do { (ok, b') \<leftarrow> extend_total b (drop_bit 3 (((position - 1) AND NOT 7) + 8));
          assert_ok ok;
          let i = unat (drop_bit 3 position);
          x \<leftarrow> load_byte (b_contents b') i;
          contents \<leftarrow> poke (b_contents b') i [x OR push_bit (unat (position AND 7)) 1];
          Some (b'\<lparr>b_contents := contents\<rparr>) }"

section \<open>Lists of pointers as bytes\<close>

definition flat :: "u64 list \<Rightarrow> u8 list" where
  "flat ws = concat (map (le_bytes 8) ws)"

lemma flat_simps [simp]:
  "flat [] = []" "flat (w # ws) = le_bytes 8 w @ flat ws" "flat (ws @ vs) = flat ws @ flat vs"
  by (simp_all add: flat_def del: le_bytes.simps)

lemma length_flat [simp]: "length (flat ws) = 8 * length ws"
  by (induction ws) (simp_all del: le_bytes.simps)

lemma take_flat: "take (8 * i) (flat ws) = flat (take i ws)"
proof (induction ws arbitrary: i)
  case (Cons w ws)
  then show ?case by (cases i) (simp_all del: le_bytes.simps)
qed simp

lemma drop_flat: "drop (8 * i) (flat ws) = flat (drop i ws)"
proof (induction ws arbitrary: i)
  case (Cons w ws)
  then show ?case by (cases i) (simp_all del: le_bytes.simps)
qed simp

lemma flat_nth: "i < length ws \<Longrightarrow> take 8 (drop (8 * i) (flat ws)) = le_bytes 8 (ws ! i)"
  by (simp add: drop_flat Cons_nth_drop_Suc [symmetric] del: le_bytes.simps)

lemma flat_update: "i < length ws \<Longrightarrow> flat (ws[i := w]) = take (8 * i) (flat ws) @ le_bytes 8 w @ drop (8 * Suc i) (flat ws)"
  using drop_flat [of "Suc i" ws]
  by (simp add: take_flat upd_conv_take_nth_drop del: le_bytes.simps)

text \<open>The abstract value.\<close>

definition vec :: "buffer \<Rightarrow> u64 list \<Rightarrow> bool" where
  "vec v ws \<longleftrightarrow> wf_buffer v \<and> bytes_of v = flat ws"

lemma vec_length: "vec v ws \<Longrightarrow> unat (b_end v) - unat (b_start v) = 8 * length ws"
  using length_bytes_of [of v] by (auto simp: vec_def)

lemma load_window:
  assumes "wf_buffer b" "k + n \<le> length (bytes_of b)"
  shows "peek (b_contents b) (unat (b_start b) + k) n = Some (take n (drop k (bytes_of b)))"
proof -
  note w = wf_bufferD [OF assms(1)] and l = length_bytes_of [OF assms(1)]
  have "n \<le> unat (b_end b) - unat (b_start b) - k" using assms(2) unfolding l by simp
  then show ?thesis using assms(2) l w by (simp add: peek_def bytes_of_def drop_take min_absorb1 add.commute)
qed

lemma store_window:
  assumes wf: "wf_buffer b" and le: "k + length ys \<le> length (bytes_of b)"
  obtains c where "poke (b_contents b) (unat (b_start b) + k) ys = Some c" "wf_buffer (b\<lparr>b_contents := c\<rparr>)"
    "bytes_of (b\<lparr>b_contents := c\<rparr>) = take k (bytes_of b) @ ys @ drop (k + length ys) (bytes_of b)"
    "length c = length (b_contents b)"
proof -
  note w = wf_bufferD [OF wf] and l = length_bytes_of [OF wf]
  let ?s = "unat (b_start b)" and ?e = "unat (b_end b)" and ?xs = "b_contents b"
  let ?c = "take (?s + k) ?xs @ ys @ drop (?s + k + length ys) ?xs"
  have fits: "?s + k + length ys \<le> ?e" using le l w(1) by simp
  then have poke: "poke ?xs (?s + k) ys = Some ?c" using w by (simp add: poke_def add.assoc)
  have "bytes_of (b\<lparr>b_contents := ?c\<rparr>) =
      take k (drop ?s ?xs) @ ys @ take (?e - ?s - (k + length ys)) (drop (?s + k + length ys) ?xs)"
    using fits w by (simp add: bytes_of_def drop_take ac_simps)
  moreover have "take k (bytes_of b) = take k (drop ?s ?xs)" using fits by (simp add: bytes_of_def min_absorb1)
  moreover have "drop (k + length ys) (bytes_of b) = take (?e - ?s - (k + length ys)) (drop (?s + k + length ys) ?xs)"
    by (simp add: bytes_of_def drop_take add.commute add.left_commute)
  moreover have "wf_buffer (b\<lparr>b_contents := ?c\<rparr>)" using wf poke_length [OF poke] by (simp add: wf_buffer_def)
  ultimately show ?thesis using that poke poke_length [OF poke] by simp
qed

lemma scast_of_nat_u32: "n < 2 ^ 31 \<Longrightarrow> (scast (of_nat n :: 32 word) :: u64) = of_nat n"
proof -
  assume n: "n < 2 ^ 31"
  have "sint (of_nat n :: 32 word) = int n"
    using n signed_take_bit_int_eq_self [of 31 "int n"] by (simp add: signed_of_nat)
  then show ?thesis by (simp add: scast_eq)
qed

lemma ucast_of_nat_u32: "n < 2 ^ 32 \<Longrightarrow> (ucast (of_nat n :: u64) :: 32 word) = of_nat n"
  by (simp add: unsigned_of_nat take_bit_eq_mod)

lemma sint_of_nat_u32: "n < 2 ^ 31 \<Longrightarrow> sint (of_nat n :: 32 word) = int n"
  using signed_take_bit_int_eq_self [of 31 "int n"] by (simp add: signed_of_nat)

section \<open>Access\<close>

lemma vector_get_vec:
  assumes vec: "vec v ws" and i: "i < 2 ^ 31"
  shows "vector_get v (of_nat i) = Some (if i < length ws then ws ! i else 0)"
proof -
  have wf: "wf_buffer v" and bytes: "bytes_of v = flat ws" using vec by (simp_all add: vec_def)
  note w = wf_bufferD [OF wf] and l = length_bytes_of [OF wf] and cast = scast_of_nat_u32 [OF i]
  have off: "unat ((of_nat i :: u64) * 8) = 8 * i" "unat ((of_nat i :: u64) * 8 + 8) = 8 * i + 8"
    using i by (simp_all add: unat_word_ariths unat_of_nat take_bit_eq_mod)
  have cond: "(of_nat i :: u64) * 8 + 8 > buffer_length v \<longleftrightarrow> \<not> i < length ws"
    using unat_buffer_length [OF wf] bytes off by (auto simp: word_less_nat_alt)
  show ?thesis
  proof (cases "i < length ws")
    case False
    then show ?thesis using cond by (simp add: vector_get_def Let_def cast)
  next
    case True
    have u: "unat (b_start v + of_nat i * 8) = unat (b_start v) + 8 * i"
      using True off l bytes w(1) unat_u64_less [of "b_end v"] unat_add_u64 [of "b_start v" "of_nat i * 8"] by simp
    have "buffer_ref v (of_nat i * 8) = Some (b_start v + of_nat i * 8)"
      using True u l bytes w by (simp add: buffer_ref_def word_le_nat_alt)
    moreover have "peek (b_contents v) (unat (b_start v) + 8 * i) 8 = Some (le_bytes 8 (ws ! i))"
      using load_window [OF wf, of "8 * i" 8] True bytes flat_nth [OF True] by simp
    ultimately show ?thesis using True cond
      by (simp add: vector_get_def Let_def cast load_ptr_def u sint_of_nat_u32 [OF i] del: le_bytes.simps)
  qed
qed

lemma vector_length_vec:
  assumes vec: "vec v ws" and n: "length ws < 2 ^ 31"
  shows "vector_length v = of_nat (length ws)" "unat (vector_length v) = length ws" "sint (vector_length v) = int (length ws)"
proof -
  have "unat (buffer_length v) = 8 * length ws" using vec unat_buffer_length [of v] by (simp add: vec_def)
  then have "unat (buffer_length v div 8) = length ws" by (simp add: unat_div)
  then have "buffer_length v div 8 = of_nat (length ws)" using n by (simp add: word_unat_eq_iff unat_of_nat_u64)
  then show len: "vector_length v = of_nat (length ws)"
    using n by (simp add: vector_length_def unsigned_of_nat take_bit_eq_mod)
  show "unat (vector_length v) = length ws" using n by (simp add: len unat_of_nat take_bit_eq_mod)
  show "sint (vector_length v) = int (length ws)" using n by (simp add: len sint_of_nat_u32)
qed

lemma vector_push_vec:
  assumes "vec v ws" "roomy v (8 + n)"
  shows "\<exists>v'. vector_push v x = Some v' \<and> vec v' (ws @ [x]) \<and> roomy v' n \<and> (b_start v = 0 \<longrightarrow> b_start v' = 0)"
proof -
  have wf: "wf_buffer v" and bytes: "bytes_of v = flat ws" using assms(1) by (simp_all add: vec_def)
  have "roomy v (length (le_bytes 8 x) + n)" using assms(2) by simp
  then obtain b1 c where b1: "buffer_extend v (of_nat (length (le_bytes 8 x))) = Some (True, b1)"
    "poke (b_contents b1) (unat (b_end b1)) (le_bytes 8 x) = Some c"
    "written v (le_bytes 8 x) (b1\<lparr>b_contents := c, b_end := b_end b1 + of_nat (length (le_bytes 8 x))\<rparr>)"
    "roomy (b1\<lparr>b_contents := c, b_end := b_end b1 + of_nat (length (le_bytes 8 x))\<rparr>) n"
    using append_repr [OF wf] by blast
  have "b_start v = 0 \<longrightarrow> b_start b1 = 0"
    using buffer_extend_correct [OF wf, of 8] roomy_room [OF assms(2), of 8] b1(1) by (auto simp: extended_def)
  then show ?thesis using b1 bytes
    by (simp add: vector_push_def store_ptr_def vec_def written_def del: le_bytes.simps)
qed

lemma window_short: "wf_buffer v \<Longrightarrow> b_end v - b_start v < 8 \<longleftrightarrow> length (bytes_of v) < 8"
  using unat_buffer_length [of v] by (simp add: buffer_length_def word_less_nat_alt)

lemma vector_pop_empty: "vec v [] \<Longrightarrow> vector_pop v = Some (0, v) \<and> vector_peek v = Some 0"
  using window_short [of v] by (simp add: vector_pop_def vector_peek_def vec_def)

lemma vector_pop_vec:
  assumes "vec v (ws @ [x])"
  shows "\<exists>v'. vector_pop v = Some (x, v') \<and> vec v' ws \<and> b_start v' = b_start v \<and> b_contents v' = b_contents v"
    "vector_peek v = Some x"
proof -
  have wf: "wf_buffer v" and bytes: "bytes_of v = flat ws @ le_bytes 8 x"
    using assms by (simp_all add: vec_def del: le_bytes.simps)
  note w = wf_bufferD [OF wf] and l = length_bytes_of [OF wf]
  have len: "unat (b_end v) = unat (b_start v) + 8 * length ws + 8" using l bytes w(1) by simp
  then have e: "unat (b_end v - 8) = unat (b_start v) + 8 * length ws"
    by (simp add: unat_sub word_le_nat_alt)
  let ?v = "v\<lparr>b_end := b_end v - 8\<rparr>"
  have "load_ptr (b_contents v) (b_end v - 8) = Some x"
    using load_window [OF wf, of "8 * length ws" 8] bytes by (simp add: load_ptr_def e del: le_bytes.simps)
  moreover have "\<not> b_end v - b_start v < 8" using window_short [OF wf] bytes by simp
  moreover have "wf_buffer ?v" using w len e by (simp add: wf_buffer_def word_le_nat_alt)
  moreover have "bytes_of ?v = flat ws"
  proof -
    have "bytes_of ?v = take (8 * length ws) (bytes_of v)" using e len by (simp add: bytes_of_def)
    then show ?thesis using bytes by simp
  qed
  ultimately show "\<exists>v'. vector_pop v = Some (x, v') \<and> vec v' ws \<and> b_start v' = b_start v \<and> b_contents v' = b_contents v"
    "vector_peek v = Some x"
    by (simp_all add: vector_pop_def vector_peek_def vec_def Let_def)
qed

section \<open>Update\<close>

lemma store_vec:
  assumes vec: "vec v ws" and i: "i < length ws" "i < 2 ^ 31"
  shows "\<exists>c. store_ptr (b_contents v) (b_start v + of_nat i * 8) x = Some c \<and> vec (v\<lparr>b_contents := c\<rparr>) (ws[i := x]) \<and>
    length c = length (b_contents v)"
proof -
  have wf: "wf_buffer v" and bytes: "bytes_of v = flat ws" using vec by (simp_all add: vec_def)
  note w = wf_bufferD [OF wf] and l = length_bytes_of [OF wf]
  have "unat ((of_nat i :: u64) * 8) = 8 * i"
    using i(2) by (simp add: unat_word_ariths unat_of_nat take_bit_eq_mod)
  then have u: "unat (b_start v + of_nat i * 8) = unat (b_start v) + 8 * i"
    using i l bytes w(1) unat_u64_less [of "b_end v"] unat_add_u64 [of "b_start v" "of_nat i * 8"] by simp
  have "8 * i + length (le_bytes 8 x) \<le> length (bytes_of v)" using i bytes by simp
  then obtain c where "poke (b_contents v) (unat (b_start v) + 8 * i) (le_bytes 8 x) = Some c"
    "wf_buffer (v\<lparr>b_contents := c\<rparr>)" "length c = length (b_contents v)"
    "bytes_of (v\<lparr>b_contents := c\<rparr>) = take (8 * i) (bytes_of v) @ le_bytes 8 x @ drop (8 * i + length (le_bytes 8 x)) (bytes_of v)"
    using store_window [OF wf] by blast
  then show ?thesis using flat_update [OF i(1), of x] bytes
    by (simp add: store_ptr_def u vec_def add.commute del: le_bytes.simps)
qed

lemma set_offset:
  assumes "i < 2 ^ 27"
  shows "(scast (ucast ((scast (of_nat i + 1 :: 32 word) :: u64) * 8) :: 32 word) :: u64) = of_nat (8 * Suc i)"
proof -
  have "(of_nat i + 1 :: 32 word) = of_nat (Suc i)" by simp
  then have "(scast (of_nat i + 1 :: 32 word) :: u64) = of_nat (Suc i)"
    using assms scast_of_nat_u32 [of "Suc i"] by (simp only:) simp
  moreover have "(ucast (of_nat (8 * Suc i) :: u64) :: 32 word) = of_nat (8 * Suc i)"
    by (rule ucast_of_nat_u32) (use assms in simp)
  moreover have "(of_nat (Suc i) :: u64) * 8 = of_nat (8 * Suc i)" by simp
  ultimately show ?thesis using assms scast_of_nat_u32 [of "8 * Suc i"] by (simp only:) simp
qed

lemma vector_set_vec:
  assumes vec: "vec v ws" and i: "i < length ws" "i < 2 ^ 27"
  shows "\<exists>v'. vector_set v (of_nat i) x = Some (True, v') \<and> vec v' (ws[i := x]) \<and> b_start v' = b_start v \<and>
    b_end v' = b_end v \<and> length (b_contents v') = length (b_contents v)"
proof -
  have i31: "i < 2 ^ 31" using i(2) by simp
  have "8 * Suc i \<le> unat (b_end v)" using vec_length [OF vec] i by simp
  moreover have "unat (of_nat (8 * Suc i) :: u64) = 8 * Suc i" using i(2) by (intro unat_of_nat_u64) simp
  ultimately have "\<not> (of_nat (8 * Suc i) :: u64) > b_end v" by (simp add: word_less_nat_alt del: of_nat_Suc of_nat_mult)
  then have "extend_total v (ucast ((scast (of_nat i + 1 :: 32 word) :: u64) * 8)) = Some (True, v)"
    unfolding extend_total_def set_offset [OF i(2)] Let_def by (simp only: if_False)
  moreover obtain c where "store_ptr (b_contents v) (b_start v + of_nat i * 8) x = Some c" "vec (v\<lparr>b_contents := c\<rparr>) (ws[i := x])"
      "length c = length (b_contents v)"
    using store_vec [OF vec i(1)] i31 by blast
  ultimately show ?thesis using i(2) by (simp add: vector_set_def scast_of_nat_u32)
qed

lemma zeros_flat: "replicate (8 * n) 0 = flat (replicate n 0)"
  by (induction n) (simp_all add: replicate_add numeral_eq_Suc)

lemma extend_total_zeros:
  assumes wf: "wf_buffer v" and start: "b_start v = 0" and off: "scast offset = (off :: u64)" "unat off = unat (b_end v) + k"
    and k: "0 < k" and roomy: "roomy v (k + n)"
  shows "\<exists>v'. extend_total v offset = Some (True, v') \<and> written v (replicate k 0) v' \<and> b_start v' = 0 \<and> roomy v' n"
proof -
  have gt: "off > b_end v" using off(2) k by (simp add: word_less_nat_alt)
  have un: "unat (off - b_end v) = k" using gt off(2) by (simp add: unat_sub word_less_nat_alt word_le_nat_alt)
  have "k < 2 ^ 64" using un unat_u64_less [of "off - b_end v"] by simp
  then have diff: "off - b_end v = of_nat k" using un unat_of_nat_u64 [of k] by (simp add: word_unat_eq_iff)
  let ?zs = "replicate k (0 :: u8)"
  have "roomy v (length ?zs + n)" using roomy by simp
  then obtain b1 c where b1: "buffer_extend v (of_nat (length ?zs)) = Some (True, b1)" "wf_buffer b1" "bytes_of b1 = bytes_of v"
    "poke (b_contents b1) (unat (b_end b1)) ?zs = Some c"
    "written v ?zs (b1\<lparr>b_contents := c, b_end := b_end b1 + of_nat (length ?zs)\<rparr>)"
    "roomy (b1\<lparr>b_contents := c, b_end := b_end b1 + of_nat (length ?zs)\<rparr>) n"
    using append_repr [OF wf] by blast
  have s1: "b_start b1 = 0"
    using buffer_extend_correct [OF wf, of k] roomy_room [OF roomy, of k] b1(1) start by (auto simp: extended_def)
  have "unat (b_end b1) = unat (b_end v)"
    using length_bytes_of [OF b1(2)] length_bytes_of [OF wf] s1 b1(3) start by simp
  then have e1: "b_end b1 = b_end v" by (simp add: word_unat_eq_iff)
  have sum: "b_end b1 + of_nat (length ?zs) = off" using diff e1 by (metis add.commute diff_add_cancel length_replicate)
  have "extend_total v offset = Some (True, b1\<lparr>b_contents := c, b_end := off\<rparr>)"
    unfolding extend_total_def off(1) Let_def using gt b1(1,4) e1 un diff by simp
  then show ?thesis using b1(5,6) s1 unfolding sum by simp
qed

lemma vector_set_extend:
  assumes vec: "vec v ws" and start: "b_start v = 0" and i: "length ws \<le> i" "i < 2 ^ 27"
    and roomy: "roomy v (8 * (Suc i - length ws) + n)"
  shows "\<exists>v'. vector_set v (of_nat i) x = Some (True, v') \<and>
    vec v' ((ws @ replicate (Suc i - length ws) 0)[i := x]) \<and> b_start v' = 0"
proof -
  have wf: "wf_buffer v" using vec by (simp add: vec_def)
  have "unat (of_nat (8 * Suc i) :: u64) = 8 * Suc i" using i(2) by (intro unat_of_nat_u64) simp
  then have "unat (of_nat (8 * Suc i) :: u64) = unat (b_end v) + 8 * (Suc i - length ws)"
    using vec_length [OF vec] start i(1) by simp
  then obtain v1 where v1: "extend_total v (ucast ((scast (of_nat i + 1 :: 32 word) :: u64) * 8)) = Some (True, v1)"
      "written v (replicate (8 * (Suc i - length ws)) 0) v1" "b_start v1 = 0"
    using extend_total_zeros [OF wf start set_offset [OF i(2)] _ _ roomy] i(1) by auto
  have vec1: "vec v1 (ws @ replicate (Suc i - length ws) 0)"
    using v1(2) vec zeros_flat by (simp add: vec_def written_def)
  have "i < length (ws @ replicate (Suc i - length ws) 0)" "i < 2 ^ 31" using i by simp_all
  then obtain c where "store_ptr (b_contents v1) (b_start v1 + of_nat i * 8) x = Some c"
      "vec (v1\<lparr>b_contents := c\<rparr>) ((ws @ replicate (Suc i - length ws) 0)[i := x])"
    using store_vec [OF vec1] by blast
  then show ?thesis using v1 i(2) by (simp add: vector_set_def scast_of_nat_u32)
qed

section \<open>Deletion\<close>

lemma base_offset:
  assumes "wf_buffer v" "unat (b_start v) + 8 * i \<le> unat (b_end v)"
  shows "unat (b_start v + of_nat i * 8) = unat (b_start v) + 8 * i"
proof -
  have lt: "8 * i < 2 ^ 64" using assms(2) unat_u64_less [of "b_end v"] by linarith
  then have "unat ((of_nat i :: u64) * 8) = 8 * i"
    by (simp add: unat_word_ariths unat_of_nat take_bit_eq_mod)
  then show ?thesis using assms(2) unat_u64_less [of "b_end v"] unat_add_u64 [of "b_start v" "of_nat i * 8"] by simp
qed

lemma vec_total: "vec v ws \<Longrightarrow> unat (b_start v) + 8 * length ws = unat (b_end v)"
  using vec_length [of v ws] wf_bufferD(1) [of v] by (auto simp: vec_def)

lemma delete_shift_vec:
  "\<lbrakk>vec v ws; offset + n < length ws\<rbrakk> \<Longrightarrow>
   \<exists>c. delete_shift (b_contents v) (b_start v) offset n = Some c \<and>
     vec (v\<lparr>b_contents := c\<rparr>) (take offset ws @ take n (drop (Suc offset) ws) @ drop (offset + n) ws)"
proof (induction n arbitrary: v ws offset)
  case 0
  then show ?case by (auto simp: vec_def wf_buffer_def bytes_of_def)
next
  case (Suc n)
  have wf: "wf_buffer v" and bytes: "bytes_of v = flat ws" using Suc.prems(1) by (simp_all add: vec_def)
  have total: "unat (b_start v) + 8 * length ws = unat (b_end v)" using vec_total [OF Suc.prems(1)] .
  have u: "unat (b_start v + of_nat offset * 8) = unat (b_start v) + 8 * offset"
    using Suc.prems(2) total by (intro base_offset [OF wf]) linarith
  have so: "Suc offset < length ws" using Suc.prems(2) by simp
  have load: "peek (b_contents v) (unat (b_start v) + 8 * offset + 8) 8 = Some (le_bytes 8 (ws ! Suc offset))"
    using load_window [OF wf, of "8 * Suc offset" 8] so bytes flat_nth [OF so] by (simp add: ac_simps)
  have "8 * offset + length (le_bytes 8 (ws ! Suc offset)) \<le> length (bytes_of v)" using so bytes by simp
  then obtain c where c: "poke (b_contents v) (unat (b_start v) + 8 * offset) (le_bytes 8 (ws ! Suc offset)) = Some c"
    "wf_buffer (v\<lparr>b_contents := c\<rparr>)"
    "bytes_of (v\<lparr>b_contents := c\<rparr>) = take (8 * offset) (bytes_of v) @ le_bytes 8 (ws ! Suc offset) @
       drop (8 * offset + length (le_bytes 8 (ws ! Suc offset))) (bytes_of v)"
    using store_window [OF wf] by blast
  let ?ws = "ws[offset := ws ! Suc offset]"
  have "vec (v\<lparr>b_contents := c\<rparr>) ?ws"
    using c flat_update [of offset ws "ws ! Suc offset"] so bytes by (simp add: vec_def add.commute del: le_bytes.simps)
  then obtain c' where c': "delete_shift c (b_start v) (Suc offset) n = Some c'"
    "vec (v\<lparr>b_contents := c'\<rparr>) (take (Suc offset) ?ws @ take n (drop (Suc (Suc offset)) ?ws) @ drop (Suc offset + n) ?ws)"
    using Suc.IH [of "v\<lparr>b_contents := c\<rparr>" ?ws "Suc offset"] Suc.prems(2) by auto
  have "take (Suc offset) ?ws @ take n (drop (Suc (Suc offset)) ?ws) @ drop (Suc offset + n) ?ws =
      take offset ws @ take (Suc n) (drop (Suc offset) ws) @ drop (offset + Suc n) ws"
    using so by (simp add: take_Suc_conv_app_nth Cons_nth_drop_Suc [symmetric, of "Suc offset"])
  then show ?case using c' c(1) load by (simp only: delete_shift.simps Let_def u) simp
qed

lemma vec_drop_end:
  assumes "vec v (ws @ vs)"
  shows "vec (v\<lparr>b_end := b_end v - of_nat (8 * length vs)\<rparr>) ws"
proof -
  have wf: "wf_buffer v" and bytes: "bytes_of v = flat ws @ flat vs" using assms by (simp_all add: vec_def)
  note w = wf_bufferD [OF wf] and t = vec_total [OF assms]
  have n: "unat (of_nat (8 * length vs) :: u64) = 8 * length vs"
    using t unat_u64_less [of "b_end v"] by (intro unat_of_nat_u64) simp
  have e: "unat (b_end v - of_nat (8 * length vs)) = unat (b_start v) + 8 * length ws"
    using n t by (subst unat_sub) (simp_all add: word_le_nat_alt del: of_nat_mult)
  have "bytes_of (v\<lparr>b_end := b_end v - of_nat (8 * length vs)\<rparr>) = take (8 * length ws) (bytes_of v)"
    using e t by (simp add: bytes_of_def del: of_nat_mult)
  then show ?thesis using e t w bytes by (simp add: vec_def wf_buffer_def word_le_nat_alt del: of_nat_mult)
qed

lemma vector_delete_vec:
  assumes vec: "vec v ws" and i: "i < length ws" "length ws < 2 ^ 31"
  shows "\<exists>v'. vector_delete v i = Some (ws ! i, v') \<and> vec v' (take i ws @ drop (Suc i) ws)"
proof -
  have wf: "wf_buffer v" and bytes: "bytes_of v = flat ws" using vec by (simp_all add: vec_def)
  note t = vec_total [OF vec]
  have u: "unat (b_start v + of_nat i * 8) = unat (b_start v) + 8 * i"
    using i(1) t by (intro base_offset [OF wf]) linarith
  have "unat (b_start v + of_nat i * 8 + 8) = unat (b_start v) + 8 * i + 8"
    using u i(1) t unat_u64_less [of "b_end v"] unat_add_u64 [of "b_start v + of_nat i * 8" 8] by simp
  then have ok: "\<not> b_start v + of_nat i * 8 + 8 > b_end v" using i(1) t by (simp add: word_less_nat_alt)
  have load: "load_ptr (b_contents v) (b_start v + of_nat i * 8) = Some (ws ! i)"
    using load_window [OF wf, of "8 * i" 8] i(1) bytes flat_nth [OF i(1)] by (simp add: load_ptr_def u del: le_bytes.simps)
  define n where "n = length ws - 1 - i"
  have n: "nat (sint (vector_length v) - 1 - int i) = n" using vector_length_vec(3) [OF vec i(2)] i(1) by (simp add: n_def)
  have lt: "i + n < length ws" using i(1) by (simp add: n_def)
  obtain c where c: "delete_shift (b_contents v) (b_start v) i n = Some c"
      "vec (v\<lparr>b_contents := c\<rparr>) (take i ws @ take n (drop (Suc i) ws) @ drop (i + n) ws)"
    using delete_shift_vec [OF vec lt] by blast
  have rest: "take n (drop (Suc i) ws) = drop (Suc i) ws" "length (drop (i + n) ws) = 1"
    using i(1) by (simp_all add: n_def)
  then have "vec (v\<lparr>b_contents := c, b_end := b_end v - 8\<rparr>) (take i ws @ drop (Suc i) ws)"
    using vec_drop_end [of "v\<lparr>b_contents := c\<rparr>" "take i ws @ drop (Suc i) ws" "drop (i + n) ws"] c(2) by simp
  then show ?thesis using ok load c(1) by (simp add: vector_delete_def Let_def n)
qed

lemma move_tail_vec:
  assumes vec: "vec v ws" and s: "s \<le> e" "e \<le> length ws"
    and u: "unat se = unat (b_start v) + 8 * s" "unat ee = unat (b_start v) + 8 * e"
  shows "\<exists>c. (if ee < b_end v then do {
        bs \<leftarrow> peek (b_contents v) (unat ee) (unat (b_end v - ee)); poke (b_contents v) (unat se) bs }
      else Some (b_contents v)) = Some c \<and>
    vec (v\<lparr>b_contents := c\<rparr>) ((take s ws @ drop e ws) @ drop (s + (length ws - e)) ws)"
proof -
  have wf: "wf_buffer v" and bytes: "bytes_of v = flat ws" using vec by (simp_all add: vec_def)
  note t = vec_total [OF vec]
  let ?tail = "flat (drop e ws)"
  have rest: "drop (8 * s + length ?tail) (bytes_of v) = flat (drop (s + (length ws - e)) ws)"
    using bytes drop_flat [of "s + (length ws - e)" ws] by (simp add: distrib_left)
  show ?thesis
  proof (cases "ee < b_end v")
    case True
    have len: "unat (b_end v - ee) = 8 * (length ws - e)"
      using True u t s by (subst unat_sub) (simp_all add: word_le_nat_alt word_less_nat_alt)
    have "peek (b_contents v) (unat ee) (unat (b_end v - ee)) = Some ?tail"
      using load_window [OF wf, of "8 * e" "8 * (length ws - e)"] s bytes u len drop_flat [of e ws] by simp
    moreover have le: "8 * s + length ?tail \<le> length (bytes_of v)" using s bytes by (simp add: diff_mult_distrib2)
    moreover obtain c where "poke (b_contents v) (unat (b_start v) + 8 * s) ?tail = Some c" "wf_buffer (v\<lparr>b_contents := c\<rparr>)"
        "bytes_of (v\<lparr>b_contents := c\<rparr>) = take (8 * s) (bytes_of v) @ ?tail @ drop (8 * s + length ?tail) (bytes_of v)"
      using store_window [OF wf le] by blast
    ultimately show ?thesis using True u bytes rest by (simp add: take_flat vec_def)
  next
    case False
    then have "e = length ws" using u t s by (simp add: word_less_nat_alt)
    then show ?thesis using False vec by (simp add: vec_def wf_buffer_def bytes_of_def)
  qed
qed

lemma vector_delete_range_vec:
  assumes vec: "vec v ws" and s: "s \<le> e" "e \<le> length ws"
  shows "\<exists>v'. vector_delete_range v s e = Some (of_nat (e - s), v') \<and> vec v' (take s ws @ drop e ws)"
proof -
  have wf: "wf_buffer v" using vec by (simp add: vec_def)
  note t = vec_total [OF vec]
  let ?s = "b_start v + of_nat s * 8" and ?e = "b_start v + of_nat e * 8"
  have u: "unat ?s = unat (b_start v) + 8 * s" "unat ?e = unat (b_start v) + 8 * e"
    using s t by (intro base_offset [OF wf]; linarith)+
  have m: "min ?e (b_end v) = ?e" using u t s by (simp add: min_def word_le_nat_alt)
  have d: "unat (?e - ?s) = 8 * (e - s)" using u s by (subst unat_sub) (simp_all add: word_le_nat_alt)
  have es: "e - s < 2 ^ 64" using d unat_u64_less [of "?e - ?s"] by linarith
  have d8: "(?e - ?s) div 8 = of_nat (e - s)" "?e - ?s = of_nat (8 * (e - s))"
    using d es unat_u64_less [of "?e - ?s"] by (simp_all add: word_unat_eq_iff unat_div unat_of_nat_u64 del: of_nat_mult)
  show ?thesis
  proof (cases "s = e")
    case True
    then show ?thesis using vec by (simp add: vector_delete_range_def Let_def)
  next
    case False
    then have lt: "\<not> ?e \<le> ?s" using u s by (simp add: word_le_nat_alt)
    obtain c where c: "(if ?e < b_end v then do {
          bs \<leftarrow> peek (b_contents v) (unat ?e) (unat (b_end v - ?e)); poke (b_contents v) (unat ?s) bs }
        else Some (b_contents v)) = Some c"
        "vec (v\<lparr>b_contents := c\<rparr>) ((take s ws @ drop e ws) @ drop (s + (length ws - e)) ws)"
      using move_tail_vec [OF vec s u] by blast
    from vec_drop_end [OF c(2)] have "vec (v\<lparr>b_contents := c, b_end := b_end v - of_nat (8 * (e - s))\<rparr>) (take s ws @ drop e ws)"
      using s by simp
    then show ?thesis using lt c(1) unfolding vector_delete_range_def Let_def m d8(1) unfolding d8(2) by simp
  qed
qed

lemma vector_consume_vec:
  assumes "vec v ws" "n \<le> length ws"
  shows "\<exists>v'. vector_consume v n = Some v' \<and> vec v' (drop n ws)"
  using assms consume_correct [of v "8 * n"] drop_flat [of n ws]
  by (simp add: vector_consume_def vec_def mult.commute)

lemma foreach_ptr_vec:
  "\<lbrakk>vec v ws; i + n \<le> length ws; length ws < 2 ^ 31\<rbrakk> \<Longrightarrow> foreach_ptr v i n = Some (take n (drop i ws))"
proof (induction n arbitrary: i)
  case (Suc n)
  then have "vector_get v (of_nat i) = Some (ws ! i)" using vector_get_vec [OF Suc.prems(1), of i] by simp
  then show ?case using Suc by (simp add: Cons_nth_drop_Suc [symmetric])
qed simp

lemma vector_foreach_vec: "vec v ws \<Longrightarrow> length ws < 2 ^ 31 \<Longrightarrow> vector_foreach v = Some ws"
  using foreach_ptr_vec [of v ws 0 "length ws"] vector_length_vec(2) [of v ws] by (simp add: vector_foreach_def)

section \<open>The contract of the component\<close>

definition sample_vector :: buffer where
  "sample_vector = \<lparr>b_start = 0, b_end = 16, b_length = 16, b_wrapped = False, b_h = sample_heap,
     b_contents = flat [7, 9]\<rparr>"

lemma sample_vector_vec: "vec sample_vector [7, 9]"
  by (simp add: vec_def wf_buffer_def bytes_of_def sample_vector_def heap_ok_def sample_heap_def del: flat_simps(2))

lemma sample_vector_roomy: "n < 100 \<Longrightarrow> roomy sample_vector n"
  using sample_vector_vec by (simp add: roomy_def vec_def) (simp add: sample_vector_def sample_heap_def)



end
