(* ===== verification/Pqueue.thy ===== *)
theory Pqueue
  imports Vector
begin

text \<open>
  The priority queue of \<^verbatim>\<open>kernel/src/runtime/pqueue.c\<close>: a binary heap in a vector of pointers. An
  \<^verbatim>\<open>index\<close> of the code is an unsigned 32-bit number that is one above the offset in the vector; it is a
  natural number here and the only operation that could leave its range, the doubling in
  \<^verbatim>\<open>heal_down\<close>, is reduced modulo \<open>2 ^ 32\<close>. The comparison \<^verbatim>\<open>sort\<close> of the queue is a
  parameter with the laws of a strict weak order as its contract.
\<close>

section \<open>Operations\<close>

record pqueue =
  pq_h :: heap
  pq_body :: buffer
  pq_sort :: "u64 \<Rightarrow> u64 \<Rightarrow> bool"

definition INVALID_ADDRESS :: u64 where
  "INVALID_ADDRESS = - 1"

definition swap :: "pqueue \<Rightarrow> nat \<Rightarrow> nat \<Rightarrow> pqueue option" where
  "swap q x y =
     do { temp \<leftarrow> vector_get (pq_body q) (of_nat x - 1);
          other \<leftarrow> vector_get (pq_body q) (of_nat y - 1);
          (ok1, body1) \<leftarrow> vector_set (pq_body q) (of_nat x - 1) other;
          assert_ok ok1;
          (ok2, body2) \<leftarrow> vector_set body1 (of_nat y - 1) temp;
          assert_ok ok2;
          Some (q\<lparr>pq_body := body2\<rparr>) }"

definition qcompare :: "pqueue \<Rightarrow> nat \<Rightarrow> nat \<Rightarrow> bool option" where
  "qcompare q x y =
     do { a \<leftarrow> vector_get (pq_body q) (of_nat x - 1);
          b \<leftarrow> vector_get (pq_body q) (of_nat y - 1);
          Some (pq_sort q a b) }"

partial_function (option) heal_down_loop :: "pqueue \<Rightarrow> nat \<Rightarrow> nat \<Rightarrow> pqueue option" where
  "heal_down_loop q lst pos =
     (let i = (2 * pos) mod 2 ^ 32 in
      if i \<le> lst then do {
        right \<leftarrow> (if i < lst then qcompare q i (i + 1) else Some False);
        let i' = (if right then i + 1 else i);
        lower \<leftarrow> qcompare q pos i';
        if \<not> lower then Some q
        else do { q' \<leftarrow> swap q pos i'; heal_down_loop q' lst i' } }
      else Some q)"

definition heal_down :: "pqueue \<Rightarrow> nat \<Rightarrow> pqueue option" where
  "heal_down q pos = heal_down_loop q (unat (vector_length (pq_body q))) pos"

partial_function (option) heal_up :: "pqueue \<Rightarrow> nat \<Rightarrow> pqueue option" where
  "heal_up q pos =
     do { go \<leftarrow> (if pos > 1 then qcompare q (pos div 2) pos else Some False);
          if go then do { q' \<leftarrow> swap q (pos div 2) pos; heal_up q' (pos div 2) }
          else Some q }"

partial_function (option) add_pqueue_loop :: "pqueue \<Rightarrow> nat \<Rightarrow> nat \<Rightarrow> pqueue option" where
  "add_pqueue_loop q i parent =
     do { go \<leftarrow> (if parent > 0 then qcompare q parent i else Some False);
          if go then do { q' \<leftarrow> swap q i parent; add_pqueue_loop q' parent (parent div 2) }
          else Some q }"

definition add_pqueue :: "pqueue \<Rightarrow> nat \<Rightarrow> pqueue option" where
  "add_pqueue q i = add_pqueue_loop q i (i div 2)"

definition pqueue_insert :: "pqueue \<Rightarrow> u64 \<Rightarrow> pqueue option" where
  "pqueue_insert q v =
     do { body \<leftarrow> vector_push (pq_body q) v;
          add_pqueue (q\<lparr>pq_body := body\<rparr>) (unat (vector_length body)) }"

definition pqueue_remove_at :: "pqueue \<Rightarrow> nat \<Rightarrow> pqueue option" where
  "pqueue_remove_at q i =
     do { (n, body) \<leftarrow> vector_pop (pq_body q);
          if i \<noteq> unat (vector_length body) then do {
            (ok, body') \<leftarrow> vector_set body (of_nat i) n;
            assert_ok ok;
            let q' = q\<lparr>pq_body := body'\<rparr>;
            up \<leftarrow> (if i + 1 > 1 then qcompare q' ((i + 1) div 2) (i + 1) else Some False);
            if up then heal_up q' (i + 1) else heal_down q' (i + 1) }
          else Some (q\<lparr>pq_body := body\<rparr>) }"

fun remove_search :: "pqueue \<Rightarrow> u64 \<Rightarrow> nat \<Rightarrow> nat \<Rightarrow> (bool \<times> pqueue) option" where
  "remove_search q v i 0 = Some (False, q)"
| "remove_search q v i (Suc n) =
     do { e \<leftarrow> vector_get (pq_body q) (of_nat i);
          if e = v then do { q' \<leftarrow> pqueue_remove_at q i; Some (True, q') }
          else remove_search q v (Suc i) n }"

definition pqueue_remove :: "pqueue \<Rightarrow> u64 \<Rightarrow> (bool \<times> pqueue) option" where
  "pqueue_remove q v = remove_search q v 0 (unat (vector_length (pq_body q)))"

definition pqueue_pop :: "pqueue \<Rightarrow> (u64 \<times> pqueue) option" where
  "pqueue_pop q =
     (if sint (vector_length (pq_body q)) > 0 then do {
        result \<leftarrow> vector_get (pq_body q) 0;
        (n, body) \<leftarrow> vector_pop (pq_body q);
        top \<leftarrow> vector_peek body;
        if top \<noteq> 0 then do {
          (ok, body') \<leftarrow> vector_set body 0 n;
          assert_ok ok;
          q' \<leftarrow> heal_down (q\<lparr>pq_body := body'\<rparr>) 1;
          Some (result, q') }
        else Some (result, q\<lparr>pq_body := body\<rparr>) }
      else Some (INVALID_ADDRESS, q))"

definition pqueue_peek_at :: "pqueue \<Rightarrow> nat \<Rightarrow> u64 option" where
  "pqueue_peek_at q i =
     (if unat (vector_length (pq_body q)) > i then vector_get (pq_body q) (of_nat i)
      else Some INVALID_ADDRESS)"

definition pqueue_peek :: "pqueue \<Rightarrow> u64 option" where
  "pqueue_peek q = pqueue_peek_at q 0"

definition pqueue_length :: "pqueue \<Rightarrow> u64" where
  "pqueue_length q = scast (vector_length (pq_body q))"

fun reorder_down :: "pqueue \<Rightarrow> nat \<Rightarrow> pqueue option" where
  "reorder_down q 0 = Some q"
| "reorder_down q (Suc i) = do { q' \<leftarrow> heal_down q (Suc i); reorder_down q' i }"

definition pqueue_reorder :: "pqueue \<Rightarrow> pqueue option" where
  "pqueue_reorder q = reorder_down q (unat (vector_length (pq_body q)) div 2)"

text \<open>The handler of \<^verbatim>\<open>pqueue_walk\<close> acts on a state \<open>s\<close> outside of the queue.\<close>

fun walk_from :: "pqueue \<Rightarrow> (u64 \<Rightarrow> 's \<Rightarrow> bool \<times> 's) \<Rightarrow> 's \<Rightarrow> nat \<Rightarrow> nat \<Rightarrow> (bool \<times> 's) option" where
  "walk_from q h s i 0 = Some (True, s)"
| "walk_from q h s i (Suc n) =
     do { e \<leftarrow> vector_get (pq_body q) (of_nat i);
          let (ok, s') = h e s;
          if \<not> ok then Some (False, s') else walk_from q h s' (Suc i) n }"

definition pqueue_walk :: "pqueue \<Rightarrow> (u64 \<Rightarrow> 's \<Rightarrow> bool \<times> 's) \<Rightarrow> 's \<Rightarrow> (bool \<times> 's) option" where
  "pqueue_walk q h s = walk_from q h s 0 (unat (vector_length (pq_body q)))"

text \<open>
  A failed allocation of the vector is not tested by the code, which goes on with an invalid pointer; it
  is \<open>None\<close> here.
\<close>

definition sizeof_pqueue :: u64 where
  "sizeof_pqueue = 24"

definition allocate_pqueue :: "heap \<Rightarrow> (u64 \<Rightarrow> u64 \<Rightarrow> bool) \<Rightarrow> pqueue option" where
  "allocate_pqueue h cmp =
     (case h sizeof_pqueue of
        None \<Rightarrow> None
      | Some _ \<Rightarrow> do { body \<leftarrow> allocate_vector h 10; Some \<lparr>pq_h = h, pq_body = body, pq_sort = cmp\<rparr> })"

end
