(* ===== verification/Pqueue_Correct.thy ===== *)
theory Pqueue_Correct
  imports Pqueue
begin

text \<open>
  Correctness of the priority queue: the loops that repair the heap end, keep the elements and restore
  the heap order, so insertion, removal, popping and reordering act on the multiset of the queued pointers
  and the first element has the highest priority.
\<close>

section \<open>The queue as a list\<close>

text \<open>Elements by index, counted from one as in the code.\<close>

definition elem :: "'a list \<Rightarrow> nat \<Rightarrow> 'a" where
  "elem ws k = ws ! (k - 1)"

definition exchange :: "'a list \<Rightarrow> nat \<Rightarrow> nat \<Rightarrow> 'a list" where
  "exchange ws x y = ws[x - 1 := elem ws y, y - 1 := elem ws x]"

definition valid_index :: "'a list \<Rightarrow> nat \<Rightarrow> bool" where
  "valid_index ws k \<longleftrightarrow> 1 \<le> k \<and> k \<le> length ws"

lemma valid_index_less: "valid_index ws k \<Longrightarrow> k - 1 < length ws"
  by (auto simp: valid_index_def)

lemma length_exchange [simp]: "length (exchange ws x y) = length ws"
  by (simp add: exchange_def)

lemma valid_exchange [simp]: "valid_index (exchange ws x y) k \<longleftrightarrow> valid_index ws k"
  by (simp add: valid_index_def)

lemma elem_exchange:
  assumes "valid_index ws x" "valid_index ws y" "valid_index ws k"
  shows "elem (exchange ws x y) k = (if k = y then elem ws x else if k = x then elem ws y else elem ws k)"
  using assms by (auto simp: elem_def exchange_def valid_index_def nth_list_update)

lemma mset_exchange:
  assumes "valid_index ws x" "valid_index ws y"
  shows "mset (exchange ws x y) = mset ws"
  using mset_swap [OF valid_index_less [OF assms(2)] valid_index_less [OF assms(1)]] by (simp add: exchange_def elem_def)

definition pqv :: "pqueue \<Rightarrow> u64 list \<Rightarrow> bool" where
  "pqv q ws \<longleftrightarrow> vec (pq_body q) ws \<and> length ws < 2 ^ 27"

text \<open>What the repair loops keep besides the elements.\<close>

definition same_frame :: "pqueue \<Rightarrow> pqueue \<Rightarrow> bool" where
  "same_frame q q' \<longleftrightarrow>
     pq_sort q' = pq_sort q \<and> b_start (pq_body q') = b_start (pq_body q) \<and> b_end (pq_body q') = b_end (pq_body q) \<and>
     length (b_contents (pq_body q')) = length (b_contents (pq_body q))"

lemma same_frame_trans: "same_frame q q1 \<Longrightarrow> same_frame q1 q2 \<Longrightarrow> same_frame q q2"
  by (simp add: same_frame_def)

lemma same_frame_refl [simp]: "same_frame q q"
  by (simp add: same_frame_def)

lemma index_pred: "1 \<le> k \<Longrightarrow> (of_nat k - 1 :: 32 word) = of_nat (k - 1)"
  by (simp add: of_nat_diff)

lemma get_elem:
  assumes "pqv q ws" "valid_index ws k"
  shows "vector_get (pq_body q) (of_nat k - 1) = Some (elem ws k)"
proof -
  have k: "1 \<le> k" "k - 1 < length ws" "length ws < 2 ^ 27" using assms by (auto simp: valid_index_def pqv_def)
  have "vector_get (pq_body q) (of_nat (k - 1)) = Some (if k - 1 < length ws then ws ! (k - 1) else 0)"
    using assms(1) k(2,3) by (intro vector_get_vec) (simp_all add: pqv_def)
  then show ?thesis unfolding index_pred [OF k(1)] elem_def by (simp only: k(2) if_True)
qed

lemma qcompare_elem:
  "pqv q ws \<Longrightarrow> valid_index ws x \<Longrightarrow> valid_index ws y \<Longrightarrow> qcompare q x y = Some (pq_sort q (elem ws x) (elem ws y))"
  by (simp add: qcompare_def get_elem)

lemma set_elem:
  assumes "vec v ws" "length ws < 2 ^ 27" "valid_index ws k"
  shows "\<exists>v'. vector_set v (of_nat k - 1) x = Some (True, v') \<and> vec v' (ws[k - 1 := x]) \<and> b_start v' = b_start v \<and>
    b_end v' = b_end v \<and> length (b_contents v') = length (b_contents v)"
proof -
  have k: "1 \<le> k" "k - 1 < 2 ^ 27" using assms(2) valid_index_less [OF assms(3)] assms(3) by (auto simp: valid_index_def)
  show ?thesis unfolding index_pred [OF k(1)] by (rule vector_set_vec [OF assms(1) valid_index_less [OF assms(3)] k(2)])
qed

lemma swap_exchange:
  assumes q: "pqv q ws" and x: "valid_index ws x" and y: "valid_index ws y"
  shows "\<exists>q'. swap q x y = Some q' \<and> pqv q' (exchange ws x y) \<and> same_frame q q'"
proof -
  have vec: "vec (pq_body q) ws" "length ws < 2 ^ 27" using q by (simp_all add: pqv_def)
  obtain v1 where v1: "vector_set (pq_body q) (of_nat x - 1) (elem ws y) = Some (True, v1)"
      "vec v1 (ws[x - 1 := elem ws y])" "b_start v1 = b_start (pq_body q)" "b_end v1 = b_end (pq_body q)"
      "length (b_contents v1) = length (b_contents (pq_body q))"
    using set_elem [OF vec x] by blast
  have y1: "valid_index (ws[x - 1 := elem ws y]) y" using y by (simp add: valid_index_def)
  obtain v2 where v2: "vector_set v1 (of_nat y - 1) (elem ws x) = Some (True, v2)"
      "vec v2 (exchange ws x y)" "b_start v2 = b_start v1" "b_end v2 = b_end v1"
      "length (b_contents v2) = length (b_contents v1)"
    using set_elem [OF v1(2) _ y1, of "elem ws x"] vec(2) by (auto simp: exchange_def)
  show ?thesis using v1 v2 vec(2) get_elem [OF q x] get_elem [OF q y]
    by (simp add: swap_def pqv_def same_frame_def)
qed

section \<open>Heap order\<close>

text \<open>\<open>heap_from l\<close>: every element at or below index \<open>l\<close> has at least the priority of its children.\<close>

definition heap_from :: "('a \<Rightarrow> 'a \<Rightarrow> bool) \<Rightarrow> nat \<Rightarrow> 'a list \<Rightarrow> bool" where
  "heap_from srt l ws \<longleftrightarrow>
     (\<forall>k. l \<le> k div 2 \<and> 2 \<le> k \<and> k \<le> length ws \<longrightarrow> \<not> srt (elem ws (k div 2)) (elem ws k))"

text \<open>The order may fail between \<open>p\<close> and its children, but not between the parent of \<open>p\<close> and them.\<close>

definition down_gap :: "('a \<Rightarrow> 'a \<Rightarrow> bool) \<Rightarrow> nat \<Rightarrow> nat \<Rightarrow> 'a list \<Rightarrow> bool" where
  "down_gap srt l p ws \<longleftrightarrow>
     (\<forall>k. l \<le> k div 2 \<and> 2 \<le> k \<and> k \<le> length ws \<and> k div 2 \<noteq> p \<longrightarrow> \<not> srt (elem ws (k div 2)) (elem ws k)) \<and>
     (\<forall>k. k div 2 = p \<and> k \<le> length ws \<and> l \<le> p div 2 \<and> 1 \<le> p div 2 \<longrightarrow> \<not> srt (elem ws (p div 2)) (elem ws k))"

text \<open>The order may fail between \<open>p\<close> and its parent, but not between the parent and the children of \<open>p\<close>.\<close>

definition up_gap :: "('a \<Rightarrow> 'a \<Rightarrow> bool) \<Rightarrow> nat \<Rightarrow> 'a list \<Rightarrow> bool" where
  "up_gap srt p ws \<longleftrightarrow>
     (\<forall>k. 2 \<le> k \<and> k \<le> length ws \<and> k \<noteq> p \<longrightarrow> \<not> srt (elem ws (k div 2)) (elem ws k)) \<and>
     (\<forall>k. k div 2 = p \<and> k \<le> length ws \<and> 2 \<le> p \<longrightarrow> \<not> srt (elem ws (p div 2)) (elem ws k))"

locale priority_order =
  fixes srt :: "'a \<Rightarrow> 'a \<Rightarrow> bool"
  assumes irrefl: "\<not> srt a a"
    and asym: "srt a b \<Longrightarrow> \<not> srt b a"
    and above_trans: "\<not> srt a b \<Longrightarrow> \<not> srt b c \<Longrightarrow> \<not> srt a c"
begin

lemma up_gap_closed: "up_gap srt p ws \<Longrightarrow> (2 \<le> p \<Longrightarrow> p \<le> length ws \<Longrightarrow> \<not> srt (elem ws (p div 2)) (elem ws p)) \<Longrightarrow> heap_from srt 1 ws"
  unfolding up_gap_def heap_from_def by metis

lemma up_gap_exchange:
  assumes gap: "up_gap srt p ws" and p: "2 \<le> p" "p \<le> length ws" and bad: "srt (elem ws (p div 2)) (elem ws p)"
  shows "up_gap srt (p div 2) (exchange ws (p div 2) p)"
proof -
  let ?ws = "exchange ws (p div 2) p"
  have v: "valid_index ws p" "valid_index ws (p div 2)" using p by (auto simp: valid_index_def)
  have el: "elem ?ws k = (if k = p then elem ws (p div 2) else if k = p div 2 then elem ws p else elem ws k)"
    if "1 \<le> k" "k \<le> length ws" for k
    using elem_exchange [OF v(2,1), of k] that by (simp add: valid_index_def)
  have ord: "\<not> srt (elem ws (k div 2)) (elem ws k)" if "2 \<le> k" "k \<le> length ws" "k \<noteq> p" for k
    using gap that unfolding up_gap_def by blast
  have kid: "\<not> srt (elem ws (p div 2)) (elem ws k)" if "k div 2 = p" "k \<le> length ws" for k
    using gap that p unfolding up_gap_def by blast
  have top: "\<not> srt (elem ws p) (elem ws (p div 2))" using asym [OF bad] .
  show ?thesis unfolding up_gap_def
  proof (intro conjI allI impI)
    fix k assume k: "2 \<le> k \<and> k \<le> length ?ws \<and> k \<noteq> p div 2"
    then have lk: "2 \<le> k" "k \<le> length ws" "1 \<le> k div 2" "k div 2 \<le> length ws" by auto
    show "\<not> srt (elem ?ws (k div 2)) (elem ?ws k)"
    proof (cases "k = p")
      case True
      moreover have "p div 2 \<noteq> p" using p by auto
      ultimately show ?thesis using top p lk by (simp add: el)
    next
      case False
      consider "k div 2 = p" | "k div 2 = p div 2" "k div 2 \<noteq> p" | "k div 2 \<noteq> p" "k div 2 \<noteq> p div 2" by blast
      then show ?thesis
      proof cases
        case 1
        then show ?thesis using kid [OF 1] k False lk p by (simp add: el)
      next
        case 2
        have "\<not> srt (elem ws p) (elem ws k)"
          using above_trans [OF top, of "elem ws k"] ord [of k] lk False 2(1) by simp
        then show ?thesis using 2 k False lk p by (simp add: el)
      next
        case 3
        then show ?thesis using ord [of k] k False lk by (simp add: el)
      qed
    qed
  next
    fix k assume k: "k div 2 = p div 2 \<and> k \<le> length ?ws \<and> 2 \<le> p div 2"
    then have lk: "2 \<le> k" "k \<le> length ws" by auto
    let ?g = "p div 2 div 2"
    have g: "1 \<le> ?g" "?g \<noteq> p" "?g \<noteq> p div 2" "?g \<le> length ws" using k p by auto
    have gp: "\<not> srt (elem ws ?g) (elem ws (p div 2))" using ord [of "p div 2"] k p by auto
    have "\<not> srt (elem ws ?g) (elem ws k)" if "k \<noteq> p"
      using above_trans [OF gp, of "elem ws k"] ord [of k] lk k that by simp
    moreover have "k \<noteq> p div 2" using k by auto
    ultimately show "\<not> srt (elem ?ws (p div 2 div 2)) (elem ?ws k)"
      using gp g lk by (auto simp: el)
  qed
qed

lemma down_gap_exchange:
  assumes gap: "down_gap srt l p ws" and l: "1 \<le> l" "l \<le> p" and i: "i div 2 = p" "i \<le> length ws" and p: "1 \<le> p"
    and best: "\<And>k. k div 2 = p \<Longrightarrow> k \<le> length ws \<Longrightarrow> \<not> srt (elem ws i) (elem ws k)"
    and bad: "srt (elem ws p) (elem ws i)"
  shows "down_gap srt l i (exchange ws p i)"
proof -
  let ?ws = "exchange ws p i"
  have ip: "p < i" "2 \<le> i" using i p by auto
  then have v: "valid_index ws p" "valid_index ws i" using i p by (auto simp: valid_index_def)
  have el: "elem ?ws k = (if k = i then elem ws p else if k = p then elem ws i else elem ws k)"
    if "1 \<le> k" "k \<le> length ws" for k
    using elem_exchange [OF v, of k] that by (simp add: valid_index_def)
  have ord: "\<not> srt (elem ws (k div 2)) (elem ws k)" if "l \<le> k div 2" "2 \<le> k" "k \<le> length ws" "k div 2 \<noteq> p" for k
    using gap that unfolding down_gap_def by blast
  show ?thesis unfolding down_gap_def
  proof (intro conjI allI impI)
    fix k assume k: "l \<le> k div 2 \<and> 2 \<le> k \<and> k \<le> length ?ws \<and> k div 2 \<noteq> i"
    then have lk: "2 \<le> k" "k \<le> length ws" "1 \<le> k div 2" "k div 2 \<le> length ws" "k div 2 < k" by auto
    consider "k = p" | "k div 2 = p" "k = i" | "k div 2 = p" "k \<noteq> i" | "k div 2 \<noteq> p" "k \<noteq> p" by blast
    then show "\<not> srt (elem ?ws (k div 2)) (elem ?ws k)"
    proof cases
      case 1
      then have "\<not> srt (elem ws (p div 2)) (elem ws i)" using gap i k lk unfolding down_gap_def by auto
      moreover have "p div 2 \<noteq> i" "p div 2 \<noteq> p" "p \<noteq> i" using ip 1 lk by auto
      ultimately show ?thesis using 1 lk by (simp add: el)
    next
      case 2
      then show ?thesis using asym [OF bad] ip lk by (simp add: el)
    next
      case 3
      moreover have "k \<noteq> p" "p \<noteq> i" using 3 lk ip by auto
      ultimately show ?thesis using best [of k] lk by (simp add: el)
    next
      case 4
      have "k \<noteq> i" using 4 i by auto
      then show ?thesis using ord [of k] k lk 4 by (simp add: el)
    qed
  next
    fix k assume k: "k div 2 = i \<and> k \<le> length ?ws \<and> l \<le> i div 2 \<and> 1 \<le> i div 2"
    then have lk: "2 \<le> k" "k \<le> length ws" "k \<noteq> i" "k \<noteq> p" using ip by auto
    have "\<not> srt (elem ws i) (elem ws k)" using ord [of k] k lk l ip by auto
    then show "\<not> srt (elem ?ws (i div 2)) (elem ?ws k)" using lk i ip p by (simp add: el)
  qed
qed

lemma down_gap_closed:
  assumes "down_gap srt l p ws" "\<And>k. k div 2 = p \<Longrightarrow> k \<le> length ws \<Longrightarrow> 2 \<le> k \<Longrightarrow> \<not> srt (elem ws p) (elem ws k)"
  shows "heap_from srt l ws"
  using assms unfolding down_gap_def heap_from_def by metis

text \<open>The first element has the highest priority.\<close>

lemma heap_top:
  assumes "heap_from srt 1 ws" "1 \<le> k" "k \<le> length ws"
  shows "\<not> srt (elem ws 1) (elem ws k)"
  using assms(2,3)
proof (induction k rule: less_induct)
  case (less k)
  show ?case
  proof (cases "k = 1")
    case True
    then show ?thesis using irrefl by simp
  next
    case False
    then have "\<not> srt (elem ws 1) (elem ws (k div 2))" using less by auto
    moreover have "\<not> srt (elem ws (k div 2)) (elem ws k)"
      using assms(1) less.prems False unfolding heap_from_def by auto
    ultimately show ?thesis by (rule above_trans)
  qed
qed

end

section \<open>The repair loops\<close>

text \<open>The child with the higher priority.\<close>

definition best_child :: "('a \<Rightarrow> 'a \<Rightarrow> bool) \<Rightarrow> 'a list \<Rightarrow> nat \<Rightarrow> nat" where
  "best_child srt ws p =
     (if 2 * p < length ws \<and> srt (elem ws (2 * p)) (elem ws (2 * p + 1)) then 2 * p + 1 else 2 * p)"

lemma heal_down_step:
  assumes "pqv q ws" "1 \<le> p" "p \<le> length ws"
  shows "heal_down_loop q (length ws) p =
    (if 2 * p \<le> length ws \<and> pq_sort q (elem ws p) (elem ws (best_child (pq_sort q) ws p)) then
       do { q' \<leftarrow> swap q p (best_child (pq_sort q) ws p);
            heal_down_loop q' (length ws) (best_child (pq_sort q) ws p) }
     else Some q)"
proof (cases "2 * p \<le> length ws")
  case False
  have "(2 * p) mod 2 ^ 32 = 2 * p" using assms by (simp add: pqv_def)
  then show ?thesis using False by (subst heal_down_loop.simps) simp
next
  case True
  have m: "(2 * p) mod 2 ^ 32 = 2 * p" using assms by (simp add: pqv_def)
  have v: "valid_index ws p" "valid_index ws (2 * p)" using True assms(2) by (auto simp: valid_index_def)
  show ?thesis
  proof (cases "2 * p < length ws")
    case less: True
    then have v': "valid_index ws (2 * p + 1)" by (auto simp: valid_index_def)
    show ?thesis using True less m qcompare_elem [OF assms(1) v(2) v'] qcompare_elem [OF assms(1) v] qcompare_elem [OF assms(1) v(1) v']
      by (cases "pq_sort q (elem ws (2 * p)) (elem ws (2 * p + 1))";
          subst heal_down_loop.simps; simp add: best_child_def Let_def)
  next
    case False
    then show ?thesis using True m qcompare_elem [OF assms(1) v]
      by (subst heal_down_loop.simps) (simp add: best_child_def Let_def)
  qed
qed

lemma heal_up_step:
  assumes "pqv q ws" "1 \<le> p" "p \<le> length ws"
  shows "heal_up q p =
    (if 1 < p \<and> pq_sort q (elem ws (p div 2)) (elem ws p) then do { q' \<leftarrow> swap q (p div 2) p; heal_up q' (p div 2) }
     else Some q)"
proof (cases "1 < p")
  case True
  then have "valid_index ws (p div 2)" "valid_index ws p" using assms by (auto simp: valid_index_def)
  then show ?thesis using True qcompare_elem [OF assms(1)] by (subst heal_up.simps) simp
qed (subst heal_up.simps, simp)

lemma add_step:
  assumes "pqv q ws" "1 \<le> p" "p \<le> length ws"
  shows "add_pqueue q p =
    (if 1 < p \<and> pq_sort q (elem ws (p div 2)) (elem ws p) then do { q' \<leftarrow> swap q p (p div 2); add_pqueue q' (p div 2) }
     else Some q)"
proof (cases "1 < p")
  case True
  then have "valid_index ws (p div 2)" "valid_index ws p" "0 < p div 2" using assms by (auto simp: valid_index_def)
  then show ?thesis using True qcompare_elem [OF assms(1)]
    unfolding add_pqueue_def by (subst add_pqueue_loop.simps) simp
next
  case False
  then have "p div 2 = 0" using assms(2) by simp
  then show ?thesis using False unfolding add_pqueue_def by (subst add_pqueue_loop.simps) simp
qed

lemma exchange_commute: "exchange ws x y = exchange ws y x"
  by (cases "x - 1 = y - 1") (simp_all add: exchange_def elem_def list_update_swap)

locale pqueue_order = priority_order srt for srt :: "u64 \<Rightarrow> u64 \<Rightarrow> bool"
begin

lemma heal_down_loop_correct:
  "\<lbrakk>pqv q ws; pq_sort q = srt; 1 \<le> l; l \<le> p; p \<le> length ws; down_gap srt l p ws\<rbrakk> \<Longrightarrow>
   \<exists>q' ws'. heal_down_loop q (length ws) p = Some q' \<and> pqv q' ws' \<and> mset ws' = mset ws \<and> heap_from srt l ws' \<and> same_frame q q'"
proof (induction "length ws - p" arbitrary: q ws p rule: less_induct)
  case less
  have p: "1 \<le> p" using less.prems by simp
  note step = heal_down_step [OF less.prems(1) p less.prems(5)]
  show ?case
  proof (cases "2 * p \<le> length ws")
    case False
    then have "heap_from srt l ws" by (intro down_gap_closed [OF less.prems(6)]) auto
    then show ?thesis using False step less.prems(1) by auto
  next
    case True
    define i where "i = best_child srt ws p"
    have i: "i div 2 = p" "i \<le> length ws" "p < i" using True p by (auto simp: i_def best_child_def)
    have best: "\<not> srt (elem ws i) (elem ws k)" if k: "k div 2 = p" "k \<le> length ws" for k
    proof -
      have "k = 2 * p \<or> k = 2 * p + 1" using k(1) by auto
      then show ?thesis using k(2) irrefl asym by (auto simp: i_def best_child_def)
    qed
    show ?thesis
    proof (cases "srt (elem ws p) (elem ws i)")
      case False
      have "\<not> srt (elem ws p) (elem ws k)" if "k div 2 = p" "k \<le> length ws" for k
        using above_trans [OF False best [OF that]] .
      then have "heap_from srt l ws" by (intro down_gap_closed [OF less.prems(6)]) auto
      then show ?thesis using False step less.prems(1,2) i_def by auto
    next
      case bad: True
      have v: "valid_index ws p" "valid_index ws i" using i p by (auto simp: valid_index_def)
      obtain q1 where q1: "swap q p i = Some q1" "pqv q1 (exchange ws p i)" "same_frame q q1"
        using swap_exchange [OF less.prems(1) v] by blast
      have gap: "down_gap srt l i (exchange ws p i)"
        by (rule down_gap_exchange [OF less.prems(6,3,4) i(1,2) p best bad])
      have sort1: "pq_sort q1 = srt" using q1(3) less.prems(2) by (simp add: same_frame_def)
      have dec: "length (exchange ws p i) - i < length ws - p" "l \<le> i" "i \<le> length (exchange ws p i)"
        using i less.prems(4) by (simp_all add: diff_less_mono2)
      obtain q2 ws2 where "heal_down_loop q1 (length ws) i = Some q2" "pqv q2 ws2" "mset ws2 = mset (exchange ws p i)"
          "heap_from srt l ws2" "same_frame q1 q2"
        using less.hyps [OF dec(1) q1(2) sort1 less.prems(3) dec(2,3) gap] by auto
      then show ?thesis using bad True step q1 less.prems(2) mset_exchange [OF v] same_frame_trans [OF q1(3)]
        by (auto simp: i_def [symmetric])
    qed
  qed
qed

text \<open>Both upward loops, which differ in the order of the arguments of \<^verbatim>\<open>swap\<close>.\<close>

lemma repair_up:
  assumes step: "\<And>q ws p. \<lbrakk>pqv q ws; 1 \<le> p; p \<le> length ws\<rbrakk> \<Longrightarrow>
    f q p = (if 1 < p \<and> pq_sort q (elem ws (p div 2)) (elem ws p) then do { q' \<leftarrow> sw q (p div 2) p; f q' (p div 2) } else Some q)"
    and sw: "sw = swap \<or> sw = (\<lambda>q x y. swap q y x)"
  shows "\<lbrakk>pqv q ws; pq_sort q = srt; 1 \<le> p; p \<le> length ws; up_gap srt p ws\<rbrakk> \<Longrightarrow>
   \<exists>q' ws'. f q p = Some q' \<and> pqv q' ws' \<and> mset ws' = mset ws \<and> heap_from srt 1 ws' \<and> same_frame q q'"
proof (induction p arbitrary: q ws rule: less_induct)
  case (less p)
  note step' = step [OF less.prems(1,3,4)]
  show ?case
  proof (cases "1 < p \<and> srt (elem ws (p div 2)) (elem ws p)")
    case False
    then have "heap_from srt 1 ws" by (intro up_gap_closed [OF less.prems(5)]) auto
    moreover have "f q p = Some q" using False step' less.prems(2) by auto
    ultimately show ?thesis using less.prems(1) by auto
  next
    case True
    have v: "valid_index ws (p div 2)" "valid_index ws p" using True less.prems by (auto simp: valid_index_def)
    obtain q1 where q1: "sw q (p div 2) p = Some q1" "pqv q1 (exchange ws (p div 2) p)" "same_frame q q1"
      using swap_exchange [OF less.prems(1) v] swap_exchange [OF less.prems(1) v(2,1)] sw
      by (auto simp: exchange_commute [of ws p])
    have gap: "up_gap srt (p div 2) (exchange ws (p div 2) p)"
      using True less.prems by (intro up_gap_exchange) auto
    have sort1: "pq_sort q1 = srt" using q1(3) less.prems(2) by (simp add: same_frame_def)
    have small: "p div 2 < p" "1 \<le> p div 2" "p div 2 \<le> length (exchange ws (p div 2) p)" using True less.prems(4) by auto
    obtain q2 ws2 where q2: "f q1 (p div 2) = Some q2" "pqv q2 ws2" "mset ws2 = mset (exchange ws (p div 2) p)"
        "heap_from srt 1 ws2" "same_frame q1 q2"
      using less.IH [OF small(1) q1(2) sort1 small(2,3) gap] by blast
    then show ?thesis using step' True q1 less.prems(2) mset_exchange [OF v] same_frame_trans [OF q1(3)] by auto
  qed
qed

lemma heal_up_correct:
  "\<lbrakk>pqv q ws; pq_sort q = srt; 1 \<le> p; p \<le> length ws; up_gap srt p ws\<rbrakk> \<Longrightarrow>
   \<exists>q' ws'. heal_up q p = Some q' \<and> pqv q' ws' \<and> mset ws' = mset ws \<and> heap_from srt 1 ws' \<and> same_frame q q'"
  by (rule repair_up [where f = heal_up and sw = swap]) (simp_all add: heal_up_step)

lemma add_pqueue_correct:
  "\<lbrakk>pqv q ws; pq_sort q = srt; 1 \<le> p; p \<le> length ws; up_gap srt p ws\<rbrakk> \<Longrightarrow>
   \<exists>q' ws'. add_pqueue q p = Some q' \<and> pqv q' ws' \<and> mset ws' = mset ws \<and> heap_from srt 1 ws' \<and> same_frame q q'"
  by (rule repair_up [where f = add_pqueue and sw = "\<lambda>q x y. swap q y x"]) (simp_all add: add_step)

lemma up_gap_snoc: "heap_from srt 1 ws \<Longrightarrow> up_gap srt (Suc (length ws)) (ws @ [x])"
proof -
  assume heap: "heap_from srt 1 ws"
  have el: "elem (ws @ [x]) k = elem ws k" if "1 \<le> k" "k \<le> length ws" for k
  proof -
    have "k - 1 < length ws" using that by linarith
    then show ?thesis by (simp add: elem_def nth_append)
  qed
  have "\<not> srt (elem (ws @ [x]) (k div 2)) (elem (ws @ [x]) k)" if "2 \<le> k" "k \<le> length ws" for k
  proof -
    have "\<not> srt (elem ws (k div 2)) (elem ws k)" using heap that unfolding heap_from_def by auto
    moreover have "1 \<le> k div 2" "k div 2 \<le> length ws" using that by auto
    ultimately show ?thesis using that by (simp add: el)
  qed
  then show ?thesis unfolding up_gap_def by (auto simp: le_Suc_eq)
qed

lemma pqueue_insert_correct:
  assumes q: "pqv q ws" "pq_sort q = srt" "heap_from srt 1 ws" "Suc (length ws) < 2 ^ 27" "roomy (pq_body q) (8 + n)"
  shows "\<exists>q' ws'. pqueue_insert q v = Some q' \<and> pqv q' ws' \<and> mset ws' = add_mset v (mset ws) \<and>
    heap_from srt 1 ws' \<and> pq_sort q' = srt"
proof -
  obtain body where body: "vector_push (pq_body q) v = Some body" "vec body (ws @ [v])"
    using vector_push_vec [of "pq_body q" ws n v] q(1,5) by (auto simp: pqv_def)
  let ?q = "q\<lparr>pq_body := body\<rparr>"
  have pqv: "pqv ?q (ws @ [v])" using body(2) q(4) by (simp add: pqv_def)
  have len: "unat (vector_length body) = Suc (length ws)" using vector_length_vec(2) [OF body(2)] q(4) by simp
  show ?thesis
    using add_pqueue_correct [OF pqv, of "Suc (length ws)"] up_gap_snoc [OF q(3)] q(2) body(1) len
    by (auto simp: pqueue_insert_def same_frame_def)
qed

lemma heap_prefix: "heap_from srt l (us @ vs) \<Longrightarrow> heap_from srt l us"
proof -
  assume heap: "heap_from srt l (us @ vs)"
  have el: "elem (us @ vs) k = elem us k" if "1 \<le> k" "k \<le> length us" for k
  proof -
    have "k - 1 < length us" using that by linarith
    then show ?thesis by (simp add: elem_def nth_append)
  qed
  show ?thesis unfolding heap_from_def
  proof (intro allI impI)
    fix k assume k: "l \<le> k div 2 \<and> 2 \<le> k \<and> k \<le> length us"
    then have "1 \<le> k div 2" "k div 2 \<le> length us" "1 \<le> k" by auto
    moreover have "\<not> srt (elem (us @ vs) (k div 2)) (elem (us @ vs) k)" using heap k unfolding heap_from_def by auto
    ultimately show "\<not> srt (elem us (k div 2)) (elem us k)" using k by (simp add: el)
  qed
qed

text \<open>One element of a heap is replaced: the order can fail above it or below it, not both.\<close>

lemma elem_update: "valid_index us p \<Longrightarrow> valid_index us k \<Longrightarrow> elem (us[p - 1 := x]) k = (if k = p then x else elem us k)"
  by (auto simp: elem_def valid_index_def nth_list_update)

lemma heap_edge: "heap_from srt 1 us \<Longrightarrow> 2 \<le> k \<Longrightarrow> k \<le> length us \<Longrightarrow> \<not> srt (elem us (k div 2)) (elem us k)"
  unfolding heap_from_def by auto

lemma heap_grandchild:
  assumes heap: "heap_from srt 1 us" and k: "k div 2 = p" "k \<le> length us" "2 \<le> p"
  shows "\<not> srt (elem us (p div 2)) (elem us k)"
proof -
  have "2 \<le> k" "p \<le> length us" using k by auto
  then have "\<not> srt (elem us (p div 2)) (elem us p)" "\<not> srt (elem us p) (elem us k)"
    using heap_edge [OF heap, of p] heap_edge [OF heap, of k] k by auto
  then show ?thesis by (rule above_trans)
qed

lemma replaced_up:
  assumes heap: "heap_from srt 1 us" and p: "2 \<le> p" "p \<le> length us" and bad: "srt (elem us (p div 2)) x"
  shows "up_gap srt p (us[p - 1 := x])"
proof -
  define vs where "vs = us[p - 1 := x]"
  have len: "length vs = length us" by (simp add: vs_def)
  have v: "valid_index us p" using p by (auto simp: valid_index_def)
  have el: "elem vs k = (if k = p then x else elem us k)" if "1 \<le> k" "k \<le> length us" for k
    using elem_update [OF v, of k x] that unfolding vs_def by (simp add: valid_index_def)
  show ?thesis unfolding up_gap_def vs_def [symmetric]
  proof (intro conjI allI impI)
    fix k assume k: "2 \<le> k \<and> k \<le> length vs \<and> k \<noteq> p"
    then have kb: "1 \<le> k" "k \<le> length us" "1 \<le> k div 2" "k div 2 \<le> length us" using len by auto
    show "\<not> srt (elem vs (k div 2)) (elem vs k)"
    proof (cases "k div 2 = p")
      case True
      have "\<not> srt x (elem us k)"
        using above_trans [OF asym [OF bad] heap_grandchild [OF heap True kb(2) p(1)]] .
      then show ?thesis using True k kb by (simp add: el)
    next
      case False
      then show ?thesis using heap_edge [OF heap, of k] k kb by (simp add: el)
    qed
  next
    fix k assume k: "k div 2 = p \<and> k \<le> length vs \<and> 2 \<le> p"
    then have "1 \<le> k" "k \<le> length us" "k \<noteq> p" "1 \<le> p div 2" "p div 2 \<le> length us" "p div 2 \<noteq> p" using p len by auto
    then show "\<not> srt (elem vs (p div 2)) (elem vs k)"
      using heap_grandchild [OF heap, of k p] k by (simp add: el)
  qed
qed

lemma replaced_down:
  assumes heap: "heap_from srt 1 us" and p: "1 \<le> p" "p \<le> length us" and ok: "2 \<le> p \<Longrightarrow> \<not> srt (elem us (p div 2)) x"
  shows "down_gap srt 1 p (us[p - 1 := x])"
proof -
  define vs where "vs = us[p - 1 := x]"
  have len: "length vs = length us" by (simp add: vs_def)
  have v: "valid_index us p" using p by (auto simp: valid_index_def)
  have el: "elem vs k = (if k = p then x else elem us k)" if "1 \<le> k" "k \<le> length us" for k
    using elem_update [OF v, of k x] that unfolding vs_def by (simp add: valid_index_def)
  show ?thesis unfolding down_gap_def vs_def [symmetric]
  proof (intro conjI allI impI)
    fix k assume k: "1 \<le> k div 2 \<and> 2 \<le> k \<and> k \<le> length vs \<and> k div 2 \<noteq> p"
    then have kb: "1 \<le> k" "k \<le> length us" "1 \<le> k div 2" "k div 2 \<le> length us" using len by auto
    then show "\<not> srt (elem vs (k div 2)) (elem vs k)"
      using heap_edge [OF heap, of k] k ok by (cases "k = p") (simp_all add: el)
  next
    fix k assume k: "k div 2 = p \<and> k \<le> length vs \<and> 1 \<le> p div 2 \<and> 1 \<le> p div 2"
    then have "1 \<le> k" "k \<le> length us" "k \<noteq> p" "p div 2 \<le> length us" "p div 2 \<noteq> p" "2 \<le> p" using p len by auto
    then show "\<not> srt (elem vs (p div 2)) (elem vs k)"
      using heap_grandchild [OF heap, of k p] k by (simp add: el)
  qed
qed

lemma mset_replace_last:
  assumes "i < length us"
  shows "mset (us[i := x]) = mset (us @ [x]) - {#(us @ [x]) ! i#}"
  using assms by (simp add: mset_update nth_append)

lemma heal_down_correct:
  assumes "pqv q ws" "pq_sort q = srt" "1 \<le> l" "l \<le> p" "p \<le> length ws" "down_gap srt l p ws"
  shows "\<exists>q' ws'. heal_down q p = Some q' \<and> pqv q' ws' \<and> mset ws' = mset ws \<and> heap_from srt l ws' \<and> same_frame q q'"
proof -
  have "unat (vector_length (pq_body q)) = length ws"
    using vector_length_vec(2) [of "pq_body q" ws] assms(1) by (simp add: pqv_def)
  then show ?thesis using heal_down_loop_correct [OF assms] by (simp add: heal_down_def)
qed

lemma pqueue_remove_at_correct:
  assumes q: "pqv q ws" "pq_sort q = srt" "heap_from srt 1 ws" and i: "i < length ws"
  shows "\<exists>q' ws'. pqueue_remove_at q i = Some q' \<and> pqv q' ws' \<and> mset ws' = mset ws - {#ws ! i#} \<and>
    heap_from srt 1 ws' \<and> pq_sort q' = srt"
proof -
  obtain us x where ws: "ws = us @ [x]" using i by (cases ws rule: rev_cases) auto
  have small: "length us < 2 ^ 27" using q(1) ws by (simp add: pqv_def)
  obtain body where body: "vector_pop (pq_body q) = Some (x, body)" "vec body us"
    using vector_pop_vec(1) [of "pq_body q" us x] q(1) ws by (auto simp: pqv_def)
  have len: "unat (vector_length body) = length us" using vector_length_vec(2) [OF body(2)] small by simp
  have heap: "heap_from srt 1 us" using q(3) heap_prefix unfolding ws by blast
  show ?thesis
  proof (cases "i = length us")
    case True
    then show ?thesis using body len heap small q(2) ws
      by (auto simp: pqueue_remove_at_def pqv_def)
  next
    case False
    then have iu: "i < length us" using i ws by simp
    then have i27: "i < 2 ^ 27" using small by linarith
    obtain b2 where b2: "vector_set body (of_nat i) x = Some (True, b2)" "vec b2 (us[i := x])"
      using vector_set_vec [OF body(2) iu i27] by blast
    let ?q = "q\<lparr>pq_body := b2\<rparr>" and ?p = "i + 1"
    have pqv: "pqv ?q (us[i := x])" using b2(2) small by (simp add: pqv_def)
    have p: "1 \<le> ?p" "?p \<le> length us" "?p \<le> length (us[i := x])" using iu by simp_all
    have mset: "mset (us[i := x]) = mset ws - {#ws ! i#}" using mset_replace_last [OF iu, of x] ws by simp
    have el: "elem (us[i := x]) ?p = x" using iu by (simp add: elem_def)
    have elp: "elem (us[i := x]) (?p div 2) = elem us (?p div 2)" if "2 \<le> ?p"
    proof -
      have v: "valid_index us ?p" "valid_index us (?p div 2)" "?p div 2 \<noteq> ?p" using that p by (auto simp: valid_index_def)
      show ?thesis using elem_update [OF v(1,2), of x] v(3) by simp
    qed
    have cmp: "(if ?p > 1 then qcompare ?q (?p div 2) ?p else Some False) =
        Some (2 \<le> ?p \<and> srt (elem us (?p div 2)) x)"
    proof (cases "2 \<le> ?p")
      case True
      then have "valid_index (us[i := x]) (?p div 2)" "valid_index (us[i := x]) ?p" using p by (auto simp: valid_index_def)
      then show ?thesis using qcompare_elem [OF pqv] True q(2) el elp by simp
    qed simp
    have step: "pqueue_remove_at q i = (if 2 \<le> ?p \<and> srt (elem us (?p div 2)) x then heal_up ?q ?p else heal_down ?q ?p)"
      using body(1) len False b2(1) cmp by (simp add: pqueue_remove_at_def Let_def)
    show ?thesis
    proof (cases "2 \<le> ?p \<and> srt (elem us (?p div 2)) x")
      case True
      then have "up_gap srt ?p (us[i := x])" using replaced_up [OF heap, of ?p x] p by simp
      then show ?thesis using heal_up_correct [OF pqv _ p(1,3)] q(2) step True mset by (auto simp: same_frame_def)
    next
      case False
      then have "down_gap srt 1 ?p (us[i := x])" using replaced_down [OF heap p(1,2), of x] by simp
      then show ?thesis using heal_down_correct [OF pqv _ _ p(1,3)] q(2) step False mset by (auto simp: same_frame_def)
    qed
  qed
qed

lemma pqueue_pop_empty: "pqv q [] \<Longrightarrow> pqueue_pop q = Some (INVALID_ADDRESS, q) \<and> pqueue_peek q = Some INVALID_ADDRESS"
  using vector_length_vec [of "pq_body q" "[]"]
  by (simp add: pqv_def pqueue_pop_def pqueue_peek_def pqueue_peek_at_def)

lemma pqueue_pop_correct:
  assumes q: "pqv q ws" "pq_sort q = srt" "heap_from srt 1 ws" and ne: "ws \<noteq> []" and nn: "0 \<notin> set ws"
  shows "\<exists>q' ws'. pqueue_pop q = Some (hd ws, q') \<and> pqv q' ws' \<and> mset ws' = mset ws - {#hd ws#} \<and>
    heap_from srt 1 ws' \<and> pq_sort q' = srt"
proof -
  obtain us x where ws: "ws = us @ [x]" using ne by (cases ws rule: rev_cases) auto
  have vec: "vec (pq_body q) ws" and small: "length us < 2 ^ 27" "length ws < 2 ^ 31" using q(1) ws by (simp_all add: pqv_def)
  have get: "vector_get (pq_body q) 0 = Some (hd ws)" using vector_get_vec [OF vec, of 0] ne by (simp add: hd_conv_nth)
  have pos: "sint (vector_length (pq_body q)) > 0" using vector_length_vec(3) [OF vec small(2)] ne by simp
  obtain body where body: "vector_pop (pq_body q) = Some (x, body)" "vec body us"
    using vector_pop_vec(1) [of "pq_body q" us x] vec ws by auto
  have heap: "heap_from srt 1 us" using q(3) heap_prefix unfolding ws by blast
  show ?thesis
  proof (cases us rule: rev_cases)
    case Nil
    then have "vector_peek body = Some 0" using vector_pop_empty body(2) by simp
    then show ?thesis using Nil pos get body heap small(1) q(2) ws by (auto simp: pqueue_pop_def pqv_def)
  next
    case (snoc vs y)
    then have "vector_peek body = Some y" "y \<noteq> 0" using vector_pop_vec(2) body(2) nn ws by auto
    moreover have us: "0 < length us" using snoc by simp
    moreover have le: "1 \<le> length (us[0 := x])" using snoc by simp
    moreover obtain b2 where b2: "vector_set body 0 x = Some (True, b2)" "vec b2 (us[0 := x])"
      using vector_set_vec [OF body(2) us, of x] by auto
    moreover have gap: "down_gap srt 1 1 (us[0 := x])" using replaced_down [OF heap, of 1 x] us by simp
    moreover have pqv: "pqv (q\<lparr>pq_body := b2\<rparr>) (us[0 := x])" using b2(2) small by (simp add: pqv_def)
    moreover have "mset (us[0 := x]) = mset ws - {#hd ws#}"
      using mset_replace_last [OF us, of x] ws us by (simp add: hd_conv_nth)
    ultimately show ?thesis using pos get body(1) heal_down_correct [OF pqv _ _ _ le gap] q(2)
      by (auto simp: pqueue_pop_def same_frame_def)
  qed
qed

lemma pqueue_peek_correct:
  assumes "pqv q ws" "ws \<noteq> []"
  shows "pqueue_peek q = Some (hd ws)"
  using assms vector_length_vec(2) [of "pq_body q" ws] vector_get_vec [of "pq_body q" ws 0]
  by (simp add: pqueue_peek_def pqueue_peek_at_def pqv_def hd_conv_nth)

lemma remove_search_correct:
  assumes q: "pqv q ws" "pq_sort q = srt" "heap_from srt 1 ws"
  shows "i + n = length ws \<Longrightarrow> v \<notin> set (take i ws) \<Longrightarrow>
    \<exists>q' ws'. remove_search q v i n = Some (v \<in> set ws, q') \<and> pqv q' ws' \<and> mset ws' = mset ws - {#v#} \<and>
      heap_from srt 1 ws' \<and> pq_sort q' = srt"
proof (induction n arbitrary: i)
  case 0
  then show ?case using q by auto
next
  case (Suc n)
  have i: "i < length ws" "i < 2 ^ 31" using Suc.prems q(1) by (auto simp: pqv_def)
  have get: "vector_get (pq_body q) (of_nat i) = Some (ws ! i)"
    using vector_get_vec [of "pq_body q" ws i] q(1) i by (simp add: pqv_def)
  show ?case
  proof (cases "ws ! i = v")
    case True
    then have "v \<in> set ws" using i(1) by auto
    then show ?thesis using pqueue_remove_at_correct [OF q i(1)] get True by auto
  next
    case False
    then have "v \<notin> set (take (Suc i) ws)" using Suc.prems(2) i(1) by (simp add: take_Suc_conv_app_nth)
    then show ?thesis using Suc.IH [of "Suc i"] Suc.prems(1) get False by simp
  qed
qed

lemma pqueue_remove_correct:
  assumes q: "pqv q ws" "pq_sort q = srt" "heap_from srt 1 ws"
  shows "\<exists>q' ws'. pqueue_remove q v = Some (v \<in> set ws, q') \<and> pqv q' ws' \<and> mset ws' = mset ws - {#v#} \<and>
      heap_from srt 1 ws' \<and> pq_sort q' = srt"
  using remove_search_correct [OF q, of 0 "length ws" v] vector_length_vec(2) [of "pq_body q" ws] q(1)
  by (simp add: pqueue_remove_def pqv_def)

lemma heap_gap: "heap_from srt (Suc i) ws \<Longrightarrow> down_gap srt i i ws"
  unfolding heap_from_def down_gap_def by (auto simp: Suc_le_eq)

lemma reorder_down_correct:
  "\<lbrakk>pqv q ws; pq_sort q = srt; i \<le> length ws div 2; heap_from srt (Suc i) ws\<rbrakk> \<Longrightarrow>
   \<exists>q' ws'. reorder_down q i = Some q' \<and> pqv q' ws' \<and> mset ws' = mset ws \<and> heap_from srt 1 ws' \<and> pq_sort q' = srt"
proof (induction i arbitrary: q ws)
  case (Suc i)
  have le: "Suc i \<le> length ws" using Suc.prems(3) by simp
  obtain q1 ws1 where q1: "heal_down q (Suc i) = Some q1" "pqv q1 ws1" "mset ws1 = mset ws" "heap_from srt (Suc i) ws1" "same_frame q q1"
    using heal_down_correct [OF Suc.prems(1,2) _ _ le heap_gap [OF Suc.prems(4)]] by auto
  have "length ws1 = length ws" using q1(3) mset_eq_length by blast
  then show ?case using Suc.IH [of q1 ws1] q1 Suc.prems(2,3) by (simp add: same_frame_def)
qed auto

lemma pqueue_reorder_correct:
  assumes "pqv q ws" "pq_sort q = srt"
  shows "\<exists>q' ws'. pqueue_reorder q = Some q' \<and> pqv q' ws' \<and> mset ws' = mset ws \<and> heap_from srt 1 ws' \<and> pq_sort q' = srt"
proof -
  have "heap_from srt (Suc (length ws div 2)) ws" unfolding heap_from_def by auto
  then show ?thesis
    using reorder_down_correct [OF assms, of "length ws div 2"] vector_length_vec(2) [of "pq_body q" ws] assms(1)
    by (simp add: pqueue_reorder_def pqv_def)
qed

lemma heap_hd_top:
  assumes "heap_from srt 1 ws" "v \<in> set ws"
  shows "\<not> srt (hd ws) v"
proof -
  obtain j where j: "j < length ws" "ws ! j = v" using assms(2) by (auto simp: in_set_conv_nth)
  have "\<not> srt (elem ws 1) (elem ws (Suc j))" using heap_top [OF assms(1), of "Suc j"] j(1) by simp
  moreover have "hd ws = ws ! 0" using j(1) by (cases ws) auto
  ultimately show ?thesis using j by (simp add: elem_def)
qed

end

fun walk_list :: "(u64 \<Rightarrow> 's \<Rightarrow> bool \<times> 's) \<Rightarrow> 's \<Rightarrow> u64 list \<Rightarrow> bool \<times> 's" where
  "walk_list h s [] = (True, s)"
| "walk_list h s (e # es) = (let (ok, s') = h e s in if \<not> ok then (False, s') else walk_list h s' es)"

lemma walk_from_list:
  "pqv q ws \<Longrightarrow> i + n = length ws \<Longrightarrow> walk_from q h s i n = Some (walk_list h s (drop i ws))"
proof (induction n arbitrary: i s)
  case (Suc n)
  then have "vector_get (pq_body q) (of_nat i) = Some (ws ! i)" "drop i ws = ws ! i # drop (Suc i) ws"
    using vector_get_vec [of "pq_body q" ws i] by (simp_all add: pqv_def Cons_nth_drop_Suc)
  then show ?case using Suc by (simp split: prod.splits)
qed simp

lemma pqueue_walk_list: "pqv q ws \<Longrightarrow> pqueue_walk q h s = Some (walk_list h s ws)"
  using walk_from_list [of q ws 0 "length ws" h s] vector_length_vec(2) [of "pq_body q" ws]
  by (simp add: pqueue_walk_def pqv_def)

section \<open>The contract of the component\<close>

text \<open>A queue ordered by the pointers themselves, the smallest first.\<close>

interpretation by_value: pqueue_order "\<lambda>a b :: u64. a > b"
  by unfold_locales auto

definition sample_pqueue :: pqueue where
  "sample_pqueue = \<lparr>pq_h = sample_heap, pq_body = sample_vector, pq_sort = (\<lambda>a b. a > b)\<rparr>"

lemma sample_pqueue_ok:
  "pqueue_order (pq_sort sample_pqueue)" "pqv sample_pqueue [7, 9]" "heap_from (pq_sort sample_pqueue) 1 [7, 9]"
  "roomy (pq_body sample_pqueue) 8"
proof -
  show "pqueue_order (pq_sort sample_pqueue)" using by_value.pqueue_order_axioms by (simp add: sample_pqueue_def)
  show "pqv sample_pqueue [7, 9]" using sample_vector_vec by (simp add: pqv_def sample_pqueue_def)
  have "k = 2" if "2 \<le> k" "k \<le> 2" for k :: nat using that by simp
  then show "heap_from (pq_sort sample_pqueue) 1 [7, 9]"
    by (auto simp: heap_from_def sample_pqueue_def elem_def)
  show "roomy (pq_body sample_pqueue) 8" using sample_vector_roomy [of 8] by (simp add: sample_pqueue_def)
qed



text \<open>
  Property C22. \<^verbatim>\<open>pqueue_reorder\<close> makes a heap of any vector of pointers, which is how the queue is
  repaired after the priorities of its elements have changed, and \<^verbatim>\<open>pqueue_walk\<close> calls the handler for
  every element until it returns false.
\<close>

theorem pqueue_reorder_walk:
  assumes "pqueue_order (pq_sort q)" "pqv q ws"
  shows "(\<exists>q' ws'. pqueue_reorder q = Some q' \<and> pqv q' ws' \<and> mset ws' = mset ws \<and> heap_from (pq_sort q) 1 ws') \<and>
    pqueue_walk q h s = Some (walk_list h s ws)"
  using pqueue_order.pqueue_reorder_correct [OF assms refl] pqueue_walk_list [OF assms(2)] by auto

theorem pqueue_reorder_walk_witness:
  "\<exists>q' ws'. pqueue_reorder sample_pqueue = Some q' \<and> pqv q' ws' \<and> mset ws' = {#7, 9#}"
  using pqueue_reorder_walk [OF sample_pqueue_ok(1,2), of "\<lambda>e s. (True, s)" "()"] by auto

end
