(* ===== verification/Table.thy ===== *)
theory Table
  imports Buffer_Search
begin

text \<open>
  The hash table of \<^verbatim>\<open>kernel/src/runtime/table.c\<close>. A bucket is the list of its chained entries in the order
  of the \<^verbatim>\<open>next\<close> pointers; a pointer to a link of the chain is the position in that list. The
  functions \<^verbatim>\<open>key_function\<close> and \<^verbatim>\<open>equals_function\<close> of a table are parameters with the laws of a
  hash as their contract. The abstract value of a table is a partial map on keys.
\<close>

section \<open>Operations\<close>

record entry =
  e_v :: u64
  e_k :: u64
  e_c :: u64

text \<open>\<open>t_shared\<close> says that the entries come from the heap of the table itself, \<^verbatim>\<open>t->h == t->eh\<close>.\<close>

record table =
  t_h :: heap
  t_eh :: heap
  t_shared :: bool
  t_buckets :: nat
  t_count :: nat
  t_entries :: "entry list list"
  t_key :: "u64 \<Rightarrow> u64"
  t_equals :: "u64 \<Rightarrow> u64 \<Rightarrow> bool"

definition EMPTY :: u64 where
  "EMPTY = 0"

definition TABLE_MAX_BUCKETS :: nat where
  "TABLE_MAX_BUCKETS = 131072"

definition sizeof_entry :: u64 where
  "sizeof_entry = 32"

definition sizeof_table :: u64 where
  "sizeof_table = 48"

definition pointer_equal :: "u64 \<Rightarrow> u64 \<Rightarrow> bool" where
  "pointer_equal a b = (a = b)"

definition identity_key :: "u64 \<Rightarrow> u64" where
  "identity_key a = a"

text \<open>
  \<open>objcache\<close> is the heap that \<^verbatim>\<open>allocate_objcache_preallocated\<close> returns, if it succeeds; it is asked for only
  when a number of entries is preallocated.
\<close>

definition allocate_table_internal ::
  "heap \<Rightarrow> heap option \<Rightarrow> (u64 \<Rightarrow> u64) \<Rightarrow> (u64 \<Rightarrow> u64 \<Rightarrow> bool) \<Rightarrow> nat \<Rightarrow> table option" where
  "allocate_table_internal h objcache key_function equals_function prealloc_count =
     (case h sizeof_table of
        None \<Rightarrow> None
      | Some _ \<Rightarrow>
          let buckets = (if prealloc_count \<noteq> 0 then prealloc_count else 4) in
          (case h (of_nat (buckets * 8)) of
             None \<Rightarrow> None
           | Some _ \<Rightarrow>
               if prealloc_count \<noteq> 0 then
                 (case objcache of
                    None \<Rightarrow> None
                  | Some eh \<Rightarrow>
                      Some \<lparr>t_h = h, t_eh = eh, t_shared = False, t_buckets = buckets, t_count = 0,
                        t_entries = replicate buckets [], t_key = key_function, t_equals = equals_function\<rparr>)
               else Some \<lparr>t_h = h, t_eh = h, t_shared = True, t_buckets = buckets, t_count = 0,
                      t_entries = replicate buckets [], t_key = key_function, t_equals = equals_function\<rparr>))"

definition allocate_table :: "heap \<Rightarrow> (u64 \<Rightarrow> u64) \<Rightarrow> (u64 \<Rightarrow> u64 \<Rightarrow> bool) \<Rightarrow> table option" where
  "allocate_table h key_function equals_function = allocate_table_internal h None key_function equals_function 0"

definition allocate_table_preallocated ::
  "heap \<Rightarrow> heap option \<Rightarrow> (u64 \<Rightarrow> u64) \<Rightarrow> (u64 \<Rightarrow> u64 \<Rightarrow> bool) \<Rightarrow> nat \<Rightarrow> table option" where
  "allocate_table_preallocated h objcache key_function equals_function prealloc_count =
     allocate_table_internal h objcache key_function equals_function prealloc_count"

definition position :: "nat \<Rightarrow> u64 \<Rightarrow> nat" where
  "position buckets x = unat (x AND of_nat (buckets - 1))"

text \<open>Each entry is moved to the front of its new chain, chain after chain.\<close>

fun move_chain :: "nat \<Rightarrow> entry list \<Rightarrow> entry list list \<Rightarrow> entry list list" where
  "move_chain buckets [] nentries = nentries"
| "move_chain buckets (j # n) nentries =
     (let km = position buckets (e_k j) in move_chain buckets n (nentries[km := j # nentries ! km]))"

fun move_buckets :: "nat \<Rightarrow> entry list list \<Rightarrow> entry list list \<Rightarrow> entry list list" where
  "move_buckets buckets [] nentries = nentries"
| "move_buckets buckets (b # bs) nentries = move_buckets buckets bs (move_chain buckets b nentries)"

definition resize_table :: "table \<Rightarrow> nat \<Rightarrow> table option" where
  "resize_table t buckets =
     do { assert_ok ((of_nat buckets :: 32 word) AND (of_nat buckets - 1) = 0);
          assert_ok (buckets \<le> TABLE_MAX_BUCKETS);
          assert_ok (t_shared t);
          assert_ok (t_h t (of_nat (buckets * 8)) \<noteq> None);
          Some (t\<lparr>t_entries := move_buckets buckets (t_entries t) (replicate buckets []), t_buckets := buckets\<rparr>) }"

text \<open>The new entry is linked at \<open>e\<close>, the end of chain \<open>p\<close>.\<close>

definition table_insert_internal :: "table \<Rightarrow> u64 \<Rightarrow> nat \<Rightarrow> u64 \<Rightarrow> u64 \<Rightarrow> table option" where
  "table_insert_internal t k p c v =
     do { assert_ok (t_eh t sizeof_entry \<noteq> None);
          let n = \<lparr>e_v = v, e_k = k, e_c = c\<rparr>;
          let t1 = t\<lparr>t_entries := (t_entries t)[p := t_entries t ! p @ [n]], t_count := t_count t + 1\<rparr>;
          if t_count t > t_buckets t \<and> t_buckets t \<le> TABLE_MAX_BUCKETS div 2
          then resize_table t1 (t_buckets t * 2)
          else Some t1 }"

text \<open>The entry at position \<open>i\<close> of chain \<open>p\<close> is unlinked.\<close>

definition table_remove_internal :: "table \<Rightarrow> nat \<Rightarrow> nat \<Rightarrow> table option" where
  "table_remove_internal t p i =
     do { assert_ok (t_count t > 0);
          let chain = t_entries t ! p;
          Some (t\<lparr>t_count := t_count t - 1, t_entries := (t_entries t)[p := take i chain @ drop (Suc i) chain]\<rparr>) }"

text \<open>The loop that all operations share: the position of the first entry that matches, if there is one.\<close>

fun chain_search :: "table \<Rightarrow> u64 \<Rightarrow> u64 \<Rightarrow> entry list \<Rightarrow> nat \<Rightarrow> nat option" where
  "chain_search t k c [] i = None"
| "chain_search t k c (e # es) i =
     (if e_k e = k \<and> t_equals t (e_c e) c then Some i else chain_search t k c es (Suc i))"

definition table_find :: "table \<Rightarrow> u64 \<Rightarrow> u64" where
  "table_find t c =
     (let k = t_key t c; chain = t_entries t ! position (t_buckets t) k in
      case chain_search t k c chain 0 of
        Some i \<Rightarrow> e_v (chain ! i)
      | None \<Rightarrow> EMPTY)"

definition table_set :: "table \<Rightarrow> u64 \<Rightarrow> u64 \<Rightarrow> table option" where
  "table_set t c v =
     (let k = t_key t c; p = position (t_buckets t) k; chain = t_entries t ! p in
      case chain_search t k c chain 0 of
        Some i \<Rightarrow>
          if v = EMPTY then table_remove_internal t p i
          else Some (t\<lparr>t_entries := (t_entries t)[p := chain[i := (chain ! i)\<lparr>e_v := v\<rparr>]]\<rparr>)
      | None \<Rightarrow> if v \<noteq> EMPTY then table_insert_internal t k p c v else Some t)"

definition table_set_noreplace :: "table \<Rightarrow> u64 \<Rightarrow> u64 \<Rightarrow> (bool \<times> table) option" where
  "table_set_noreplace t c v =
     (let k = t_key t c; p = position (t_buckets t) k in
      case chain_search t k c (t_entries t ! p) 0 of
        Some i \<Rightarrow> Some (False, t)
      | None \<Rightarrow> do { t' \<leftarrow> table_insert_internal t k p c v; Some (True, t') })"

definition table_remove :: "table \<Rightarrow> u64 \<Rightarrow> (u64 \<times> table) option" where
  "table_remove t c =
     (let k = t_key t c; p = position (t_buckets t) k; chain = t_entries t ! p in
      case chain_search t k c chain 0 of
        Some i \<Rightarrow> do { t' \<leftarrow> table_remove_internal t p i; Some (e_v (chain ! i), t') }
      | None \<Rightarrow> Some (EMPTY, t))"

definition table_elements :: "table \<Rightarrow> nat" where
  "table_elements t = t_count t"

definition table_clear :: "table \<Rightarrow> table" where
  "table_clear t = t\<lparr>t_entries := replicate (t_buckets t) [], t_count := 0\<rparr>"

text \<open>The pairs that \<^verbatim>\<open>table_foreach\<close> visits.\<close>

definition table_foreach :: "table \<Rightarrow> (u64 \<times> u64) list" where
  "table_foreach t = map (\<lambda>e. (e_c e, e_v e)) (concat (t_entries t))"

section \<open>Hash functions\<close>

locale table_keys =
  fixes key :: "u64 \<Rightarrow> u64" and equals :: "u64 \<Rightarrow> u64 \<Rightarrow> bool"
  assumes equals_refl: "equals a a"
    and equals_sym: "equals a b \<Longrightarrow> equals b a"
    and equals_trans: "equals a b \<Longrightarrow> equals b c \<Longrightarrow> equals a c"
    and equals_key: "equals a b \<Longrightarrow> key a = key b"

interpretation pointer_keys: table_keys identity_key pointer_equal
  by unfold_locales (auto simp: pointer_equal_def identity_key_def)

section \<open>Invariant and abstract value\<close>

definition ents :: "table \<Rightarrow> entry list" where
  "ents t = concat (t_entries t)"

text \<open>Entry chains in which every entry is in the bucket of its key.\<close>

definition in_place :: "nat \<Rightarrow> entry list list \<Rightarrow> bool" where
  "in_place n es \<longleftrightarrow> 0 < n \<and> n < 2 ^ 31 \<and> length es = n \<and> (\<forall>p < n. \<forall>e \<in> set (es ! p). position n (e_k e) = p)"

text \<open>At most one of a collection of entries matches a key, and what an entry says about a key.\<close>

definition one_each :: "(u64 \<Rightarrow> u64 \<Rightarrow> bool) \<Rightarrow> entry multiset \<Rightarrow> bool" where
  "one_each eq M \<longleftrightarrow> (\<forall>c. size (filter_mset (\<lambda>e. eq (e_c e) c) M) \<le> 1)"

definition wf_table :: "table \<Rightarrow> bool" where
  "wf_table t \<longleftrightarrow>
     in_place (t_buckets t) (t_entries t) \<and> t_count t = length (ents t) \<and>
     (\<forall>e \<in> set (ents t). e_k e = t_key t (e_c e)) \<and> one_each (t_equals t) (mset (ents t))"

definition tab_map :: "table \<Rightarrow> u64 \<Rightarrow> u64 option" where
  "tab_map t c = map_option e_v (find (\<lambda>e. t_equals t (e_c e) c) (ents t))"

text \<open>A table that can take one more entry, and one that can take any number.\<close>

definition table_room :: "table \<Rightarrow> bool" where
  "table_room t \<longleftrightarrow>
     t_eh t sizeof_entry \<noteq> None \<and>
     (t_count t > t_buckets t \<and> t_buckets t \<le> TABLE_MAX_BUCKETS div 2 \<longrightarrow>
        t_shared t \<and> (of_nat (t_buckets t * 2) :: 32 word) AND (of_nat (t_buckets t * 2) - 1) = 0 \<and>
        t_h t (of_nat (t_buckets t * 2 * 8)) \<noteq> None)"

definition table_grows :: "table \<Rightarrow> bool" where
  "table_grows t \<longleftrightarrow> (\<forall>s. t_h t s \<noteq> None) \<and> t_eh t = t_h t \<and> t_shared t \<and> (\<exists>k \<le> 17. t_buckets t = 2 ^ k)"

lemma position_less: "0 < n \<Longrightarrow> n < 2 ^ 31 \<Longrightarrow> position n x < n"
proof -
  assume n: "0 < n" "n < 2 ^ 31"
  have "position n x \<le> unat (of_nat (n - 1) :: u64)" by (simp add: position_def word_and_le1 flip: word_le_nat_alt)
  then show ?thesis using n unat_of_nat_u64 [of "n - 1"] by simp
qed

lemma in_placeD:
  assumes "in_place n es"
  shows "0 < n" "length es = n" "position n x < n" "e \<in> set (concat es) \<Longrightarrow> e \<in> set (es ! position n (e_k e))"
    "p < n \<Longrightarrow> e \<in> set (es ! p) \<Longrightarrow> position n (e_k e) = p"
proof -
  show "0 < n" "length es = n" using assms by (auto simp: in_place_def)
  show "position n x < n" using assms position_less by (simp add: in_place_def)
  show q: "p < n \<Longrightarrow> e \<in> set (es ! p) \<Longrightarrow> position n (e_k e) = p" for p e using assms by (simp add: in_place_def)
  assume "e \<in> set (concat es)"
  then obtain p where p: "p < n" "e \<in> set (es ! p)"
    using assms by (auto simp: in_place_def) (metis in_set_conv_nth)
  show "e \<in> set (es ! position n (e_k e))" using q [OF p] p by simp
qed

lemma in_place_update:
  "in_place n es \<Longrightarrow> (\<And>e. e \<in> set ch \<Longrightarrow> position n (e_k e) = p) \<Longrightarrow> in_place n (es[p := ch])"
  by (cases "p < length es") (auto simp: in_place_def nth_list_update list_update_beyond)

lemma mset_concat_update:
  "p < length es \<Longrightarrow> mset (concat (es[p := ch])) + mset (es ! p) = mset (concat es) + mset ch"
  by (induction es arbitrary: p) (auto simp: less_Suc_eq_0_disj)

lemma in_place_replicate: "0 < n \<Longrightarrow> n < 2 ^ 31 \<Longrightarrow> in_place n (replicate n [])"
  by (simp add: in_place_def)

lemma concat_replicate_Nil [simp]: "concat (replicate n []) = []"
  by (induction n) auto

lemma move_chain_correct:
  "in_place n es \<Longrightarrow> in_place n (move_chain n ch es) \<and> mset (concat (move_chain n ch es)) = mset (concat es) + mset ch"
proof (induction ch arbitrary: es)
  case (Cons j ch)
  let ?p = "position n (e_k j)"
  have p: "?p < n" "length es = n" by (rule in_placeD(3,2) [OF Cons.prems])+
  have ip: "in_place n (es[?p := j # es ! ?p])"
  proof (rule in_place_update [OF Cons.prems])
    fix e assume "e \<in> set (j # es ! ?p)"
    then show "position n (e_k e) = ?p" using in_placeD(5) [OF Cons.prems p(1), of e] by (cases "e = j") simp_all
  qed
  have "mset (concat (es[?p := j # es ! ?p])) = add_mset j (mset (concat es))"
    using mset_concat_update [of ?p es "j # es ! ?p"] p by simp
  then show ?case using Cons.IH [OF ip] by (simp add: Let_def)
qed simp

lemma move_buckets_correct:
  "in_place n es \<Longrightarrow>
   in_place n (move_buckets n bs es) \<and> mset (concat (move_buckets n bs es)) = mset (concat es) + mset (concat bs)"
proof (induction bs arbitrary: es)
  case (Cons b bs)
  show ?case using Cons.IH [of "move_chain n b es"] move_chain_correct [OF Cons.prems, of b] by simp
qed simp

lemma chain_search_None: "chain_search t k c es i = None \<longleftrightarrow> (\<forall>e \<in> set es. \<not> (e_k e = k \<and> t_equals t (e_c e) c))"
  by (induction es arbitrary: i) auto

lemma chain_search_Some:
  "chain_search t k c es i = Some j \<Longrightarrow>
   i \<le> j \<and> j - i < length es \<and> e_k (es ! (j - i)) = k \<and> t_equals t (e_c (es ! (j - i))) c"
proof (induction es arbitrary: i)
  case (Cons e es)
  show ?case
  proof (cases "e_k e = k \<and> t_equals t (e_c e) c")
    case False
    then have "chain_search t k c es (Suc i) = Some j" using Cons.prems by auto
    from Cons.IH [OF this] have "j - i = Suc (j - Suc i)" "Suc i \<le> j" by auto
    with Cons.IH [OF \<open>chain_search t k c es (Suc i) = Some j\<close>] show ?thesis by simp
  qed (use Cons.prems in auto)
qed simp

lemma tab_map_iff:
  assumes "one_each (t_equals t) (mset (ents t))"
  shows "tab_map t c = Some v \<longleftrightarrow> (\<exists>e \<in># mset (ents t). t_equals t (e_c e) c \<and> e_v e = v)"
proof -
  have l: "length (filter (\<lambda>e. t_equals t (e_c e) c) (ents t)) \<le> 1"
    using assms by (simp add: one_each_def flip: mset_filter)
  have f: "find P xs = (case filter P xs of [] \<Rightarrow> None | x # _ \<Rightarrow> Some x)" for P and xs :: "entry list"
    by (induction xs) auto
  show ?thesis
  proof (cases "filter (\<lambda>e. t_equals t (e_c e) c) (ents t)")
    case Nil
    then show ?thesis by (auto simp: tab_map_def f filter_empty_conv)
  next
    case (Cons e es)
    then have "filter (\<lambda>e. t_equals t (e_c e) c) (ents t) = [e]" using l by simp
    then have "{x \<in> set (ents t). t_equals t (e_c x) c} = {e}" by (metis list.set(1) list.simps(15) set_filter)
    then show ?thesis using Cons by (auto simp: tab_map_def f)
  qed
qed

lemma tab_map_None: "tab_map t c = None \<longleftrightarrow> (\<forall>e \<in># mset (ents t). \<not> t_equals t (e_c e) c)"
  by (auto simp: tab_map_def find_None_iff)

section \<open>Effect of the operations\<close>

text \<open>The entries change by one entry; the abstract map follows from the multiset of entries.\<close>

definition same_table :: "table \<Rightarrow> table \<Rightarrow> bool" where
  "same_table t t' \<longleftrightarrow>
     t_h t' = t_h t \<and> t_eh t' = t_eh t \<and> t_shared t' = t_shared t \<and> t_key t' = t_key t \<and> t_equals t' = t_equals t \<and>
     (t_buckets t' = t_buckets t \<or> t_buckets t \<le> TABLE_MAX_BUCKETS div 2 \<and> t_buckets t' = t_buckets t * 2)"

lemma insert_halts: "table_insert_internal t k p c v = None \<longleftrightarrow> \<not> table_room t"
  by (auto simp: table_insert_internal_def table_room_def resize_table_def assert_ok_def TABLE_MAX_BUCKETS_def Let_def)

lemma insert_entries:
  assumes w: "wf_table t" and k: "k = t_key t c" and p: "p = position (t_buckets t) k"
    and s: "table_insert_internal t k p c v = Some t'"
  shows "same_table t t' \<and> in_place (t_buckets t') (t_entries t') \<and> t_count t' = Suc (t_count t) \<and>
    mset (ents t') = add_mset \<lparr>e_v = v, e_k = k, e_c = c\<rparr> (mset (ents t))"
proof -
  define n where "n = \<lparr>e_v = v, e_k = k, e_c = c\<rparr>"
  define es where "es = (t_entries t)[p := t_entries t ! p @ [n]]"
  define t1 where "t1 = t\<lparr>t_entries := es, t_count := t_count t + 1\<rparr>"
  have ip: "in_place (t_buckets t) (t_entries t)" using w by (simp add: wf_table_def)
  note D = in_placeD [OF ip]
  have p': "p < length (t_entries t)" using D(2) D(3) [of k] p by simp
  have i1: "in_place (t_buckets t) es" unfolding es_def
  proof (rule in_place_update [OF ip])
    fix e assume "e \<in> set (t_entries t ! p @ [n])"
    then show "position (t_buckets t) (e_k e) = p" using D(5) [of p e] p' D(2) p by (cases "e = n") (simp_all add: n_def)
  qed
  have m1: "mset (concat es) = add_mset n (mset (ents t))"
    using mset_concat_update [OF p', of "t_entries t ! p @ [n]"] by (simp add: es_def ents_def)
  show ?thesis
  proof (cases "t_count t > t_buckets t \<and> t_buckets t \<le> TABLE_MAX_BUCKETS div 2")
    case True
    then have t': "t' = t1\<lparr>t_entries := move_buckets (t_buckets t * 2) es (replicate (t_buckets t * 2) []), t_buckets := t_buckets t * 2\<rparr>"
      using s by (auto simp: table_insert_internal_def resize_table_def assert_ok_def Let_def t1_def es_def n_def split: if_splits)
    have "in_place (t_buckets t * 2) (replicate (t_buckets t * 2) [])"
      using D(1) True by (intro in_place_replicate) (auto simp: TABLE_MAX_BUCKETS_def)
    from move_buckets_correct [OF this, of es] show ?thesis
      using True m1 unfolding t' by (simp add: same_table_def t1_def n_def ents_def)
  next
    case False
    then have "t' = t1"
      using s by (auto simp: table_insert_internal_def assert_ok_def Let_def t1_def es_def n_def split: if_splits)
    then show ?thesis using i1 m1 by (simp add: same_table_def t1_def n_def ents_def)
  qed
qed

lemma remove_entries:
  assumes w: "wf_table t" and p: "p < t_buckets t" and i: "i < length (t_entries t ! p)"
  shows "\<exists>t'. table_remove_internal t p i = Some t' \<and> same_table t t' \<and> in_place (t_buckets t') (t_entries t') \<and>
    t_count t = Suc (t_count t') \<and> add_mset (t_entries t ! p ! i) (mset (ents t')) = mset (ents t)"
proof -
  let ?ch = "t_entries t ! p"
  define ch' where "ch' = take i ?ch @ drop (Suc i) ?ch"
  define t' where "t' = t\<lparr>t_count := t_count t - 1, t_entries := (t_entries t)[p := ch']\<rparr>"
  have ip: "in_place (t_buckets t) (t_entries t)" using w by (simp add: wf_table_def)
  note D = in_placeD [OF ip]
  have ch: "?ch = take i ?ch @ ?ch ! i # drop (Suc i) ?ch" using id_take_nth_drop [OF i] .
  have mc: "mset ?ch = add_mset (?ch ! i) (mset ch')" by (subst ch) (simp add: ch'_def)
  have i1: "in_place (t_buckets t) ((t_entries t)[p := ch'])"
  proof (rule in_place_update [OF ip])
    fix e assume "e \<in> set ch'"
    then have "e \<in> set ?ch" using set_take_subset set_drop_subset by (fastforce simp: ch'_def)
    then show "position (t_buckets t) (e_k e) = p" by (rule D(5) [OF p])
  qed
  have m1: "add_mset (?ch ! i) (mset (ents t')) = mset (ents t)"
    using mset_concat_update [of p "t_entries t" ch'] p D(2) mc by (simp add: t'_def ents_def)
  then have "0 < length (ents t)" by (metis length_greater_0_conv mset.simps(1) add_mset_not_empty)
  then have c: "0 < t_count t" using w by (simp add: wf_table_def)
  have "table_remove_internal t p i = Some t'" using c by (simp add: table_remove_internal_def assert_ok_def Let_def t'_def ch'_def)
  then show ?thesis using i1 m1 c by (intro exI [of _ t']) (simp add: same_table_def t'_def)
qed

lemma replace_entries:
  assumes w: "wf_table t" and p: "p < t_buckets t" and i: "i < length (t_entries t ! p)"
    and t': "t' = t\<lparr>t_entries := (t_entries t)[p := (t_entries t ! p)[i := (t_entries t ! p ! i)\<lparr>e_v := v\<rparr>]]\<rparr>"
  shows "same_table t t' \<and> in_place (t_buckets t') (t_entries t') \<and>
    add_mset (t_entries t ! p ! i) (mset (ents t')) = add_mset ((t_entries t ! p ! i)\<lparr>e_v := v\<rparr>) (mset (ents t))"
proof -
  define e where "e = t_entries t ! p ! i"
  define e' where "e' = e\<lparr>e_v := v\<rparr>"
  define ch where "ch = t_entries t ! p"
  have ip: "in_place (t_buckets t) (t_entries t)" using w by (simp add: wf_table_def)
  note D = in_placeD [OF ip]
  have i': "i < length ch" and mem: "e \<in> set ch" using i by (simp_all add: ch_def e_def)
  have "add_mset e (mset (ch[i := e'])) = add_mset e' (mset ch)"
    using i' by (simp add: mset_update e_def ch_def nth_mem_mset)
  then have "mset (concat ((t_entries t)[p := ch[i := e']])) + mset ch + {#e#} = mset (ents t) + {#e'#} + mset ch"
    using mset_concat_update [of p "t_entries t" "ch[i := e']"] p D(2) by (simp add: ents_def ch_def)
  moreover have "in_place (t_buckets t) ((t_entries t)[p := ch[i := e']])"
  proof (rule in_place_update [OF ip])
    fix f assume "f \<in> set (ch[i := e'])"
    then have "f = e' \<or> f \<in> set ch" using set_update_subset_insert by fastforce
    then show "position (t_buckets t) (e_k f) = p"
      using D(5) [OF p, of f] D(5) [OF p, of e] mem by (auto simp: ch_def e'_def)
  qed
  ultimately show ?thesis by (simp add: t' same_table_def ents_def ch_def e'_def e_def)
qed

context table_keys
begin

lemma one_each_add:
  assumes "one_each equals M" "\<forall>e \<in># M. \<not> equals (e_c e) (e_c n)"
  shows "one_each equals (add_mset n M)"
  unfolding one_each_def
proof
  fix c
  show "size (filter_mset (\<lambda>e. equals (e_c e) c) (add_mset n M)) \<le> 1"
  proof (cases "equals (e_c n) c")
    case True
    then have "\<forall>e \<in># M. \<not> equals (e_c e) c" using assms(2) equals_sym equals_trans by blast
    then have "filter_mset (\<lambda>e. equals (e_c e) c) M = {#}"
      by (intro multiset_eqI) (auto simp: not_in_iff [symmetric])
    then show ?thesis using True by simp
  next
    case False
    then show ?thesis using assms(1) by (simp add: one_each_def)
  qed
qed

lemma one_each_sub: "one_each equals (add_mset e M) \<Longrightarrow> one_each equals M"
  unfolding one_each_def
proof
  fix c assume a: "\<forall>c. size (filter_mset (\<lambda>e. equals (e_c e) c) (add_mset e M)) \<le> 1"
  have "size (filter_mset (\<lambda>e. equals (e_c e) c) M) \<le> size (filter_mset (\<lambda>e. equals (e_c e) c) (add_mset e M))" by simp
  then show "size (filter_mset (\<lambda>e. equals (e_c e) c) M) \<le> 1" using a le_trans by blast
qed

lemma one_each_rest:
  assumes "one_each equals (add_mset e M)" "f \<in># M"
  shows "\<not> equals (e_c f) (e_c e)"
proof
  assume f: "equals (e_c f) (e_c e)"
  obtain N where "M = add_mset f N" using assms(2) by (metis mset_add)
  then have "size (filter_mset (\<lambda>x. equals (e_c x) (e_c e)) (add_mset e M)) \<ge> 2" using f equals_refl by simp
  then show False using assms(1) by (force simp: one_each_def dest: spec [of _ "e_c e"])
qed

lemma search_hit_none:
  assumes "wf_table t" "t_key t = key" "t_equals t = equals"
    and "chain_search t (key c) c (t_entries t ! position (t_buckets t) (key c)) 0 = None"
  shows "\<forall>e \<in># mset (ents t). \<not> equals (e_c e) c"
proof
  fix e assume e: "e \<in># mset (ents t)"
  have k: "e_k e = key (e_c e)" using e assms(1,2) by (simp add: wf_table_def)
  have "e \<in> set (t_entries t ! position (t_buckets t) (e_k e))"
    using e assms(1) in_placeD(4) by (simp add: wf_table_def ents_def)
  then show "\<not> equals (e_c e) c" using assms(3,4) k equals_key [of "e_c e" c] by (auto simp: chain_search_None)
qed

lemma tab_map_added:
  assumes "one_each equals (mset (ents t))" "t_equals t = equals" "t_equals t' = equals"
    and "\<forall>e \<in># mset (ents t). \<not> equals (e_c e) (e_c n)" and "mset (ents t') = add_mset n (mset (ents t))"
  shows "tab_map t' = (\<lambda>d. if equals (e_c n) d then Some (e_v n) else tab_map t d)"
proof
  fix d
  have o: "one_each equals (mset (ents t'))" using one_each_add assms(1,4,5) by simp
  have t: "tab_map t d = Some v \<longleftrightarrow> (\<exists>e \<in># mset (ents t). equals (e_c e) d \<and> e_v e = v)" for v
    using tab_map_iff [of t d v] assms(1,2) by simp
  have t': "tab_map t' d = Some v \<longleftrightarrow> (\<exists>e \<in># add_mset n (mset (ents t)). equals (e_c e) d \<and> e_v e = v)" for v
    using tab_map_iff [of t' d v] o assms(3,5) by simp
  show "tab_map t' d = (if equals (e_c n) d then Some (e_v n) else tab_map t d)"
  proof (cases "equals (e_c n) d")
    case True
    then have "tab_map t' d = Some (e_v n)" using t' by auto
    then show ?thesis using True by simp
  next
    case False
    then have "tab_map t' d = Some v \<longleftrightarrow> tab_map t d = Some v" for v using t [of v] t' [of v] by auto
    then show ?thesis using False by (metis option.exhaust)
  qed
qed

lemma tab_map_removed:
  assumes "one_each equals (mset (ents t))" "t_equals t = equals" "t_equals t' = equals"
    and "add_mset e (mset (ents t')) = mset (ents t)"
  shows "tab_map t' = (\<lambda>d. if equals (e_c e) d then None else tab_map t d)"
proof
  fix d
  have u: "one_each equals (add_mset e (mset (ents t')))" using assms(1,4) by simp
  have t: "tab_map t d = Some v \<longleftrightarrow> (\<exists>f \<in># add_mset e (mset (ents t')). equals (e_c f) d \<and> e_v f = v)" for v
    using tab_map_iff [of t d v] assms(1,2,4) by simp
  have t': "tab_map t' d = Some v \<longleftrightarrow> (\<exists>f \<in># mset (ents t'). equals (e_c f) d \<and> e_v f = v)" for v
    using tab_map_iff [of t' d v] one_each_sub [OF u] assms(3) by simp
  show "tab_map t' d = (if equals (e_c e) d then None else tab_map t d)"
  proof (cases "equals (e_c e) d")
    case True
    then have "\<not> equals (e_c f) d" if "f \<in># mset (ents t')" for f
      using one_each_rest [OF u that] equals_sym [OF True] equals_trans by blast
    then have "tab_map t' d = None" using assms(3) by (simp add: tab_map_None)
    then show ?thesis using True by simp
  next
    case False
    then have "tab_map t' d = Some v \<longleftrightarrow> tab_map t d = Some v" for v using t [of v] t' [of v] by auto
    then show ?thesis using False by (metis option.exhaust)
  qed
qed

lemma wf_tableI:
  assumes "wf_table t" "t_key t = key" "t_equals t = equals" "same_table t t'" "in_place (t_buckets t') (t_entries t')"
    and "t_count t' = size (mset (ents t'))" "one_each equals (mset (ents t'))"
    and "\<And>e. e \<in># mset (ents t') \<Longrightarrow> e \<in># mset (ents t) \<or> e_k e = key (e_c e)"
  shows "wf_table t'"
proof -
  have "e_k e = key (e_c e)" if "e \<in> set (ents t')" for e using assms(1,2) assms(8) [of e] that by (auto simp: wf_table_def)
  then show ?thesis using assms(2-7) by (simp add: wf_table_def same_table_def)
qed

lemma insert_correct:
  assumes w: "wf_table t" and k: "t_key t = key" "t_equals t = equals"
    and n: "\<forall>e \<in># mset (ents t). \<not> equals (e_c e) c"
    and s: "table_insert_internal t (key c) (position (t_buckets t) (key c)) c v = Some t'"
  shows "wf_table t' \<and> same_table t t' \<and> tab_map t' = (\<lambda>d. if equals c d then Some v else tab_map t d)"
proof -
  have I: "same_table t t'" "in_place (t_buckets t') (t_entries t')" "t_count t' = Suc (t_count t)"
    "mset (ents t') = add_mset \<lparr>e_v = v, e_k = key c, e_c = c\<rparr> (mset (ents t))"
    using insert_entries [OF w _ refl s] k by auto
  have e: "t_equals t' = equals" using I(1) k by (simp add: same_table_def)
  have o: "one_each equals (mset (ents t))" using w k by (simp add: wf_table_def)
  have "wf_table t'"
  proof (rule wf_tableI [OF w k I(1,2)])
    show "t_count t' = size (mset (ents t'))" using I(3,4) w by (simp add: wf_table_def)
    show "one_each equals (mset (ents t'))" unfolding I(4) using one_each_add [OF o] n by simp
    show "e \<in># mset (ents t) \<or> e_k e = key (e_c e)" if "e \<in># mset (ents t')" for e using that unfolding I(4) by auto
  qed
  then show ?thesis using tab_map_added [OF o k(2) e _ I(4)] n I(1) by (simp cong: if_cong)
qed

text \<open>A search that succeeds gives an entry of the table that matches the key.\<close>

lemma search_hit:
  assumes w: "wf_table t" and k: "t_key t = key" "t_equals t = equals"
    and s: "chain_search t (key c) c (t_entries t ! position (t_buckets t) (key c)) 0 = Some i"
  shows "position (t_buckets t) (key c) < t_buckets t" "i < length (t_entries t ! position (t_buckets t) (key c))"
    "equals (e_c (t_entries t ! position (t_buckets t) (key c) ! i)) c"
    "tab_map t c = Some (e_v (t_entries t ! position (t_buckets t) (key c) ! i))"
proof -
  let ?p = "position (t_buckets t) (key c)"
  have ip: "in_place (t_buckets t) (t_entries t)" using w by (simp add: wf_table_def)
  show p: "?p < t_buckets t" by (rule in_placeD(3) [OF ip])
  show i: "i < length (t_entries t ! ?p)" using chain_search_Some [OF s] by simp
  show e: "equals (e_c (t_entries t ! ?p ! i)) c" using chain_search_Some [OF s] k by simp
  have "t_entries t ! ?p ! i \<in> set (ents t)"
    using p i in_placeD(2) [OF ip] by (auto simp: ents_def intro!: bexI [of _ "t_entries t ! ?p"])
  then show "tab_map t c = Some (e_v (t_entries t ! ?p ! i))"
    using tab_map_iff [of t c] w e k by (auto simp: wf_table_def)
qed

lemma remove_correct:
  assumes w: "wf_table t" and k: "t_key t = key" "t_equals t = equals"
    and s: "chain_search t (key c) c (t_entries t ! position (t_buckets t) (key c)) 0 = Some i"
  shows "\<exists>t'. table_remove_internal t (position (t_buckets t) (key c)) i = Some t' \<and> wf_table t' \<and> same_table t t' \<and>
    tab_map t' = (\<lambda>d. if equals c d then None else tab_map t d)"
proof -
  let ?e = "t_entries t ! position (t_buckets t) (key c) ! i"
  note H = search_hit [OF w k s]
  obtain t' where R: "table_remove_internal t (position (t_buckets t) (key c)) i = Some t'" "same_table t t'"
    "in_place (t_buckets t') (t_entries t')" "t_count t = Suc (t_count t')" "add_mset ?e (mset (ents t')) = mset (ents t)"
    using remove_entries [OF w H(1,2)] by blast
  have e: "t_equals t' = equals" using R(2) k by (simp add: same_table_def)
  have o: "one_each equals (mset (ents t))" using w k by (simp add: wf_table_def)
  have sz: "size (mset (ents t)) = Suc (size (mset (ents t')))" by (simp flip: R(5))
  have "wf_table t'"
  proof (rule wf_tableI [OF w k R(2,3)])
    show "t_count t' = size (mset (ents t'))" using sz R(4) w by (simp add: wf_table_def)
    show "one_each equals (mset (ents t'))" using one_each_sub [of ?e] o R(5) by simp
    show "f \<in># mset (ents t) \<or> e_k f = key (e_c f)" if "f \<in># mset (ents t')" for f using that by (simp flip: R(5))
  qed
  moreover have "equals (e_c ?e) d = equals c d" for d using H(3) equals_sym equals_trans by blast
  ultimately show ?thesis using R(1,2) tab_map_removed [OF o k(2) e R(5)] by simp
qed

lemma replace_correct:
  assumes w: "wf_table t" and k: "t_key t = key" "t_equals t = equals" and p: "p = position (t_buckets t) (key c)"
    and s: "chain_search t (key c) c (t_entries t ! p) 0 = Some i"
    and t': "t' = t\<lparr>t_entries := (t_entries t)[p := (t_entries t ! p)[i := (t_entries t ! p ! i)\<lparr>e_v := v\<rparr>]]\<rparr>"
  shows "wf_table t' \<and> same_table t t' \<and> tab_map t' = (\<lambda>d. if equals c d then Some v else tab_map t d)"
proof -
  define e where "e = t_entries t ! p ! i"
  define e' where "e' = e\<lparr>e_v := v\<rparr>"
  have s': "chain_search t (key c) c (t_entries t ! position (t_buckets t) (key c)) 0 = Some i" using s p by simp
  have H: "p < t_buckets t" "i < length (t_entries t ! p)" "equals (e_c e) c"
    using search_hit(1-3) [OF w k s'] by (simp_all add: p e_def)
  have kk: "\<forall>f \<in> set (ents t). e_k f = key (e_c f)" and o: "one_each equals (mset (ents t))"
    using w k by (simp_all add: wf_table_def)
  obtain t0 where R: "same_table t t0" "add_mset e (mset (ents t0)) = mset (ents t)"
    using remove_entries [OF w H(1,2)] by (auto simp: e_def)
  have E: "same_table t t'" "in_place (t_buckets t') (t_entries t')" "add_mset e (mset (ents t')) = add_mset e' (mset (ents t))"
    using replace_entries [OF w H(1,2) t'] by (simp_all add: e_def e'_def)
  have m: "mset (ents t') = add_mset e' (mset (ents t0))"
    using E(3) unfolding R(2) [symmetric] by (simp add: add_mset_commute)
  have "e \<in> set (ents t)" using R(2) by (metis set_mset_mset union_single_eq_member)
  then have ek: "e_k e' = key (e_c e')" using kk by (simp add: e'_def)
  have o0: "one_each equals (add_mset e (mset (ents t0)))" using o R(2) by simp
  have rest: "\<forall>f \<in># mset (ents t0). \<not> equals (e_c f) (e_c e')" using one_each_rest [OF o0] by (simp add: e'_def)
  have e0: "t_equals t0 = equals" and e1: "t_equals t' = equals" using R(1) k by (simp_all add: same_table_def t')
  have "wf_table t'"
  proof (rule wf_tableI [OF w k E(1,2)])
    have "size (mset (ents t')) = size (mset (ents t))" unfolding m R(2) [symmetric] by simp
    then show "t_count t' = size (mset (ents t'))" using w by (simp add: wf_table_def t')
    show "one_each equals (mset (ents t'))" unfolding m by (rule one_each_add [OF one_each_sub [OF o0] rest])
    show "f \<in># mset (ents t) \<or> e_k f = key (e_c f)" if "f \<in># mset (ents t')" for f
      using that ek unfolding m R(2) [symmetric] by auto
  qed
  moreover have "equals (e_c e) d = equals c d" for d using H(3) equals_sym equals_trans by blast
  ultimately show ?thesis
    using E(1) tab_map_added [OF one_each_sub [OF o0] e0 e1 rest m] tab_map_removed [OF o k(2) e0 R(2)]
    by (simp add: e'_def cong: if_cong)
qed

lemma search_miss:
  assumes n: "\<forall>e \<in># mset (ents t). \<not> equals (e_c e) c" and k: "t_equals t = equals"
  shows "(\<lambda>d. if equals c d then None else tab_map t d) = tab_map t"
proof
  fix d
  have "tab_map t d = None" if d: "equals c d"
  proof -
    have "\<not> equals (e_c e) d" if e: "e \<in># mset (ents t)" for e
      using bspec [OF n e] equals_trans [of "e_c e" d c] equals_sym [OF d] by blast
    then show ?thesis using k by (simp add: tab_map_None)
  qed
  then show "(if equals c d then None else tab_map t d) = tab_map t d" by simp
qed

lemma find_correct:
  assumes w: "wf_table t" and k: "t_key t = key" "t_equals t = equals"
  shows "table_find t c = (case tab_map t c of None \<Rightarrow> EMPTY | Some v \<Rightarrow> v)"
proof (cases "chain_search t (key c) c (t_entries t ! position (t_buckets t) (key c)) 0")
  case None
  then have "tab_map t c = None" using search_hit_none [OF w k None] k by (simp add: tab_map_None)
  then show ?thesis using None k by (simp add: table_find_def Let_def)
next
  case (Some i)
  then show ?thesis using search_hit(4) [OF w k Some] k by (simp add: table_find_def Let_def)
qed

lemma set_correct:
  assumes w: "wf_table t" and k: "t_key t = key" "t_equals t = equals"
  shows "case table_set t c v of
      None \<Rightarrow> tab_map t c = None \<and> v \<noteq> EMPTY \<and> \<not> table_room t
    | Some t' \<Rightarrow> wf_table t' \<and> same_table t t' \<and> (tab_map t c \<noteq> None \<or> v = EMPTY \<or> table_room t) \<and>
        tab_map t' = (\<lambda>d. if equals c d then (if v = EMPTY then None else Some v) else tab_map t d)"
proof (cases "chain_search t (key c) c (t_entries t ! position (t_buckets t) (key c)) 0")
  case None
  note n = search_hit_none [OF w k None]
  then have m: "tab_map t c = None" using k by (simp add: tab_map_None)
  show ?thesis
  proof (cases "v = EMPTY")
    case True
    then show ?thesis using None w k search_miss [OF n k(2)] by (simp add: table_set_def Let_def same_table_def)
  next
    case False
    have "table_set t c v = table_insert_internal t (key c) (position (t_buckets t) (key c)) c v"
      using None False k by (simp add: table_set_def Let_def)
    then show ?thesis
      using insert_correct [OF w k n, of v] insert_halts [of t "key c" "position (t_buckets t) (key c)" c v] m False
      by (cases "table_insert_internal t (key c) (position (t_buckets t) (key c)) c v") (simp_all cong: if_cong)
  qed
next
  case (Some i)
  note h = search_hit(4) [OF w k Some]
  show ?thesis
  proof (cases "v = EMPTY")
    case True
    then show ?thesis using remove_correct [OF w k Some] Some h k by (auto simp: table_set_def Let_def)
  next
    case False
    then show ?thesis using replace_correct [OF w k refl Some refl, of v] Some h k by (simp add: table_set_def Let_def)
  qed
qed

lemma set_noreplace_correct:
  assumes w: "wf_table t" and k: "t_key t = key" "t_equals t = equals"
  shows "case table_set_noreplace t c v of
      None \<Rightarrow> tab_map t c = None \<and> \<not> table_room t
    | Some (b, t') \<Rightarrow> wf_table t' \<and> same_table t t' \<and> b = (tab_map t c = None) \<and> (tab_map t c \<noteq> None \<or> table_room t) \<and>
        tab_map t' = (if b then (\<lambda>d. if equals c d then Some v else tab_map t d) else tab_map t)"
proof (cases "chain_search t (key c) c (t_entries t ! position (t_buckets t) (key c)) 0")
  case None
  note n = search_hit_none [OF w k None]
  then have m: "tab_map t c = None" using k by (simp add: tab_map_None)
  then show ?thesis
    using insert_correct [OF w k n, of v] insert_halts [of t "key c" "position (t_buckets t) (key c)" c v] None k
    by (cases "table_insert_internal t (key c) (position (t_buckets t) (key c)) c v") (simp_all add: table_set_noreplace_def Let_def)
next
  case (Some i)
  then show ?thesis using search_hit(4) [OF w k Some] w k by (simp add: table_set_noreplace_def Let_def same_table_def)
qed

lemma table_remove_correct:
  assumes w: "wf_table t" and k: "t_key t = key" "t_equals t = equals"
  shows "\<exists>t'. table_remove t c = Some (case tab_map t c of None \<Rightarrow> EMPTY | Some v \<Rightarrow> v, t') \<and> wf_table t' \<and> same_table t t' \<and>
    tab_map t' = (\<lambda>d. if equals c d then None else tab_map t d)"
proof (cases "chain_search t (key c) c (t_entries t ! position (t_buckets t) (key c)) 0")
  case None
  note n = search_hit_none [OF w k None]
  have "tab_map t c = None" using n k by (simp add: tab_map_None)
  then show ?thesis using None w k search_miss [OF n k(2)] by (simp add: table_remove_def Let_def same_table_def)
next
  case (Some i)
  then show ?thesis using search_hit(4) [OF w k Some] remove_correct [OF w k Some] k by (auto simp: table_remove_def Let_def)
qed

end

section \<open>Properties\<close>

lemma grows_room: "table_grows t \<Longrightarrow> table_room t"
proof -
  assume g: "table_grows t"
  have "(2 ^ k :: 32 word) AND (2 ^ k - 1) = 0" for k
    by (rule bit_eqI) (auto simp: bit_simps simp flip: mask_eq_exp_minus_1)
  then have "(of_nat (2 ^ k * 2) :: 32 word) AND (of_nat (2 ^ k * 2) - 1) = 0" for k
    by (metis (no_types) of_nat_numeral of_nat_power power_Suc2)
  then show "table_room t" using g by (auto simp: table_grows_def table_room_def)
qed

lemma grows_same: "table_grows t \<Longrightarrow> same_table t t' \<Longrightarrow> table_grows t'"
proof -
  assume g: "table_grows t" and s: "same_table t t'"
  obtain k where k: "k \<le> 17" "t_buckets t = 2 ^ k" using g by (auto simp: table_grows_def)
  have "\<exists>k \<le> 17. t_buckets t' = 2 ^ k"
  proof (cases "t_buckets t' = t_buckets t")
    case False
    then have b: "2 ^ k \<le> (2 :: nat) ^ 16" "t_buckets t' = 2 ^ Suc k"
      using s k by (auto simp: same_table_def TABLE_MAX_BUCKETS_def)
    then have "k \<le> 16" by (subst (asm) power_increasing_iff) auto
    then show ?thesis using b(2) by (intro exI [of _ "Suc k"]) simp
  qed (use k in auto)
  then show ?thesis using g s by (simp add: table_grows_def same_table_def)
qed

lemma clear_correct: "wf_table t \<Longrightarrow> wf_table (table_clear t) \<and> same_table t (table_clear t) \<and> tab_map (table_clear t) = (\<lambda>_. None)"
  by (auto simp: wf_table_def table_clear_def same_table_def tab_map_def ents_def one_each_def in_place_def)

lemma allocated_table:
  assumes h: "\<And>s. h s \<noteq> None"
  shows "\<exists>t. allocate_table h key equals = Some t \<and> wf_table t \<and> table_grows t \<and> tab_map t = (\<lambda>_. None) \<and>
    t_key t = key \<and> t_equals t = equals"
proof -
  let ?t = "\<lparr>t_h = h, t_eh = h, t_shared = True, t_buckets = 4, t_count = 0, t_entries = replicate 4 [],
    t_key = key, t_equals = equals\<rparr>"
  have "allocate_table h key equals = Some ?t"
    using h [of sizeof_table] h [of 32] by (auto simp: allocate_table_def allocate_table_internal_def Let_def)
  moreover have "ents ?t = []" by (simp only: ents_def table.simps concat_replicate_Nil)
  moreover have "in_place 4 (replicate 4 [])" by (rule in_place_replicate) simp_all
  moreover have "\<exists>k \<le> 17. (4 :: nat) = 2 ^ k" by (intro exI [of _ 2]) simp
  ultimately show ?thesis using h by (intro exI [of _ ?t]) (simp add: wf_table_def table_grows_def tab_map_def one_each_def fun_eq_iff)
qed

text \<open>Sequences of operations on a table, and on the map that it stands for.\<close>

datatype table_op = TSet u64 u64 | TNoreplace u64 u64 | TRemove u64 | TClear

fun table_step :: "table \<Rightarrow> table_op \<Rightarrow> table option" where
  "table_step t (TSet c v) = table_set t c v"
| "table_step t (TNoreplace c v) = map_option snd (table_set_noreplace t c v)"
| "table_step t (TRemove c) = map_option snd (table_remove t c)"
| "table_step t TClear = Some (table_clear t)"

fun table_run :: "table \<Rightarrow> table_op list \<Rightarrow> table option" where
  "table_run t [] = Some t"
| "table_run t (x # xs) = do { t' \<leftarrow> table_step t x; table_run t' xs }"

fun map_step :: "(u64 \<Rightarrow> u64 \<Rightarrow> bool) \<Rightarrow> (u64 \<Rightarrow> u64 option) \<Rightarrow> table_op \<Rightarrow> u64 \<Rightarrow> u64 option" where
  "map_step eq m (TSet c v) = (\<lambda>d. if eq c d then (if v = EMPTY then None else Some v) else m d)"
| "map_step eq m (TNoreplace c v) = (if m c = None then (\<lambda>d. if eq c d then Some v else m d) else m)"
| "map_step eq m (TRemove c) = (\<lambda>d. if eq c d then None else m d)"
| "map_step eq m TClear = (\<lambda>_. None)"

context table_keys
begin

lemma foreach_correct:
  assumes w: "wf_table t" and k: "t_equals t = equals"
  shows "(c, v) \<in> set (table_foreach t) \<Longrightarrow> tab_map t c = Some v"
    and "tab_map t c = Some v \<Longrightarrow> \<exists>d. equals d c \<and> (d, v) \<in> set (table_foreach t)"
    and "length (table_foreach t) = table_elements t"
proof -
  have i: "tab_map t c = Some v \<longleftrightarrow> (\<exists>e \<in> set (ents t). equals (e_c e) c \<and> e_v e = v)"
    using tab_map_iff [of t c v] w k by (simp add: wf_table_def)
  show "tab_map t c = Some v" if "(c, v) \<in> set (table_foreach t)"
    using that equals_refl unfolding i by (auto simp: table_foreach_def ents_def)
  show "\<exists>d. equals d c \<and> (d, v) \<in> set (table_foreach t)" if "tab_map t c = Some v"
    using that unfolding i by (auto simp: table_foreach_def ents_def)
  show "length (table_foreach t) = table_elements t"
    using w by (simp add: wf_table_def table_foreach_def table_elements_def ents_def)
qed

lemma step_correct:
  assumes w: "wf_table t" and k: "t_key t = key" "t_equals t = equals" and g: "table_grows t"
  shows "\<exists>t'. table_step t x = Some t' \<and> wf_table t' \<and> same_table t t' \<and> tab_map t' = map_step equals (tab_map t) x"
proof (cases x)
  case (TSet c v)
  then show ?thesis using set_correct [OF w k, of c v] grows_room [OF g] by (cases "table_set t c v") simp_all
next
  case (TNoreplace c v)
  obtain b t' where s: "table_set_noreplace t c v = Some (b, t')"
    using set_noreplace_correct [OF w k, of c v] grows_room [OF g] by (auto split: option.splits)
  then show ?thesis using set_noreplace_correct [OF w k, of c v] TNoreplace by auto
next
  case (TRemove c)
  then show ?thesis using table_remove_correct [OF w k, of c] by auto
next
  case TClear
  then show ?thesis using clear_correct [OF w] by simp
qed

lemma run_correct:
  assumes "wf_table t" "t_key t = key" "t_equals t = equals" "table_grows t"
  shows "\<exists>t'. table_run t xs = Some t' \<and> wf_table t' \<and> t_key t' = key \<and> t_equals t' = equals \<and>
    tab_map t' = foldl (map_step equals) (tab_map t) xs"
  using assms
proof (induction xs arbitrary: t)
  case (Cons x xs)
  obtain t1 where s: "table_step t x = Some t1" "wf_table t1" "same_table t t1" "tab_map t1 = map_step equals (tab_map t) x"
    using step_correct [OF Cons.prems] by blast
  have "t_key t1 = key" "t_equals t1 = equals" using s(3) Cons.prems by (simp_all add: same_table_def)
  from Cons.IH [OF s(2) this grows_same [OF Cons.prems(4) s(3)]] show ?case using s(1,4) by simp
qed simp

end

text \<open>
  Property C24. On a well-formed table whose functions are a hash and an equivalence that respects it, \<^verbatim>\<open>table_find\<close>
  looks the key up in the map that the table stands for, and \<^verbatim>\<open>table_set\<close>, \<^verbatim>\<open>table_set_noreplace\<close>, \<^verbatim>\<open>table_remove\<close>
  and \<^verbatim>\<open>table_clear\<close> update that map and keep the table well-formed; a rehash does not change the map.
\<close>

theorem table_operations_correct:
  assumes "table_keys key equals" and "wf_table t" "t_key t = key" "t_equals t = equals" and "table_room t"
  shows "table_find t c = (case tab_map t c of None \<Rightarrow> EMPTY | Some v \<Rightarrow> v) \<and>
    (\<exists>t'. table_set t c v = Some t' \<and> wf_table t' \<and>
       tab_map t' = (\<lambda>d. if equals c d then (if v = EMPTY then None else Some v) else tab_map t d)) \<and>
    (\<exists>t'. table_set_noreplace t c v = Some (tab_map t c = None, t') \<and> wf_table t' \<and>
       tab_map t' = (if tab_map t c = None then (\<lambda>d. if equals c d then Some v else tab_map t d) else tab_map t)) \<and>
    (\<exists>t'. table_remove t c = Some (table_find t c, t') \<and> wf_table t' \<and>
       tab_map t' = (\<lambda>d. if equals c d then None else tab_map t d)) \<and>
    wf_table (table_clear t) \<and> tab_map (table_clear t) = (\<lambda>_. None)"
proof (intro conjI)
  note L = assms(1) assms(2-4)
  show f: "table_find t c = (case tab_map t c of None \<Rightarrow> EMPTY | Some v \<Rightarrow> v)" by (rule table_keys.find_correct [OF L])
  show "\<exists>t'. table_set t c v = Some t' \<and> wf_table t' \<and>
       tab_map t' = (\<lambda>d. if equals c d then (if v = EMPTY then None else Some v) else tab_map t d)"
    using table_keys.set_correct [OF L, of c v] assms(5) by (cases "table_set t c v") simp_all
  show "\<exists>t'. table_set_noreplace t c v = Some (tab_map t c = None, t') \<and> wf_table t' \<and>
       tab_map t' = (if tab_map t c = None then (\<lambda>d. if equals c d then Some v else tab_map t d) else tab_map t)"
    using table_keys.set_noreplace_correct [OF L, of c v] assms(5) by (auto split: option.splits)
  show "\<exists>t'. table_remove t c = Some (table_find t c, t') \<and> wf_table t' \<and>
       tab_map t' = (\<lambda>d. if equals c d then None else tab_map t d)"
    unfolding f using table_keys.table_remove_correct [OF L, of c] by blast
qed (use clear_correct [OF assms(2)] in auto)

definition sample_table :: table where
  "sample_table = \<lparr>t_h = sample_heap, t_eh = sample_heap, t_shared = True, t_buckets = 4, t_count = 2,
     t_entries = [[\<lparr>e_v = 9, e_k = 4, e_c = 4\<rparr>], [], [\<lparr>e_v = 7, e_k = 6, e_c = 6\<rparr>], []],
     t_key = identity_key, t_equals = pointer_equal\<rparr>"

lemma sample_table_ok: "wf_table sample_table" "table_room sample_table"
proof -
  have "in_place 4 (t_entries sample_table)"
    unfolding in_place_def
  proof (intro conjI allI impI ballI)
    fix p e assume "p < 4" "e \<in> set (t_entries sample_table ! p)"
    moreover from \<open>p < 4\<close> have "p = 0 \<or> p = 1 \<or> p = 2 \<or> p = 3" by linarith
    ultimately show "position 4 (e_k e) = p" by (elim disjE) (simp_all add: sample_table_def position_def)
  qed (simp_all add: sample_table_def)
  moreover have "ents sample_table = [\<lparr>e_v = 9, e_k = 4, e_c = 4\<rparr>, \<lparr>e_v = 7, e_k = 6, e_c = 6\<rparr>]"
    by (simp add: ents_def sample_table_def)
  moreover have "t_buckets sample_table = 4" "t_count sample_table = 2" "t_key sample_table = identity_key"
    "t_equals sample_table = pointer_equal" by (simp_all add: sample_table_def)
  ultimately show "wf_table sample_table"
    by (simp add: wf_table_def one_each_def pointer_equal_def identity_key_def)
  show "table_room sample_table" by (simp add: table_room_def sample_table_def sample_heap_def)
qed

theorem table_operations_correct_witness:
  "\<exists>t'. table_remove sample_table 6 = Some (7, t') \<and> tab_map t' 6 = None \<and> tab_map t' 4 = Some 9"
proof -
  have k: "t_key sample_table = identity_key" "t_equals sample_table = pointer_equal" by (simp_all add: sample_table_def)
  have "tab_map sample_table 6 = Some 7" "tab_map sample_table 4 = Some 9"
    by (simp_all add: tab_map_def ents_def sample_table_def pointer_equal_def)
  then show ?thesis
    using table_operations_correct [OF pointer_keys.table_keys_axioms sample_table_ok(1) k sample_table_ok(2), of 6 7]
    by (auto simp: pointer_equal_def)
qed

text \<open>
  Property C25. A setting operation fails to return exactly when the key is not in the table, there is something to insert,
  and either the entry cannot be allocated or the table has to grow and cannot: it was allocated with a fixed
  number of entries, twice its size is not a power of two, or the new buckets cannot be allocated.
\<close>

theorem table_set_halts:
  assumes "table_keys key equals" and "wf_table t" "t_key t = key" "t_equals t = equals"
  shows "(table_set t c v = None \<longleftrightarrow> tab_map t c = None \<and> v \<noteq> EMPTY \<and>
      (t_eh t sizeof_entry = None \<or>
       t_buckets t < t_count t \<and> t_buckets t \<le> TABLE_MAX_BUCKETS div 2 \<and>
       (\<not> t_shared t \<or> (of_nat (t_buckets t * 2) :: 32 word) AND (of_nat (t_buckets t * 2) - 1) \<noteq> 0 \<or>
        t_h t (of_nat (t_buckets t * 2 * 8)) = None))) \<and>
    (table_set_noreplace t c v = None \<longleftrightarrow> tab_map t c = None \<and> \<not> table_room t)"
proof
  note L = assms(1) assms(2-4)
  have "table_set t c v = None \<longleftrightarrow> tab_map t c = None \<and> v \<noteq> EMPTY \<and> \<not> table_room t"
    using table_keys.set_correct [OF L, of c v] by (cases "table_set t c v") auto
  then show "table_set t c v = None \<longleftrightarrow> tab_map t c = None \<and> v \<noteq> EMPTY \<and>
      (t_eh t sizeof_entry = None \<or>
       t_buckets t < t_count t \<and> t_buckets t \<le> TABLE_MAX_BUCKETS div 2 \<and>
       (\<not> t_shared t \<or> (of_nat (t_buckets t * 2) :: 32 word) AND (of_nat (t_buckets t * 2) - 1) \<noteq> 0 \<or>
        t_h t (of_nat (t_buckets t * 2 * 8)) = None))"
    unfolding table_room_def by blast
  show "table_set_noreplace t c v = None \<longleftrightarrow> tab_map t c = None \<and> \<not> table_room t"
    using table_keys.set_noreplace_correct [OF L, of c v] by (cases "table_set_noreplace t c v") auto
qed

theorem table_set_halts_witness:
  "table_set (sample_table\<lparr>t_eh := \<lambda>_. None\<rparr>) 5 1 = None"
proof -
  let ?t = "sample_table\<lparr>t_eh := \<lambda>_. None\<rparr>"
  have k: "t_key ?t = identity_key" "t_equals ?t = pointer_equal" by (simp_all add: sample_table_def)
  have w: "wf_table ?t" using sample_table_ok(1) by (simp add: wf_table_def ents_def)
  have "tab_map ?t 5 = None" by (simp add: tab_map_def ents_def sample_table_def pointer_equal_def)
  then show ?thesis
    using table_set_halts [OF pointer_keys.table_keys_axioms w k, of 5 1] by (simp add: EMPTY_def)
qed



end
