(* ===== verification/Bits.thy ===== *)
theory Bits
  imports Bytes
begin

text \<open>
  The bit macros of \<^verbatim>\<open>kernel/src/runtime/runtime.h\<close> and the bit searches of
  \<^verbatim>\<open>x86_64/def64.h\<close>, with the facts on powers of two that the ring buffer, the queue and
  the bitmap share.
\<close>

definition U64_FROM_BIT :: "nat \<Rightarrow> u64" where
  "U64_FROM_BIT n = push_bit n 1"

definition MASK :: "nat \<Rightarrow> u64" where
  "MASK n = U64_FROM_BIT n - 1"

text \<open>Position of the highest set bit below \<open>n\<close>; \<^verbatim>\<open>msb\<close> is only used on non-zero words.\<close>

fun msb_below :: "u64 \<Rightarrow> nat \<Rightarrow> nat" where
  "msb_below x 0 = 0"
| "msb_below x (Suc n) = (if bit x n then n else msb_below x n)"

definition msb :: "u64 \<Rightarrow> nat" where
  "msb x = msb_below x 64"

definition find_order :: "u64 \<Rightarrow> nat" where
  "find_order x = (if x > 1 then msb (x - 1) + 1 else 0)"

definition pad :: "u64 \<Rightarrow> u64 \<Rightarrow> u64" where
  "pad x s = ((x - 1) AND NOT (s - 1)) + s"

section \<open>Powers of two\<close>

lemma unat_2p: "n < 64 \<Longrightarrow> unat (2 ^ n :: u64) = 2 ^ n"
proof -
  assume n: "n < 64"
  have "(2 :: nat) ^ n < 2 ^ 64" using n by (intro power_strict_increasing) simp_all
  then have "(2 :: nat) ^ n mod 2 ^ 64 = 2 ^ n" by (rule mod_less)
  moreover have "unat (of_nat (2 ^ n) :: u64) = 2 ^ n mod 2 ^ 64" by (simp only: unat_of_nat take_bit_eq_mod) simp
  ultimately show ?thesis by simp
qed

lemma unat_U64_FROM_BIT: "n < 64 \<Longrightarrow> unat (U64_FROM_BIT n) = 2 ^ n"
  by (simp add: U64_FROM_BIT_def push_bit_eq_mult unat_2p)

lemma unat_mask_and:
  assumes "n < 64" "unat l = 2 ^ n"
  shows "unat (x AND (l - 1)) = unat x mod unat (l :: u64)"
proof -
  have "l = 2 ^ n" using assms by (simp add: word_unat_eq_iff unat_2p)
  then have "l - 1 = mask n" by (simp add: mask_eq_exp_minus_1)
  then have "x AND (l - 1) = take_bit n x" by (simp add: take_bit_eq_mask)
  moreover have "unat (take_bit n x) = take_bit n (unat x)" by (rule unsigned_take_bit_eq)
  ultimately show ?thesis using assms(2) by (simp only: take_bit_eq_mod)
qed

lemma msb_below_bound: "x \<noteq> 0 \<Longrightarrow> unat x < 2 ^ n \<Longrightarrow> 2 ^ msb_below x n \<le> unat x \<and> unat x < 2 ^ Suc (msb_below x n)"
proof (induction n)
  case (Suc n)
  show ?case
  proof (cases "bit x n")
    case True
    then have "bit (unat x) n" by (simp add: bit_unsigned_iff)
    then have "odd (unat x div 2 ^ n)" by (simp only: bit_iff_odd) simp
    then have "2 ^ n \<le> unat x" by (metis div_less even_zero not_le)
    then show ?thesis using True Suc.prems by simp
  next
    case False
    then have "even (unat x div 2 ^ n)" by (metis bit_iff_odd bit_unsigned_iff)
    moreover have "unat x div 2 ^ n < 2" using Suc.prems(2) by (simp add: less_mult_imp_div_less mult.commute)
    ultimately have "unat x div 2 ^ n = 0" by (auto simp: less_2_cases_iff)
    then have "unat x < 2 ^ n" by (simp add: div_eq_0_iff)
    then show ?thesis using False Suc by simp
  qed
qed (simp add: unat_eq_zero)

lemma msb_bound: "x \<noteq> 0 \<Longrightarrow> 2 ^ msb x \<le> unat x \<and> unat x < 2 ^ Suc (msb x)"
  using msb_below_bound [of x 64] unsigned_less [of x] by (simp add: msb_def)

lemma find_order_ge: "unat x \<le> 2 ^ find_order x"
proof (cases "x > 1")
  case True
  then have "x - 1 \<noteq> 0" "unat (x - 1) = unat x - 1" by (auto simp: unat_sub word_le_nat_alt word_less_nat_alt)
  then have "unat x - 1 < 2 ^ Suc (msb (x - 1))" using msb_bound [of "x - 1"] by metis
  then have "unat x \<le> 2 ^ Suc (msb (x - 1))" by linarith
  then show ?thesis using True by (simp add: find_order_def)
next
  case False
  then show ?thesis by (simp add: find_order_def word_less_nat_alt)
qed

lemma find_order_small: "unat x \<le> 2 ^ n \<Longrightarrow> find_order x \<le> n"
proof (cases "x > 1")
  case True
  assume le: "unat x \<le> 2 ^ n"
  have "x - 1 \<noteq> 0" "unat (x - 1) = unat x - 1" using True by (auto simp: unat_sub word_le_nat_alt word_less_nat_alt)
  then have "2 ^ msb (x - 1) \<le> unat x - 1" using msb_bound [of "x - 1"] by simp
  moreover have "1 < unat x" using True by (simp add: word_less_nat_alt)
  ultimately have "(2 :: nat) ^ msb (x - 1) < 2 ^ n" using le by linarith
  then have "msb (x - 1) < n" by (rule power_less_imp_less_exp [rotated]) simp
  then show ?thesis using True by (simp add: find_order_def)
qed (simp add: find_order_def)

end
