(* ===== verification/Bitmap.thy ===== *)
theory Bitmap
  imports Vector Bits
begin

text \<open>
  The bitmap allocator of \<^verbatim>\<open>kernel/src/runtime/bitmap.c\<close> and \<^verbatim>\<open>bitmap.h\<close>. The map is a buffer whose
  window holds the words of the map; it grows on demand. A pointer into the map is an offset in the area of that
  buffer, and an access outside of the area gives \<open>None\<close>, as does a failing assertion.
\<close>

section \<open>Words and ranges\<close>

definition INVALID_PHYSICAL :: u64 where
  "INVALID_PHYSICAL = - 1"

definition BITMAP_WORDLEN :: u64 where
  "BITMAP_WORDLEN = 64"

definition BITMAP_WORDMASK :: u64 where
  "BITMAP_WORDMASK = BITMAP_WORDLEN - 1"

definition ALLOC_EXTEND_BITS :: u64 where
  "ALLOC_EXTEND_BITS = U64_FROM_BIT 12"

record bitmap =
  bm_maxbits :: u64
  bm_mapbits :: u64
  bm_meta :: heap
  bm_map :: "heap option"
  bm_alloc_map :: buffer

text \<open>Position of the lowest set bit from \<open>n\<close> on; \<^verbatim>\<open>lsb(0)\<close> is \<open>-1\<close>.\<close>

fun lsb_from :: "u64 \<Rightarrow> nat \<Rightarrow> nat \<Rightarrow> u64" where
  "lsb_from x n 0 = - 1"
| "lsb_from x n (Suc k) = (if bit x n then of_nat n else lsb_from x (Suc n) k)"

definition lsb :: "u64 \<Rightarrow> u64" where
  "lsb x = lsb_from x 0 64"

definition pointer_from_bit :: "u64 \<Rightarrow> u64 \<Rightarrow> u64" where
  "pointer_from_bit base b = base + drop_bit 6 b * 8"

text \<open>The result of the operation and the word that it leaves.\<close>

definition word_op :: "u64 \<Rightarrow> u64 \<Rightarrow> bool \<Rightarrow> bool \<Rightarrow> bool \<times> u64" where
  "word_op w m store val =
     (if store then (True, if val then w OR m else w AND NOT m)
      else let masked = m AND w in
        if (if val then masked else masked XOR m) \<noteq> m then (False, w) else (True, w))"

definition word_op_at :: "u8 list \<Rightarrow> u64 \<Rightarrow> u64 \<Rightarrow> bool \<Rightarrow> bool \<Rightarrow> (bool \<times> u8 list) option" where
  "word_op_at mem p m store val =
     do { w \<leftarrow> load_ptr mem p;
          let (r, w') = word_op w m store val;
          if store then do { mem' \<leftarrow> store_ptr mem p w'; Some (r, mem') } else Some (r, mem) }"

text \<open>The loop over the \<open>n\<close> full words from \<open>w\<close> up to \<^verbatim>\<open>wend\<close>.\<close>

fun for_words :: "u8 list \<Rightarrow> u64 \<Rightarrow> nat \<Rightarrow> bool \<Rightarrow> bool \<Rightarrow> (bool \<times> u8 list) option" where
  "for_words mem w 0 store val = Some (True, mem)"
| "for_words mem w (Suc n) store val =
     do { (r, mem') \<leftarrow> word_op_at mem w (- 1) store val;
          if \<not> r then Some (False, mem') else for_words mem' (w + 8) n store val }"

definition for_range_in_map :: "u8 list \<Rightarrow> u64 \<Rightarrow> u64 \<Rightarrow> u64 \<Rightarrow> bool \<Rightarrow> bool \<Rightarrow> (bool \<times> u8 list) option" where
  "for_range_in_map mem base start nbits store val =
     (let end0 = start + nbits;
          head = start AND BITMAP_WORDMASK;
          tail = end0 AND BITMAP_WORDMASK
      in if nbits = 0 then Some (True, mem)
         else
           let single = (head + nbits \<le> BITMAP_WORDLEN);
               m1 = (if head \<noteq> 0 then (- 1) AND NOT (MASK (unat head)) else - 1);
               m2 = (if tail \<noteq> 0 \<and> single then m1 AND MASK (unat tail) else m1)
           in do {
             (r, mem1) \<leftarrow> word_op_at mem (pointer_from_bit base start) m2 store val;
             if \<not> r \<or> single then Some (r, mem1)
             else
               let start' = start + (BITMAP_WORDLEN - head);
                   w = pointer_from_bit base start';
                   wend = pointer_from_bit base (end0 AND NOT BITMAP_WORDMASK)
               in do {
                 (r2, mem2) \<leftarrow> for_words mem1 w ((unat wend - unat w) div 8) store val;
                 if \<not> r2 then Some (False, mem2)
                 else if tail \<noteq> 0 then word_op_at mem2 wend (MASK (unat tail)) store val
                 else Some (True, mem2) } })"

section \<open>Operations\<close>

definition bitmap_base :: "bitmap \<Rightarrow> u64 option" where
  "bitmap_base b = buffer_ref (bm_alloc_map b) 0"

definition bitmap_extend :: "bitmap \<Rightarrow> u64 \<Rightarrow> (bool \<times> bitmap) option" where
  "bitmap_extend b i =
     (if i \<ge> bm_mapbits b then
        let mapbits = pad (i + 1) ALLOC_EXTEND_BITS in
        do { (ok, m) \<leftarrow> extend_total (bm_alloc_map b) (ucast (drop_bit 3 mapbits));
             if ok then Some (True, b\<lparr>bm_alloc_map := m, bm_mapbits := mapbits\<rparr>)
             else Some (False, b\<lparr>bm_alloc_map := m\<rparr>) }
      else Some (False, b))"

text \<open>A range operation on the map of a bitmap.\<close>

definition map_range :: "bitmap \<Rightarrow> u64 \<Rightarrow> u64 \<Rightarrow> bool \<Rightarrow> bool \<Rightarrow> (bool \<times> bitmap) option" where
  "map_range b start nbits store val =
     do { base \<leftarrow> bitmap_base b;
          (r, mem) \<leftarrow> for_range_in_map (b_contents (bm_alloc_map b)) base start nbits store val;
          Some (r, b\<lparr>bm_alloc_map := (bm_alloc_map b)\<lparr>b_contents := mem\<rparr>\<rparr>) }"

definition bitmap_get :: "bitmap \<Rightarrow> u64 \<Rightarrow> bool option" where
  "bitmap_get b i =
     (if i \<ge> bm_mapbits b then Some False
      else do {
        base \<leftarrow> bitmap_base b;
        w \<leftarrow> load_ptr (b_contents (bm_alloc_map b)) (pointer_from_bit base i);
        Some (w AND push_bit (unat (i AND 63)) 1 \<noteq> 0) })"

definition bitmap_set :: "bitmap \<Rightarrow> u64 \<Rightarrow> bool \<Rightarrow> bitmap option" where
  "bitmap_set b i val =
     do { b1 \<leftarrow> (if i \<ge> bm_mapbits b then do { (e, b') \<leftarrow> bitmap_extend b i; assert_ok e; Some b' } else Some b);
          let m = push_bit (unat (i AND 63)) 1;
          base \<leftarrow> bitmap_base b1;
          let p = pointer_from_bit base i;
          w \<leftarrow> load_ptr (b_contents (bm_alloc_map b1)) p;
          mem \<leftarrow> store_ptr (b_contents (bm_alloc_map b1)) p (if val then w OR m else w AND NOT m);
          Some (b1\<lparr>bm_alloc_map := (bm_alloc_map b1)\<lparr>b_contents := mem\<rparr>\<rparr>) }"

definition bitmap_range_check_and_set :: "bitmap \<Rightarrow> u64 \<Rightarrow> u64 \<Rightarrow> bool \<Rightarrow> bool \<Rightarrow> (bool \<times> bitmap) option" where
  "bitmap_range_check_and_set b start nbits validate store =
     (if start \<ge> bm_maxbits b \<or> start + nbits > bm_maxbits b then Some (False, b)
      else do {
        (_, b1) \<leftarrow> bitmap_extend b (start + nbits - 1);
        (free, b2) \<leftarrow> (if validate then map_range b1 start nbits False (\<not> store) else Some (True, b1));
        if \<not> free then Some (False, b2) else map_range b2 start nbits True store })"

text \<open>The loop ends when no bits of the range are left.\<close>

partial_function (option) get_first_loop :: "u8 list \<Rightarrow> u64 \<Rightarrow> u64 \<Rightarrow> u64 \<Rightarrow> u64 \<Rightarrow> u64 option" where
  "get_first_loop mem base word_offset bit_offset nbits =
     (if nbits > 0 then do {
        w0 \<leftarrow> load_ptr mem (base + word_offset * 8);
        let w1 = (if bit_offset > 0 then w0 AND NOT (MASK (unat bit_offset)) else w0);
        let w = (if nbits < 64 - bit_offset then w1 AND MASK (unat (bit_offset + nbits)) else w1);
        let b = lsb w;
        if b \<noteq> INVALID_PHYSICAL then Some (push_bit 6 word_offset + b)
        else get_first_loop mem base (word_offset + 1) 0
          (if nbits \<ge> 64 - bit_offset then nbits - (64 - bit_offset) else 0) }
      else Some INVALID_PHYSICAL)"

definition bitmap_range_get_first :: "bitmap \<Rightarrow> u64 \<Rightarrow> u64 \<Rightarrow> u64 option" where
  "bitmap_range_get_first b start nbits =
     do { base \<leftarrow> bitmap_base b;
          get_first_loop (b_contents (bm_alloc_map b)) base (drop_bit 6 start) (start AND MASK 6) nbits }"

text \<open>Allocation of ranges that span words.\<close>

partial_function (option) alloc_multi :: "bitmap \<Rightarrow> u64 \<Rightarrow> u64 \<Rightarrow> u64 \<Rightarrow> u64 \<Rightarrow> (u64 \<times> bitmap) option" where
  "alloc_multi b nbits stride endbit i =
     (if i \<le> endbit then do {
        (_, b1) \<leftarrow> bitmap_extend b (i + nbits);
        (free, b2) \<leftarrow> map_range b1 i nbits False False;
        if free then do { (_, b3) \<leftarrow> map_range b2 i nbits True True; Some (i, b3) }
        else alloc_multi b2 nbits stride endbit (i + stride) }
      else Some (INVALID_PHYSICAL, b))"

text \<open>Allocation of ranges within a word: the inner loop tries the offsets of a word.\<close>

datatype word_scan = Found nat | Past_end | Next_word

partial_function (option) scan_word :: "u64 \<Rightarrow> u64 \<Rightarrow> nat \<Rightarrow> u64 \<Rightarrow> u64 \<Rightarrow> nat \<Rightarrow> word_scan option" where
  "scan_word bw m stride endbit i word_offset =
     (if i + of_nat word_offset > endbit then Some Past_end
      else if bw AND m = 0 then Some (Found word_offset)
      else if word_offset + stride < 64
        then scan_word bw (push_bit stride m) stride endbit i (word_offset + stride)
      else Some Next_word)"

partial_function (option) alloc_small :: "bitmap \<Rightarrow> u64 \<Rightarrow> nat \<Rightarrow> u64 \<Rightarrow> u64 \<Rightarrow> (u64 \<times> bitmap) option" where
  "alloc_small b nbits stride endbit i0 =
     (if i0 \<le> endbit then do {
        let word_offset = unat (i0 AND 63);
        let i = i0 - of_nat word_offset;
        (_, b1) \<leftarrow> bitmap_extend b (i + 64);
        let m = push_bit word_offset (MASK (unat nbits));
        base \<leftarrow> bitmap_base b1;
        bw \<leftarrow> load_ptr (b_contents (bm_alloc_map b1)) (pointer_from_bit base i);
        if bw = - 1 then alloc_small b1 nbits stride endbit (i + 64)
        else do {
          s \<leftarrow> scan_word bw m stride endbit i word_offset;
          (case s of
             Past_end \<Rightarrow> Some (INVALID_PHYSICAL, b1)
           | Found off \<Rightarrow> do {
               (ok, b2) \<leftarrow> map_range b1 (i + of_nat off) nbits True True;
               assert_ok ok;
               Some (i + of_nat off, b2) }
           | Next_word \<Rightarrow> alloc_small b1 nbits stride endbit (i + 64)) } }
      else Some (INVALID_PHYSICAL, b))"

definition bitmap_alloc_internal :: "bitmap \<Rightarrow> u64 \<Rightarrow> u64 \<Rightarrow> u64 \<Rightarrow> (u64 \<times> bitmap) option" where
  "bitmap_alloc_internal b nbits startbit endbit0 =
     (let order = find_order nbits;
          stride = U64_FROM_BIT order;
          endbit = min endbit0 (bm_maxbits b)
      in if startbit + nbits > endbit then Some (INVALID_PHYSICAL, b)
         else
           let last = endbit - nbits in
           if stride \<ge> 64 then alloc_multi b nbits stride last startbit
           else alloc_small b nbits (unat stride) last startbit)"

definition bitmap_alloc :: "bitmap \<Rightarrow> u64 \<Rightarrow> (u64 \<times> bitmap) option" where
  "bitmap_alloc b nbits = bitmap_alloc_internal b nbits 0 (bm_maxbits b)"

definition bitmap_alloc_within_range :: "bitmap \<Rightarrow> u64 \<Rightarrow> u64 \<Rightarrow> u64 \<Rightarrow> (u64 \<times> bitmap) option" where
  "bitmap_alloc_within_range b nbits start end0 = bitmap_alloc_internal b nbits start end0"

definition bitmap_dealloc :: "bitmap \<Rightarrow> u64 \<Rightarrow> u64 \<Rightarrow> (bool \<times> bitmap) option" where
  "bitmap_dealloc b i size0 =
     (if i + size0 > bm_maxbits b then Some (False, b)
      else do {
        (allocated, b1) \<leftarrow> map_range b i size0 False True;
        if \<not> allocated then Some (False, b1)
        else do { (_, b2) \<leftarrow> map_range b1 i size0 True False; Some (True, b2) } })"

section \<open>Creation and copies\<close>

definition sizeof_bitmap :: u64 where
  "sizeof_bitmap = 40"

text \<open>The fields \<^verbatim>\<open>map\<close> and \<^verbatim>\<open>alloc_map\<close> are set by the callers.\<close>

definition allocate_bitmap_internal :: "heap \<Rightarrow> u64 \<Rightarrow> heap option \<Rightarrow> buffer \<Rightarrow> bitmap option option" where
  "allocate_bitmap_internal meta len map0 alloc_map =
     do { assert_ok (len > 0);
          case meta sizeof_bitmap of
            None \<Rightarrow> Some None
          | Some _ \<Rightarrow>
              let len1 = (if len = - 1 then push_bit 6 (- 1) else len) in
              Some (Some \<lparr>bm_maxbits = len1, bm_mapbits = min ALLOC_EXTEND_BITS (pad len1 64), bm_meta = meta,
                bm_map = map0, bm_alloc_map = alloc_map\<rparr>) }"

definition allocate_bitmap :: "heap \<Rightarrow> heap \<Rightarrow> u64 \<Rightarrow> bitmap option option" where
  "allocate_bitmap meta map0 len =
     do { r \<leftarrow> allocate_bitmap_internal meta len (Some map0) (init_buffer 0 False map0 []);
          case r of
            None \<Rightarrow> Some None
          | Some b \<Rightarrow>
              let mapbytes = drop_bit 3 (bm_mapbits b) in
              (case allocate_buffer map0 mapbytes of
                 None \<Rightarrow> Some None
               | Some m \<Rightarrow> do {
                   p \<leftarrow> buffer_ref m 0;
                   contents \<leftarrow> poke (b_contents m) (unat p) (replicate (unat mapbytes) 0);
                   m' \<leftarrow> buffer_produce (m\<lparr>b_contents := contents\<rparr>) mapbytes;
                   Some (Some (b\<lparr>bm_alloc_map := m'\<rparr>)) }) }"

definition bitmap_wrap :: "heap \<Rightarrow> u8 list \<Rightarrow> u64 \<Rightarrow> bitmap option option" where
  "bitmap_wrap h map0 len =
     do { r \<leftarrow> allocate_bitmap_internal h len None (init_buffer 0 False h []);
          case r of
            None \<Rightarrow> Some None
          | Some b \<Rightarrow>
              (case wrap_buffer h map0 (drop_bit 3 (bm_maxbits b)) of
                 None \<Rightarrow> Some None
               | Some m \<Rightarrow> Some (Some (b\<lparr>bm_alloc_map := m\<rparr>))) }"

text \<open>The result of \<^verbatim>\<open>allocate_bitmap_internal\<close> is used without a check: a failed allocation is a fault.\<close>

definition bitmap_clone :: "bitmap \<Rightarrow> bitmap option option" where
  "bitmap_clone b =
     (case bm_map b of
        None \<Rightarrow> Some None
      | Some h \<Rightarrow> do {
          r \<leftarrow> allocate_bitmap_internal (bm_meta b) (bm_maxbits b) (bm_map b) (init_buffer 0 False h []);
          c \<leftarrow> r;
          let mapbytes = drop_bit 3 (bm_mapbits b);
          (case allocate_buffer h mapbytes of
             None \<Rightarrow> Some None
           | Some m \<Rightarrow> do {
               p \<leftarrow> buffer_ref m 0;
               q \<leftarrow> buffer_ref (bm_alloc_map b) 0;
               bs \<leftarrow> peek (b_contents (bm_alloc_map b)) (unat q) (unat mapbytes);
               contents \<leftarrow> poke (b_contents m) (unat p) bs;
               m' \<leftarrow> buffer_produce (m\<lparr>b_contents := contents\<rparr>) mapbytes;
               Some (Some (c\<lparr>bm_mapbits := bm_mapbits b, bm_alloc_map := m'\<rparr>)) }) })"

definition bitmap_copy :: "bitmap \<Rightarrow> bitmap \<Rightarrow> bitmap option" where
  "bitmap_copy dest src =
     do { assert_ok (bm_maxbits dest = bm_maxbits src);
          assert_ok (bm_mapbits src > 0);
          (_, d1) \<leftarrow> bitmap_extend dest (bm_mapbits src - 1);
          p \<leftarrow> bitmap_base d1;
          q \<leftarrow> bitmap_base src;
          bs \<leftarrow> peek (b_contents (bm_alloc_map src)) (unat q) (unat (drop_bit 3 (bm_mapbits src)));
          mem \<leftarrow> poke (b_contents (bm_alloc_map d1)) (unat p) bs;
          mem' \<leftarrow> (if bm_mapbits d1 > bm_mapbits src
            then poke mem (unat (p + drop_bit 3 (bm_mapbits src)))
              (replicate (unat (drop_bit 3 (bm_mapbits d1 - bm_mapbits src))) 0)
            else Some mem);
          Some (d1\<lparr>bm_alloc_map := (bm_alloc_map d1)\<lparr>b_contents := mem'\<rparr>\<rparr>) }"

end
