(* ===== verification/Bitmap_Correct.thy ===== *)
theory Bitmap_Correct
  imports Bitmap
begin

text \<open>
  Correctness of the bitmap allocator. A bitmap stands for the set of its allocated bits: the range operations
  read or change exactly the bits of their range, allocation is first fit among the aligned positions, and
  deallocation undoes it.
\<close>

section \<open>Ranges of bits\<close>

definition wbit :: "u64 list \<Rightarrow> nat \<Rightarrow> bool" where
  "wbit ws i = bit (ws ! (i div 64)) (i mod 64)"

text \<open>An operation on the bits selected by \<open>P\<close>: it sets them to \<open>val\<close>, or it tests whether they all are \<open>val\<close>.\<close>

definition effect :: "bool \<Rightarrow> bool \<Rightarrow> (nat \<Rightarrow> bool) \<Rightarrow> u64 list \<Rightarrow> bool \<Rightarrow> u64 list \<Rightarrow> bool" where
  "effect store val P ws r ws' \<longleftrightarrow>
     length ws' = length ws \<and>
     (if store then r \<and> (\<forall>i < 64 * length ws. wbit ws' i = (if P i then val else wbit ws i))
      else ws' = ws \<and> (r \<longleftrightarrow> (\<forall>i < 64 * length ws. P i \<longrightarrow> wbit ws i = val)))"

definition ranged :: "buffer \<Rightarrow> u64 list \<Rightarrow> bool \<Rightarrow> bool \<Rightarrow> (nat \<Rightarrow> bool) \<Rightarrow> (bool \<times> u8 list) option \<Rightarrow> bool" where
  "ranged v ws store val P res \<longleftrightarrow>
     (\<exists>r mem ws'. res = Some (r, mem) \<and> effect store val P ws r ws' \<and> vec (v\<lparr>b_contents := mem\<rparr>) ws' \<and>
        length mem = length (b_contents v))"

lemma effect_cong: "(\<And>i. i < 64 * length ws \<Longrightarrow> P i = Q i) \<Longrightarrow> effect store val P ws r ws' = effect store val Q ws r ws'"
  unfolding effect_def by (cases store) (simp_all cong: conj_cong)

lemma effect_seq:
  assumes "effect store val P ws True ws1" "effect store val Q ws1 r ws2"
  shows "effect store val (\<lambda>i. P i \<or> Q i) ws r ws2"
proof (cases store)
  case False
  then show ?thesis using assms unfolding effect_def by auto
qed (use assms in \<open>auto simp: effect_def\<close>)

lemma effect_stop: "effect store val P ws False ws1 \<Longrightarrow> effect store val (\<lambda>i. P i \<or> Q i) ws False ws1"
  unfolding effect_def by (cases store) auto

lemma word_op_bits:
  "fst (word_op w m False val) \<longleftrightarrow> (\<forall>k < 64. bit m k \<longrightarrow> bit w k = val)"
  "snd (word_op w m False val) = w" "fst (word_op w m True val)"
  "k < 64 \<Longrightarrow> bit (snd (word_op w m True val)) k = (if bit m k then val else bit w k)"
proof -
  have "fst (word_op w m False val) \<longleftrightarrow> (if val then m AND w else (m AND w) XOR m) = m" by (simp add: word_op_def Let_def)
  also have "\<dots> \<longleftrightarrow> (\<forall>k < 64. bit m k \<longrightarrow> bit w k = val)" by (cases val) (auto simp: bit_eq_iff bit_simps)
  finally show "fst (word_op w m False val) \<longleftrightarrow> (\<forall>k < 64. bit m k \<longrightarrow> bit w k = val)" .
qed (auto simp: word_op_def Let_def bit_simps)

lemma word_effect:
  assumes j: "j < length ws"
  shows "effect store val (\<lambda>i. i div 64 = j \<and> bit m (i mod 64)) ws (fst (word_op (ws ! j) m store val))
    (ws[j := snd (word_op (ws ! j) m store val)])"
proof (cases store)
  case True
  then show ?thesis using j by (auto simp: effect_def word_op_bits wbit_def nth_list_update)
next
  case False
  have "(\<forall>k < 64. bit m k \<longrightarrow> bit (ws ! j) k = val) \<longleftrightarrow>
    (\<forall>i < 64 * length ws. i div 64 = j \<and> bit m (i mod 64) \<longrightarrow> wbit ws i = val)" (is "?l = ?r")
  proof
    assume r: ?r
    show ?l
    proof (intro allI impI)
      fix k :: nat assume k: "k < 64" "bit m k"
      have "64 * j + k < 64 * length ws" using j k(1) by simp
      then show "bit (ws ! j) k = val" using r [rule_format, of "64 * j + k"] k by (simp add: wbit_def)
    qed
  qed (auto simp: wbit_def)
  then show ?thesis using False by (simp add: effect_def word_op_bits)
qed

lemma load_vec:
  assumes vec: "vec v ws" and i: "i < length ws" "i < 2 ^ 31"
  shows "load_ptr (b_contents v) (b_start v + of_nat i * 8) = Some (ws ! i)"
proof -
  have wf: "wf_buffer v" and bytes: "bytes_of v = flat ws" using vec by (simp_all add: vec_def)
  note w = wf_bufferD [OF wf] and l = length_bytes_of [OF wf]
  have m: "unat ((of_nat i :: u64) * 8) = 8 * i"
    using i(2) by (simp add: unat_word_ariths unat_of_nat_u64)
  have "unat (b_start v) + 8 * i < 2 ^ 64" using l bytes i(1) unat_u64_less [of "b_end v"] by simp
  then have p: "unat (b_start v + of_nat i * 8) = unat (b_start v) + 8 * i" using unat_add_u64 [of "b_start v" "of_nat i * 8"] m by simp
  have "8 * i + 8 \<le> length (bytes_of v)" using bytes i(1) by simp
  from load_window [OF wf this] show ?thesis
    using flat_nth [OF i(1)] bytes by (simp add: load_ptr_def p)
qed

lemma word_op_at_vec:
  assumes vec: "vec v ws" and j: "j < length ws" "j < 2 ^ 31"
  shows "ranged v ws store val (\<lambda>i. i div 64 = j \<and> bit m (i mod 64)) (word_op_at (b_contents v) (b_start v + of_nat j * 8) m store val)"
proof (cases store)
  case True
  obtain c where "store_ptr (b_contents v) (b_start v + of_nat j * 8) (snd (word_op (ws ! j) m store val)) = Some c"
    "vec (v\<lparr>b_contents := c\<rparr>) (ws[j := snd (word_op (ws ! j) m store val)])" "length c = length (b_contents v)"
    using store_vec [OF vec j] by blast
  then show ?thesis unfolding ranged_def using word_effect [OF j(1), of store val m] load_vec [OF vec j] True
    by (intro exI [of _ "fst (word_op (ws ! j) m store val)"] exI [of _ c] exI conjI) (simp_all add: word_op_at_def split_beta)
next
  case False
  have "vec (v\<lparr>b_contents := b_contents v\<rparr>) ws" using vec by simp
  then show ?thesis unfolding ranged_def using word_effect [OF j(1), of store val m] load_vec [OF vec j] False
    by (intro exI [of _ "fst (word_op (ws ! j) m store val)"] exI [of _ "b_contents v"] exI [of _ ws] conjI)
      (simp_all add: word_op_at_def split_beta word_op_bits)
qed

lemma ranged_cong: "(\<And>i. i < 64 * length ws \<Longrightarrow> P i = Q i) \<Longrightarrow> ranged v ws store val P res = ranged v ws store val Q res"
  unfolding ranged_def using effect_cong [of ws P Q] by simp

text \<open>One operation after another; the second is skipped if the first test fails.\<close>

lemma ranged_seq:
  assumes r: "ranged v ws store val P res"
    and n: "\<And>mem ws'. vec (v\<lparr>b_contents := mem\<rparr>) ws' \<Longrightarrow> length ws' = length ws \<Longrightarrow> ranged (v\<lparr>b_contents := mem\<rparr>) ws' store val Q (f mem)"
  shows "ranged v ws store val (\<lambda>i. P i \<or> Q i) (do { (r, mem) \<leftarrow> res; if \<not> r then Some (False, mem) else f mem })"
proof -
  obtain r1 mem ws1 where 1: "res = Some (r1, mem)" "effect store val P ws r1 ws1" "vec (v\<lparr>b_contents := mem\<rparr>) ws1"
    "length mem = length (b_contents v)" using r by (auto simp: ranged_def)
  show ?thesis
  proof (cases r1)
    case True
    have "length ws1 = length ws" using 1(2) by (simp add: effect_def)
    from n [OF 1(3) this] obtain r2 mem2 ws2 where 2: "f mem = Some (r2, mem2)" "effect store val Q ws1 r2 ws2"
      "vec (v\<lparr>b_contents := mem2\<rparr>) ws2" "length mem2 = length mem" by (auto simp: ranged_def)
    then show ?thesis unfolding ranged_def using 1 True effect_seq [of store val P ws ws1 Q r2 ws2]
      by (intro exI [of _ r2] exI [of _ mem2] exI [of _ ws2] conjI) simp_all
  next
    case False
    then show ?thesis unfolding ranged_def using 1 effect_stop [of store val P ws ws1 Q]
      by (intro exI [of _ False] exI [of _ mem] exI [of _ ws1] conjI) simp_all
  qed
qed

lemma for_words_vec:
  assumes "vec v ws" "j + n \<le> length ws" "length ws < 2 ^ 31"
  shows "ranged v ws store val (\<lambda>i. j \<le> i div 64 \<and> i div 64 < j + n) (for_words (b_contents v) (b_start v + of_nat j * 8) n store val)"
  using assms
proof (induction n arbitrary: v ws j)
  case 0
  have "vec (v\<lparr>b_contents := b_contents v\<rparr>) ws" using 0 by simp
  then show ?case unfolding ranged_def
    by (intro exI [of _ True] exI [of _ "b_contents v"] exI [of _ ws]) (auto simp: effect_def)
next
  case (Suc n)
  have j: "j < length ws" "j < 2 ^ 31" using Suc.prems by auto
  let ?P = "\<lambda>i. i div 64 = j \<and> bit (- 1 :: u64) (i mod 64)"
  let ?Q = "\<lambda>i. Suc j \<le> i div 64 \<and> i div 64 < Suc j + n"
  have p: "b_start v + of_nat j * 8 + 8 = b_start v + of_nat (Suc j) * 8" by (simp add: algebra_simps)
  have "ranged v ws store val (\<lambda>i. ?P i \<or> ?Q i) (for_words (b_contents v) (b_start v + of_nat j * 8) (Suc n) store val)"
    unfolding for_words.simps p
  proof (rule ranged_seq [OF word_op_at_vec [OF Suc.prems(1) j]])
    fix mem ws' assume "vec (v\<lparr>b_contents := mem\<rparr>) ws'" "length ws' = length ws"
    then show "ranged (v\<lparr>b_contents := mem\<rparr>) ws' store val ?Q (for_words mem (b_start v + of_nat (Suc j) * 8) n store val)"
      using Suc.IH [of "v\<lparr>b_contents := mem\<rparr>" ws' "Suc j"] Suc.prems by simp
  qed
  moreover have "(?P i \<or> ?Q i) = (j \<le> i div 64 \<and> i div 64 < j + Suc n)" for i by (auto simp: bit_simps)
  ultimately show ?case by simp
qed

lemma bit_MASK: "t < 64 \<Longrightarrow> bit (MASK t) k \<longleftrightarrow> k < t"
proof -
  assume t: "t < 64"
  have "MASK t = mask t" by (simp add: MASK_def U64_FROM_BIT_def mask_eq_exp_minus_1 push_bit_eq_mult)
  then show ?thesis using t by (auto simp: bit_simps)
qed

lemma unat_and_63: "unat (x AND BITMAP_WORDMASK) = unat x mod 64"
  using unat_mask_and [of 6 64 x] by (simp add: BITMAP_WORDMASK_def BITMAP_WORDLEN_def)

lemma drop_bit_6: "drop_bit 6 (x :: u64) = of_nat (unat x div 64)"
proof -
  have "unat (drop_bit 6 x) = unat x div 64" by (simp add: drop_bit_eq_div unat_div)
  moreover have "unat x div 64 < 2 ^ 64" using unat_u64_less [of x] by (intro le_less_trans [OF div_le_dividend])
  ultimately show ?thesis by (simp add: word_unat_eq_iff unat_of_nat_u64)
qed

lemma drop_bit_6_align: "drop_bit 6 (x AND NOT BITMAP_WORDMASK) = drop_bit 6 (x :: u64)"
proof -
  have "bit (drop_bit 6 (x AND NOT (mask 6))) n = bit (drop_bit 6 x) n" for n
    using bit_imp_le_length [of x "6 + n"] by (auto simp: bit_drop_bit_eq bit_and_iff bit_not_iff bit_mask_iff)
  moreover have "BITMAP_WORDMASK = mask 6" by (simp add: BITMAP_WORDMASK_def BITMAP_WORDLEN_def mask_eq_exp_minus_1)
  ultimately show ?thesis by (simp add: bit_eq_iff)
qed

lemma unat_word_address:
  assumes "vec v ws" "j \<le> length ws" "length ws < 2 ^ 31"
  shows "unat (b_start v + of_nat j * 8) = unat (b_start v) + 8 * j"
proof -
  have wf: "wf_buffer v" and bytes: "bytes_of v = flat ws" using assms(1) by (simp_all add: vec_def)
  have m: "unat ((of_nat j :: u64) * 8) = 8 * j"
    using assms(2,3) by (simp add: unat_word_ariths unat_of_nat_u64)
  have "unat (b_start v) + 8 * length ws \<le> unat (b_end v)" using length_bytes_of [OF wf] wf_bufferD [OF wf] bytes by simp
  then have "unat (b_start v) + 8 * j < 2 ^ 64" using assms(2) unat_u64_less [of "b_end v"] by simp
  then show ?thesis using unat_add_u64 [of "b_start v" "of_nat j * 8"] m by simp
qed

text \<open>The mask of the first word selects the bits of the range in that word.\<close>

lemma head_mask:
  assumes "h < 64" "0 < n" "k < 64" "t = (h + n) mod 64"
  defines "m1 \<equiv> (if h \<noteq> 0 then (- 1) AND NOT (MASK h) else - 1)"
  shows "bit (if t \<noteq> 0 \<and> h + n \<le> 64 then m1 AND MASK t else m1) k \<longleftrightarrow> h \<le> k \<and> k < h + n"
proof -
  have m1: "bit m1 k \<longleftrightarrow> h \<le> k" using assms(1,3) by (auto simp: m1_def bit_simps bit_MASK)
  show ?thesis
  proof (cases "t \<noteq> 0 \<and> h + n \<le> 64")
    case True
    then have "h + n \<noteq> 64" using assms(4) by auto
    then have "t = h + n" using True assms(4) by simp
    moreover have "t < 64" using assms(4) by simp
    ultimately show ?thesis using True m1 by (simp add: bit_and_iff bit_MASK)
  next
    case False
    have "64 \<le> h + n"
    proof (cases "h + n \<le> 64")
      case True
      then have "(h + n) mod 64 = 0" using False assms(4) by simp
      then have "64 dvd h + n" by (rule mod_0_imp_dvd)
      then show ?thesis using assms(2) by (intro dvd_imp_le) simp_all
    qed simp
    then show ?thesis using False m1 assms(3) by auto
  qed
qed

lemma range_words:
  fixes s n i :: nat
  assumes n: "0 < n"
  shows "s mod 64 + n \<le> 64 \<Longrightarrow> (s \<le> i \<and> i < s + n) \<longleftrightarrow> i div 64 = s div 64 \<and> s mod 64 \<le> i mod 64 \<and> i mod 64 < s mod 64 + n"
    and "\<not> s mod 64 + n \<le> 64 \<Longrightarrow> (s \<le> i \<and> i < s + n) \<longleftrightarrow>
      (i div 64 = s div 64 \<and> s mod 64 \<le> i mod 64 \<and> i mod 64 < s mod 64 + n) \<or>
      (s div 64 + 1 \<le> i div 64 \<and> i div 64 < (s + n) div 64) \<or> (i div 64 = (s + n) div 64 \<and> i mod 64 < (s + n) mod 64)"
proof -
  define a h b k c t where d: "a = s div 64" "h = s mod 64" "b = i div 64" "k = i mod 64" "c = (s + n) div 64" "t = (s + n) mod 64"
  have e: "s = 64 * a + h" "i = 64 * b + k" "s + n = 64 * c + t" "h < 64" "k < 64" "t < 64" unfolding d by simp_all
  have f: "64 * a + h + n = 64 * c + t" using e by simp
  have 1: "h + n \<le> 64 \<Longrightarrow> (64 * a + h \<le> 64 * b + k \<and> 64 * b + k < 64 * a + h + n) = (b = a \<and> h \<le> k \<and> k < h + n)"
    using e(4-6) by (cases "b < a"; cases "b = a") auto
  have 2: "(64 * a + h \<le> 64 * b + k \<and> 64 * b + k < 64 * c + t) \<longleftrightarrow>
      (b = a \<and> h \<le> k \<and> k < h + n) \<or> (a + 1 \<le> b \<and> b < c) \<or> (b = c \<and> k < t)" if g: "\<not> h + n \<le> 64"
  proof -
    have ac: "a < c" using e(4-6) f g by linarith
    then have acl: "64 * a + h < 64 * c" "a < c" using e(4) by linarith+
    consider "b = c" | "b < a" | "b = a" | "a < b" "b < c" | "c < b" using acl by linarith
    then show ?thesis
    proof cases
      case 1
      have "64 * a + h \<le> 64 * b + k" "b \<noteq> a" using acl 1 by linarith+
      then show ?thesis using 1 by simp
    qed (use e(4-6) f g acl in auto)
  qed
  show "s mod 64 + n \<le> 64 \<Longrightarrow> (s \<le> i \<and> i < s + n) \<longleftrightarrow> i div 64 = s div 64 \<and> s mod 64 \<le> i mod 64 \<and> i mod 64 < s mod 64 + n"
    using 1 e unfolding d [symmetric] by simp
  show "\<not> s mod 64 + n \<le> 64 \<Longrightarrow> (s \<le> i \<and> i < s + n) \<longleftrightarrow>
      (i div 64 = s div 64 \<and> s mod 64 \<le> i mod 64 \<and> i mod 64 < s mod 64 + n) \<or>
      (s div 64 + 1 \<le> i div 64 \<and> i div 64 < (s + n) div 64) \<or> (i div 64 = (s + n) div 64 \<and> i mod 64 < (s + n) mod 64)"
    using 2 e unfolding d [symmetric] by simp
qed

text \<open>The full words of a range and its last word.\<close>

lemma rest_vec:
  assumes vec: "vec v ws" and len: "length ws < 2 ^ 31" and ac: "a \<le> c" "64 * c + t \<le> 64 * length ws" "t < 64"
  shows "ranged v ws store val (\<lambda>i. (a \<le> i div 64 \<and> i div 64 < c) \<or> (i div 64 = c \<and> i mod 64 < t))
    (do { (r2, mem2) \<leftarrow> for_words (b_contents v) (b_start v + of_nat a * 8) (c - a) store val;
          if \<not> r2 then Some (False, mem2)
          else if t \<noteq> 0 then word_op_at mem2 (b_start v + of_nat c * 8) (MASK t) store val else Some (True, mem2) })"
proof (rule ranged_seq)
  show "ranged v ws store val (\<lambda>i. a \<le> i div 64 \<and> i div 64 < c) (for_words (b_contents v) (b_start v + of_nat a * 8) (c - a) store val)"
    using for_words_vec [OF vec _ len, of a "c - a"] ac by simp
  fix mem ws' assume v': "vec (v\<lparr>b_contents := mem\<rparr>) ws'" "length ws' = length ws"
  show "ranged (v\<lparr>b_contents := mem\<rparr>) ws' store val (\<lambda>i. i div 64 = c \<and> i mod 64 < t)
      (if t \<noteq> 0 then word_op_at mem (b_start v + of_nat c * 8) (MASK t) store val else Some (True, mem))"
  proof (cases "t = 0")
    case True
    have "vec (v\<lparr>b_contents := mem\<rparr>\<lparr>b_contents := mem\<rparr>) ws'" using v' by simp
    then show ?thesis using True unfolding ranged_def
      by (intro exI [of _ True] exI [of _ mem] exI [of _ ws']) (auto simp: effect_def)
  next
    case False
    then have "c < length ws'" "c < 2 ^ 31" using ac len v'(2) by linarith+
    from word_op_at_vec [OF v'(1) this, of store val "MASK t"] show ?thesis using False ac(3) by (simp add: bit_MASK)
  qed
qed

lemma for_range_vec:
  assumes vec: "vec v ws" and len: "length ws < 2 ^ 31" and fits: "unat start + unat nbits \<le> 64 * length ws"
  shows "ranged v ws store val (\<lambda>i. unat start \<le> i \<and> i < unat start + unat nbits)
    (for_range_in_map (b_contents v) (b_start v) start nbits store val)"
proof (cases "nbits = 0")
  case True
  have "vec (v\<lparr>b_contents := b_contents v\<rparr>) ws" using vec by simp
  then show ?thesis unfolding ranged_def
    by (intro exI [of _ True] exI [of _ "b_contents v"] exI [of _ ws]) (auto simp: effect_def for_range_in_map_def True Let_def)
next
  case False
  define s n h t where d: "s = unat start" "n = unat nbits" "h = s mod 64" "t = (s + n) mod 64"
  have n: "0 < n" using False by (simp add: d unat_gt_0)
  have lt: "s + n < 2 ^ 62" using fits len by (simp add: d)
  have e: "unat (start + nbits) = s + n" using unat_add_u64 [of start nbits] lt by (simp add: d)
  have head: "unat (start AND BITMAP_WORDMASK) = h" and tail: "unat ((start + nbits) AND BITMAP_WORDMASK) = t"
    by (simp_all add: unat_and_63 e d)
  have hl: "h < 64" and tl: "t < 64" by (simp_all add: d)
  have "unat ((start AND BITMAP_WORDMASK) + nbits) = h + n"
    using unat_add_u64 [of "start AND BITMAP_WORDMASK" nbits] lt head hl by (simp add: d)
  then have single: "(start AND BITMAP_WORDMASK) + nbits \<le> BITMAP_WORDLEN \<longleftrightarrow> h + n \<le> 64"
    by (simp add: word_le_nat_alt BITMAP_WORDLEN_def)
  have h0: "(start AND BITMAP_WORDMASK) \<noteq> 0 \<longleftrightarrow> h \<noteq> 0" and t0: "((start + nbits) AND BITMAP_WORDMASK) \<noteq> 0 \<longleftrightarrow> t \<noteq> 0"
    using head tail by (metis unat_eq_zero)+
  define m where "m = (let m1 = (if h \<noteq> 0 then (- 1) AND NOT (MASK h) else - 1) in if t \<noteq> 0 \<and> h + n \<le> 64 then m1 AND MASK t else m1)"
  have mb: "bit m k \<longleftrightarrow> h \<le> k \<and> k < h + n" if "k < 64" for k
    unfolding m_def Let_def by (rule head_mask [OF hl n that]) (simp add: d mod_add_left_eq)
  have p0: "pointer_from_bit (b_start v) start = b_start v + of_nat (s div 64) * 8"
    by (simp add: pointer_from_bit_def drop_bit_6 d)
  have j0: "s div 64 < length ws" using fits n by (simp add: d)
  have first: "ranged v ws store val (\<lambda>i. i div 64 = s div 64 \<and> h \<le> i mod 64 \<and> i mod 64 < h + n)
      (word_op_at (b_contents v) (pointer_from_bit (b_start v) start) m store val)"
    using word_op_at_vec [OF vec j0, of store val m] j0 len unfolding p0
    by (simp add: mb cong: conj_cong)
  show ?thesis
  proof (cases "h + n \<le> 64")
    case True
    have "for_range_in_map (b_contents v) (b_start v) start nbits store val =
        word_op_at (b_contents v) (pointer_from_bit (b_start v) start) m store val"
      using False True unfolding for_range_in_map_def Let_def single h0 t0 head tail
      by (simp add: m_def Let_def)
    then show ?thesis using first range_words(1) [OF n, of s] True by (simp add: d)
  next
    case multi: False
    define a c where ac: "a = s div 64 + 1" "c = (s + n) div 64"
    define q where "q = s div 64"
    have q: "s = 64 * q + h" "a = q + 1" unfolding q_def ac d(3) by simp_all
    then have "a * 64 \<le> s + n" using multi by simp
    then have le: "a \<le> c" unfolding ac(2) by (simp add: less_eq_div_iff_mult_less_eq)
    have cl: "c \<le> length ws" using fits unfolding ac d by linarith
    have "unat (BITMAP_WORDLEN - (start AND BITMAP_WORDMASK)) = 64 - h"
      using hl head by (subst unat_sub) (simp_all add: BITMAP_WORDLEN_def word_le_nat_alt)
    then have "unat (start + (BITMAP_WORDLEN - (start AND BITMAP_WORDMASK))) = s + (64 - h)"
      using unat_add_u64 [of start "BITMAP_WORDLEN - (start AND BITMAP_WORDMASK)"] lt by (simp add: d)
    moreover have "s + (64 - h) = 64 * a" using q hl by simp
    ultimately have w: "pointer_from_bit (b_start v) (start + (BITMAP_WORDLEN - (start AND BITMAP_WORDMASK))) = b_start v + of_nat a * 8"
      by (simp add: pointer_from_bit_def drop_bit_6)
    have wend: "pointer_from_bit (b_start v) ((start + nbits) AND NOT BITMAP_WORDMASK) = b_start v + of_nat c * 8"
      unfolding pointer_from_bit_def drop_bit_6_align drop_bit_6 [of "start + nbits"] e ac(2) ..
    have cnt: "(unat (b_start v + of_nat c * 8) - unat (b_start v + of_nat a * 8)) div 8 = c - a"
      using unat_word_address [OF vec _ len, of a] unat_word_address [OF vec cl len] le cl by simp
    have "64 * c + t = s + n" unfolding ac d(4) by simp
    then have ct: "64 * c + t \<le> 64 * length ws" using fits by (simp add: d)
    let ?rest = "\<lambda>mem1. do { (r2, mem2) \<leftarrow> for_words mem1 (b_start v + of_nat a * 8) (c - a) store val;
      if \<not> r2 then Some (False, mem2)
      else if t \<noteq> 0 then word_op_at mem2 (b_start v + of_nat c * 8) (MASK t) store val else Some (True, mem2) }"
    have split: "for_range_in_map (b_contents v) (b_start v) start nbits store val =
        do { (r, mem1) \<leftarrow> word_op_at (b_contents v) (pointer_from_bit (b_start v) start) m store val;
             if \<not> r then Some (False, mem1) else ?rest mem1 }"
      using False multi unfolding for_range_in_map_def Let_def single h0 t0 head tail w wend cnt
      by (simp add: m_def Let_def cong: if_cong)
    have "ranged v ws store val (\<lambda>i. (i div 64 = s div 64 \<and> h \<le> i mod 64 \<and> i mod 64 < h + n) \<or>
        ((a \<le> i div 64 \<and> i div 64 < c) \<or> (i div 64 = c \<and> i mod 64 < t)))
        (for_range_in_map (b_contents v) (b_start v) start nbits store val)"
      unfolding split
    proof (rule ranged_seq [OF first])
      fix mem ws' assume "vec (v\<lparr>b_contents := mem\<rparr>) ws'" "length ws' = length ws"
      then show "ranged (v\<lparr>b_contents := mem\<rparr>) ws' store val (\<lambda>i. (a \<le> i div 64 \<and> i div 64 < c) \<or> (i div 64 = c \<and> i mod 64 < t)) (?rest mem)"
        using rest_vec [of "v\<lparr>b_contents := mem\<rparr>" ws' a c t store val] len le ct tl by (simp cong: if_cong)
    qed
    then show ?thesis using range_words(2) [OF n multi [unfolded d(3)]] by (simp add: d(1,2) ac [unfolded d(1,2)] d(3,4) [unfolded d(1,2)])
  qed
qed

section \<open>Bitmaps as sets\<close>

definition bset :: "u64 list \<Rightarrow> nat set" where
  "bset ws = {i. i < 64 * length ws \<and> wbit ws i}"

definition bm :: "bitmap \<Rightarrow> u64 list \<Rightarrow> bool" where
  "bm b ws \<longleftrightarrow>
     vec (bm_alloc_map b) ws \<and> b_start (bm_alloc_map b) = 0 \<and> unat (bm_mapbits b) = 64 * length ws \<and> length ws < 2 ^ 28"

text \<open>The bitmap \<open>b\<close> stands for the set \<open>S\<close> of allocated bits.\<close>

definition bm_repr :: "bitmap \<Rightarrow> nat set \<Rightarrow> bool" where
  "bm_repr b S \<longleftrightarrow> (\<exists>ws. bm b ws \<and> S = bset ws)"

text \<open>The map can grow: it owns its area and the heap does not run out.\<close>

definition bm_grows :: "bitmap \<Rightarrow> bool" where
  "bm_grows b \<longleftrightarrow>
     length (b_contents (bm_alloc_map b)) \<le> 2 ^ 61 \<and> \<not> b_wrapped (bm_alloc_map b) \<and> (\<forall>k. b_h (bm_alloc_map b) k \<noteq> None)"

definition bm_kept :: "bitmap \<Rightarrow> bitmap \<Rightarrow> bool" where
  "bm_kept b b' \<longleftrightarrow> bm_maxbits b' = bm_maxbits b \<and> (bm_grows b \<longrightarrow> bm_grows b') \<and> bm_mapbits b \<le> bm_mapbits b'"

lemma bm_kept_refl: "bm_kept b b"
  by (simp add: bm_kept_def)

lemma bm_kept_trans: "bm_kept a b \<Longrightarrow> bm_kept b c \<Longrightarrow> bm_kept a c"
  by (auto simp: bm_kept_def)

lemma bm_base: "bm b ws \<Longrightarrow> bitmap_base b = Some (b_start (bm_alloc_map b))"
  using wf_bufferD [of "bm_alloc_map b"] by (auto simp: bm_def vec_def bitmap_base_def buffer_ref_def word_le_nat_alt)

lemma map_range_effect:
  assumes bm: "bm b ws" and fits: "unat start + unat nbits \<le> unat (bm_mapbits b)"
  shows "\<exists>r b' ws'. map_range b start nbits store val = Some (r, b') \<and> bm b' ws' \<and> bm_kept b b' \<and> bm_mapbits b' = bm_mapbits b \<and>
    effect store val (\<lambda>i. unat start \<le> i \<and> i < unat start + unat nbits) ws r ws'"
proof -
  have vec: "vec (bm_alloc_map b) ws" and len: "length ws < 2 ^ 31" and fits': "unat start + unat nbits \<le> 64 * length ws"
    using bm fits by (simp_all add: bm_def)
  obtain r mem ws' where R: "for_range_in_map (b_contents (bm_alloc_map b)) (b_start (bm_alloc_map b)) start nbits store val = Some (r, mem)"
    "effect store val (\<lambda>i. unat start \<le> i \<and> i < unat start + unat nbits) ws r ws'"
    "vec ((bm_alloc_map b)\<lparr>b_contents := mem\<rparr>) ws'" "length mem = length (b_contents (bm_alloc_map b))"
    using for_range_vec [OF vec len fits', of store val] by (auto simp: ranged_def)
  let ?b = "b\<lparr>bm_alloc_map := (bm_alloc_map b)\<lparr>b_contents := mem\<rparr>\<rparr>"
  have "map_range b start nbits store val = Some (r, ?b)" using bm_base [OF bm] R(1) by (simp add: map_range_def)
  moreover have "bm ?b ws'" "bm_kept b ?b" using bm R(2-4) by (simp_all add: bm_def effect_def bm_kept_def bm_grows_def)
  ultimately show ?thesis using R(2) by (intro exI [of _ r] exI [of _ ?b] exI conjI) simp_all
qed

lemma map_range_test:
  assumes r: "bm_repr b S" and fits: "unat start + unat nbits \<le> unat (bm_mapbits b)"
  shows "\<exists>b'. map_range b start nbits False val =
      Some (if val then {unat start ..< unat start + unat nbits} \<subseteq> S else {unat start ..< unat start + unat nbits} \<inter> S = {}, b') \<and>
    bm_repr b' S \<and> bm_kept b b' \<and> bm_mapbits b' = bm_mapbits b"
proof -
  obtain ws where ws: "bm b ws" "S = bset ws" using r by (auto simp: bm_repr_def)
  obtain r b' where R: "map_range b start nbits False val = Some (r, b')" "bm b' ws" "bm_kept b b'" "bm_mapbits b' = bm_mapbits b"
    "r \<longleftrightarrow> (\<forall>i < 64 * length ws. unat start \<le> i \<and> i < unat start + unat nbits \<longrightarrow> wbit ws i = val)"
    using map_range_effect [OF ws(1) fits, of False val] by (auto simp: effect_def)
  have le: "i < 64 * length ws" if "i < unat start + unat nbits" for i using fits ws(1) that by (simp add: bm_def)
  have "r \<longleftrightarrow> (\<forall>i \<in> {unat start ..< unat start + unat nbits}. wbit ws i = val)" unfolding R(5) using le by auto
  also have "\<dots> \<longleftrightarrow> (if val then {unat start ..< unat start + unat nbits} \<subseteq> S else {unat start ..< unat start + unat nbits} \<inter> S = {})"
    unfolding ws(2) bset_def using le by (cases val) (auto simp: disjoint_iff)
  finally show ?thesis using R(1-4) ws(2) by (auto simp: bm_repr_def)
qed

lemma map_range_store:
  assumes r: "bm_repr b S" and fits: "unat start + unat nbits \<le> unat (bm_mapbits b)"
  shows "\<exists>b'. map_range b start nbits True val = Some (True, b') \<and> bm_kept b b' \<and> bm_mapbits b' = bm_mapbits b \<and>
    bm_repr b' (if val then S \<union> {unat start ..< unat start + unat nbits} else S - {unat start ..< unat start + unat nbits})"
proof -
  obtain ws where ws: "bm b ws" "S = bset ws" using r by (auto simp: bm_repr_def)
  obtain b' ws' where R: "map_range b start nbits True val = Some (True, b')" "bm b' ws'" "bm_kept b b'" "bm_mapbits b' = bm_mapbits b"
    "length ws' = length ws"
    "\<forall>i < 64 * length ws. wbit ws' i = (if unat start \<le> i \<and> i < unat start + unat nbits then val else wbit ws i)"
    using map_range_effect [OF ws(1) fits, of True val] by (auto simp: effect_def)
  have "bset ws' = (if val then S \<union> {unat start ..< unat start + unat nbits} else S - {unat start ..< unat start + unat nbits})"
    using R(5,6) fits ws unfolding bset_def bm_def by (cases val) (auto split: if_splits)
  then show ?thesis using R(1-4) by (auto simp: bm_repr_def)
qed

section \<open>Growth of the map\<close>

lemma unat_pad:
  assumes "unat i < 2 ^ 62"
  shows "unat (pad (i + 1) ALLOC_EXTEND_BITS) = unat i div 4096 * 4096 + 4096"
proof -
  have e: "ALLOC_EXTEND_BITS = 4096" by (simp add: ALLOC_EXTEND_BITS_def U64_FROM_BIT_def push_bit_eq_mult)
  have m: "(4096 :: u64) - 1 = mask 12" by (simp add: mask_eq_exp_minus_1)
  have "bit (i AND NOT (mask 12)) k = bit (push_bit 12 (drop_bit 12 i)) k" for k
    using bit_imp_le_length [of i k] by (auto simp: bit_simps)
  then have "i AND NOT (mask 12) = push_bit 12 (drop_bit 12 i)" by (rule bit_word_eqI)
  then have "i AND NOT (4096 - 1) = i div 4096 * 4096" unfolding m by (simp add: push_bit_eq_mult drop_bit_eq_div)
  then have "pad (i + 1) ALLOC_EXTEND_BITS = i div 4096 * 4096 + 4096" by (simp add: pad_def e)
  moreover have "unat (i div 4096 * 4096) = unat i div 4096 * 4096"
    using assms by (simp add: unat_word_ariths unat_div)
  moreover have "unat i div 4096 * 4096 \<le> unat i" by simp
  ultimately show ?thesis using assms unat_add_u64 [of "i div 4096 * 4096" 4096] by simp
qed

lemma wbit_zeros: "i < 64 * length (ws @ replicate k 0) \<Longrightarrow> wbit (ws @ replicate k 0) i = (i < 64 * length ws \<and> wbit ws i)"
proof -
  assume i: "i < 64 * length (ws @ replicate k 0)"
  show ?thesis
  proof (cases "i div 64 < length ws")
    case True
    then show ?thesis by (auto simp: wbit_def nth_append)
  next
    case False
    moreover have "i div 64 - length ws < k" using i False by simp
    ultimately show ?thesis by (auto simp: wbit_def nth_append)
  qed
qed

lemma bset_zeros: "bset (ws @ replicate k 0) = bset ws"
  using wbit_zeros [of _ ws k] by (auto simp: bset_def)

lemma extend_bm:
  assumes bm: "bm b ws" and g: "bm_grows b" and i: "bm_mapbits b \<le> i" "unat i \<le> 2 ^ 33 + 2 ^ 13"
  shows "\<exists>b' k. bitmap_extend b i = Some (True, b') \<and> bm b' (ws @ replicate k 0) \<and> bm_kept b b' \<and> i < bm_mapbits b'"
proof -
  define m where "m = pad (i + 1) ALLOC_EXTEND_BITS"
  define q where "q = unat i div 4096"
  have um: "unat m = 4096 * q + 4096" using unat_pad [of i] i(2) by (simp add: m_def q_def)
  have qi: "4096 * q \<le> unat i" "unat i < 4096 * q + 4096" unfolding q_def by simp_all
  let ?v = "bm_alloc_map b"
  have vec: "vec ?v ws" "b_start ?v = 0" "unat (bm_mapbits b) = 64 * length ws" using bm by (simp_all add: bm_def)
  have e: "unat (b_end ?v) = 8 * length ws" using vec_length [OF vec(1)] vec(2) by simp
  define k where "k = 64 * (q + 1) - length ws"
  have lt: "64 * length ws \<le> unat i" using i(1) vec(3) by (simp add: word_le_nat_alt)
  have k: "0 < k" "length ws + k = 64 * (q + 1)" using lt qi(2) by (simp_all add: k_def)
  obtain z where z: "z = 512 * q + 512" by blast
  have d: "unat (drop_bit 3 m) = z" using um z by (simp add: drop_bit_eq_div unat_div)
  have small: "z < 2 ^ 31" using qi(1) i(2) z by simp
  have uz: "unat (of_nat z :: u64) = z" using small by (intro unat_of_nat_u64) simp
  have "drop_bit 3 m = of_nat z" using d uz by (simp add: word_unat_eq_iff)
  then have off: "scast (ucast (drop_bit 3 m) :: 32 word) = (of_nat z :: u64)"
    using scast_of_nat_u32 [OF small] ucast_of_nat_u32 [of z] small by simp
  have "unat (of_nat z :: u64) = unat (b_end ?v) + 8 * k" unfolding uz using z e k(2) by simp
  moreover have "roomy ?v (8 * k + 0)"
    using g vec(1) k(2) small z by (simp add: roomy_def bm_grows_def vec_def)
  ultimately obtain v' where v': "extend_total ?v (ucast (drop_bit 3 m)) = Some (True, v')" "written ?v (replicate (8 * k) 0) v'"
    "b_start v' = 0" "roomy v' 0"
    using extend_total_zeros [OF _ vec(2) off, of "8 * k" 0] vec(1) k(1) by (auto simp: vec_def)
  let ?b = "b\<lparr>bm_alloc_map := v', bm_mapbits := m\<rparr>"
  have "bitmap_extend b i = Some (True, ?b)" using i(1) v'(1) by (simp add: bitmap_extend_def Let_def m_def)
  moreover have "bm ?b (ws @ replicate k 0)"
    using v'(2,3) vec(1) k(2) um small z zeros_flat [of k] by (auto simp: bm_def vec_def written_def)
  moreover have "bm_kept b ?b" "i < m"
    using v'(2,4) g um lt qi(2) vec(3) k(2) by (auto simp: bm_kept_def bm_grows_def written_def roomy_def word_le_nat_alt word_less_nat_alt)
  ultimately show ?thesis by (intro exI [of _ ?b] exI [of _ k]) simp
qed

lemma extend_repr:
  assumes r: "bm_repr b S" and g: "bm_grows b" and i: "unat i \<le> 2 ^ 33 + 2 ^ 13"
  shows "\<exists>e b'. bitmap_extend b i = Some (e, b') \<and> bm_repr b' S \<and> bm_kept b b' \<and> i < bm_mapbits b'"
proof (cases "bm_mapbits b \<le> i")
  case True
  obtain ws where ws: "bm b ws" "S = bset ws" using r by (auto simp: bm_repr_def)
  obtain b' k where "bitmap_extend b i = Some (True, b')" "bm b' (ws @ replicate k 0)" "bm_kept b b'" "i < bm_mapbits b'"
    using extend_bm [OF ws(1) g True i] by blast
  then show ?thesis using ws(2) bset_zeros [of ws k] unfolding bm_repr_def by blast
next
  case False
  then show ?thesis using r bm_kept_refl by (auto simp: bitmap_extend_def not_le)
qed

section \<open>First fit\<close>

definition free_range :: "nat set \<Rightarrow> nat \<Rightarrow> nat \<Rightarrow> bool" where
  "free_range S r n \<longleftrightarrow> {r ..< r + n} \<inter> S = {}"

text \<open>Position \<open>r\<close> is one of \<open>i\<close>, \<open>i + st\<close>, \<open>i + 2 * st\<close> and so on up to \<open>lim\<close>, and its \<open>n\<close> bits are free.\<close>

definition fits :: "nat set \<Rightarrow> nat \<Rightarrow> nat \<Rightarrow> nat \<Rightarrow> nat \<Rightarrow> nat \<Rightarrow> bool" where
  "fits S n st lim i r \<longleftrightarrow> (\<exists>j. r = i + j * st) \<and> r \<le> lim \<and> free_range S r n"

definition alloc_result :: "nat set \<Rightarrow> nat \<Rightarrow> nat \<Rightarrow> nat \<Rightarrow> nat \<Rightarrow> bitmap \<Rightarrow> (u64 \<times> bitmap) option \<Rightarrow> bool" where
  "alloc_result S n st lim i b res \<longleftrightarrow>
     (\<exists>x b'. res = Some (x, b') \<and> bm_kept b b' \<and>
        (if \<exists>r. fits S n st lim i r
         then x = of_nat (LEAST r. fits S n st lim i r) \<and> bm_repr b' (S \<union> {(LEAST r. fits S n st lim i r) ..< (LEAST r. fits S n st lim i r) + n})
         else x = INVALID_PHYSICAL \<and> bm_repr b' S))"

lemma fits_step:
  "fits S n st lim i r \<longleftrightarrow> (r = i \<and> i \<le> lim \<and> free_range S i n) \<or> fits S n st lim (i + st) r"
proof
  assume f: "fits S n st lim i r"
  then obtain j where j: "r = i + j * st" by (auto simp: fits_def)
  show "(r = i \<and> i \<le> lim \<and> free_range S i n) \<or> fits S n st lim (i + st) r"
  proof (cases j)
    case 0
    then show ?thesis using f j by (simp add: fits_def)
  next
    case (Suc k)
    then have "r = i + st + k * st" using j by simp
    then show ?thesis using f by (auto simp: fits_def)
  qed
next
  assume "(r = i \<and> i \<le> lim \<and> free_range S i n) \<or> fits S n st lim (i + st) r"
  then show "fits S n st lim i r"
  proof
    assume "fits S n st lim (i + st) r"
    then obtain j where "r = i + st + j * st" "r \<le> lim" "free_range S r n" by (auto simp: fits_def)
    moreover from this(1) have "r = i + Suc j * st" by simp
    ultimately show ?thesis unfolding fits_def by blast
  qed (auto simp: fits_def intro: exI [of _ 0])
qed

lemma fits_ge: "fits S n st lim i r \<Longrightarrow> i \<le> r"
  by (auto simp: fits_def)

lemma fits_here: "i \<le> lim \<Longrightarrow> free_range S i n \<Longrightarrow> (LEAST r. fits S n st lim i r) = i"
  using fits_step [of S n st lim i i] by (intro Least_equality) (auto dest: fits_ge)

lemma fits_past: "lim < i \<Longrightarrow> \<not> fits S n st lim i r"
  by (auto simp: fits_def)

lemma fits_not_here: "\<not> free_range S i n \<Longrightarrow> fits S n st lim i = fits S n st lim (i + st)"
  using fits_step [of S n st lim i] by (auto simp: fun_eq_iff)

lemma alloc_result_found:
  assumes "i \<le> lim" "free_range S i n" "res = Some (of_nat i, b')" "bm_kept b b'" "bm_repr b' (S \<union> {i ..< i + n})"
  shows "alloc_result S n st lim i b res"
proof -
  have "\<exists>r. fits S n st lim i r" using fits_step [of S n st lim i i] assms(1,2) by auto
  then show ?thesis using assms fits_here [OF assms(1,2), of st] by (simp add: alloc_result_def)
qed

lemma alloc_result_none:
  "(\<And>r. \<not> fits S n st lim i r) \<Longrightarrow> res = Some (INVALID_PHYSICAL, b') \<Longrightarrow> bm_kept b b' \<Longrightarrow> bm_repr b' S \<Longrightarrow>
   alloc_result S n st lim i b res"
  by (simp add: alloc_result_def)

lemma alloc_result_later:
  assumes r: "alloc_result S n st lim j b1 res" and f: "fits S n st lim i = fits S n st lim j" and k: "bm_kept b b1"
  shows "alloc_result S n st lim i b res"
proof -
  from r obtain x b' where "res = Some (x, b')" "bm_kept b1 b'"
    "if \<exists>r. fits S n st lim j r
     then x = of_nat (LEAST r. fits S n st lim j r) \<and> bm_repr b' (S \<union> {(LEAST r. fits S n st lim j r) ..< (LEAST r. fits S n st lim j r) + n})
     else x = INVALID_PHYSICAL \<and> bm_repr b' S" unfolding alloc_result_def by blast
  then show ?thesis unfolding alloc_result_def f using bm_kept_trans [OF k] by blast
qed

lemma alloc_multi_first_fit:
  assumes "bm_repr b S" "bm_grows b" "unat endbit + unat nbits \<le> 2 ^ 33" "0 < stride" "unat stride \<le> 2 ^ 33" "unat i \<le> 2 ^ 34"
  shows "alloc_result S (unat nbits) (unat stride) (unat endbit) (unat i) b (alloc_multi b nbits stride endbit i)"
  using assms
proof (induction "2 ^ 34 - unat i" arbitrary: i b rule: less_induct)
  case less
  note prems = less.prems
  show ?case
  proof (cases "i \<le> endbit")
    case False
    then have "unat endbit < unat i" by (simp add: word_le_nat_alt)
    then show ?thesis using False prems(1) bm_kept_refl
      by (intro alloc_result_none [of _ _ _ _ _ _ b]) (simp_all add: fits_past alloc_multi.simps)
  next
    case True
    then have le: "unat i \<le> unat endbit" by (simp add: word_le_nat_alt)
    have sum: "unat (i + nbits) = unat i + unat nbits" using le prems(3) by (intro unat_add_u64) simp
    have st: "0 < unat stride" using prems(4) by (simp add: word_less_nat_alt)
    have nxt: "unat (i + stride) = unat i + unat stride" using le prems(3,5) by (intro unat_add_u64) simp
    obtain e b1 where b1: "bitmap_extend b (i + nbits) = Some (e, b1)" "bm_repr b1 S" "bm_kept b b1" "i + nbits < bm_mapbits b1"
      using extend_repr [OF prems(1,2), of "i + nbits"] sum le prems(3) by auto
    have f1: "unat i + unat nbits \<le> unat (bm_mapbits b1)" using b1(4) sum by (simp add: word_less_nat_alt)
    obtain b2 where b2: "map_range b1 i nbits False False = Some (free_range S (unat i) (unat nbits), b2)" "bm_repr b2 S" "bm_kept b1 b2"
      "bm_mapbits b2 = bm_mapbits b1"
      using map_range_test [OF b1(2) f1, of False] by (auto simp: free_range_def)
    have k2: "bm_kept b b2" using bm_kept_trans [OF b1(3) b2(3)] .
    show ?thesis
    proof (cases "free_range S (unat i) (unat nbits)")
      case free: True
      obtain b3 where b3: "map_range b2 i nbits True True = Some (True, b3)" "bm_kept b2 b3"
        "bm_repr b3 (S \<union> {unat i ..< unat i + unat nbits})"
        using map_range_store [OF b2(2), of i nbits True] f1 b2(4) by auto
      have "alloc_multi b nbits stride endbit i = Some (of_nat (unat i), b3)"
        using True b1(1) b2(1) b3(1) free by (subst alloc_multi.simps) simp
      then show ?thesis using alloc_result_found [OF le free _ bm_kept_trans [OF k2 b3(2)] b3(3)] by blast
    next
      case notfree: False
      have eq: "alloc_multi b nbits stride endbit i = alloc_multi b2 nbits stride endbit (i + stride)"
        using True b1(1) b2(1) notfree by (subst alloc_multi.simps) simp
      have "alloc_result S (unat nbits) (unat stride) (unat endbit) (unat (i + stride)) b2 (alloc_multi b2 nbits stride endbit (i + stride))"
        using less.hyps [of "i + stride" b2] b2(2) k2 prems le nxt st by (simp add: bm_kept_def)
      then show ?thesis unfolding eq nxt using alloc_result_later fits_not_here [OF notfree] k2 by blast
    qed
  qed
qed

text \<open>The offsets of one word.\<close>

definition scan_ok :: "nat set \<Rightarrow> nat \<Rightarrow> nat \<Rightarrow> nat \<Rightarrow> nat \<Rightarrow> nat \<Rightarrow> word_scan \<Rightarrow> bool" where
  "scan_ok S n st lim i off s =
     (case s of
        Found o' \<Rightarrow> o' + n \<le> 64 \<and> i + o' \<le> lim \<and> free_range S (i + o') n \<and> fits S n st lim (i + off) = fits S n st lim (i + o')
      | Past_end \<Rightarrow> (\<forall>r. \<not> fits S n st lim (i + off) r)
      | Next_word \<Rightarrow> fits S n st lim (i + off) = fits S n st lim (i + 64))"

lemma mask_free:
  assumes "64 dvd i" "i div 64 < length ws" "off + n \<le> 64" "n < 64"
  shows "ws ! (i div 64) AND push_bit off (MASK n) = 0 \<longleftrightarrow> free_range (bset ws) (i + off) n"
proof -
  obtain w where w: "i = 64 * w" using assms(1) by (auto elim: dvdE)
  have "ws ! (i div 64) AND push_bit off (MASK n) = 0 \<longleftrightarrow> (\<forall>k. off \<le> k \<and> k < off + n \<longrightarrow> \<not> bit (ws ! w) k)"
  proof -
    have "bit (push_bit off (MASK n)) k \<longleftrightarrow> off \<le> k \<and> k < off + n" for k
      using assms(3,4) by (auto simp: bit_push_bit_iff bit_MASK)
    then show ?thesis using assms(3) unfolding bit_eq_iff w by (auto simp: bit_and_iff) (meson less_le_trans)
  qed
  also have "\<dots> \<longleftrightarrow> (\<forall>k. off \<le> k \<and> k < off + n \<longrightarrow> 64 * w + k \<notin> bset ws)"
  proof -
    have "64 * w + k \<in> bset ws \<longleftrightarrow> bit (ws ! w) k" if "k < 64" for k
      using that assms(2) w by (simp add: bset_def wbit_def)
    then show ?thesis using assms(3) by auto
  qed
  also have "\<dots> \<longleftrightarrow> free_range (bset ws) (i + off) n"
  proof
    assume a: "\<forall>k. off \<le> k \<and> k < off + n \<longrightarrow> 64 * w + k \<notin> bset ws"
    have "x \<notin> bset ws" if x: "x \<in> {i + off ..< i + off + n}" for x
    proof -
      have "off \<le> x - 64 * w \<and> x - 64 * w < off + n" "64 * w + (x - 64 * w) = x" using x w by auto
      then show ?thesis using a [rule_format, of "x - 64 * w"] by simp
    qed
    then show "free_range (bset ws) (i + off) n" unfolding free_range_def by blast
  qed (auto simp: free_range_def w disjoint_iff)
  finally show ?thesis .
qed

lemma scan_word_ok:
  assumes "64 dvd unat i" "unat i div 64 < length ws" "unat endbit < 2 ^ 60" "unat i < 2 ^ 60"
    and "0 < st" "st dvd 64" "n \<le> st" "n < 64" "st dvd off" "off < 64"
  shows "\<exists>s. scan_word (ws ! (unat i div 64)) (push_bit off (MASK n)) st endbit i off = Some s \<and>
    scan_ok (bset ws) n st (unat endbit) (unat i) off s"
  using assms(9,10)
proof (induction "64 - off" arbitrary: off rule: less_induct)
  case less
  have u: "unat (i + of_nat off) = unat i + off"
    using assms(4) less.prems(2) unat_add_u64 [of i "of_nat off"] unat_of_nat_u64 [of off] by simp
  have "64 - off \<noteq> 0" "st dvd 64 - off" using less.prems assms(6) by (auto intro: dvd_diff_nat)
  then have st: "off + st \<le> 64" using dvd_imp_le [of st "64 - off"] by linarith
  note mf = mask_free [OF assms(1,2) _ assms(8), of off]
  consider (past) "unat endbit < unat i + off" | (free) "unat i + off \<le> unat endbit" "free_range (bset ws) (unat i + off) n"
    | (full) "unat i + off \<le> unat endbit" "\<not> free_range (bset ws) (unat i + off) n" by linarith
  then show ?case
  proof cases
    case past
    then have "i + of_nat off > endbit" using u by (simp add: word_less_nat_alt)
    then show ?thesis using fits_past [OF past] by (subst scan_word.simps) (simp add: scan_ok_def)
  next
    case free
    then have "\<not> i + of_nat off > endbit" using u by (simp add: word_less_nat_alt)
    then show ?thesis using free mf st assms(7) less.prems(2) by (subst scan_word.simps) (simp add: scan_ok_def)
  next
    case full
    then have ne: "\<not> i + of_nat off > endbit" using u by (simp add: word_less_nat_alt)
    have nf: "ws ! (unat i div 64) AND push_bit off (MASK n) \<noteq> 0" using mf full st assms(7) by simp
    have nx: "fits (bset ws) n st (unat endbit) (unat i + off) = fits (bset ws) n st (unat endbit) (unat i + (off + st))"
      using fits_not_here [OF full(2)] by (simp add: add.assoc)
    show ?thesis
    proof (cases "off + st < 64")
      case True
      have "st dvd off + st" using less.prems(1) by simp
      moreover have "64 - (off + st) < 64 - off" using assms(5) less.prems(2) by linarith
      ultimately obtain s where
        "scan_word (ws ! (unat i div 64)) (push_bit (off + st) (MASK n)) st endbit i (off + st) = Some s"
        "scan_ok (bset ws) n st (unat endbit) (unat i) (off + st) s"
        using less.hyps [OF _ _ True] by blast
      then show ?thesis using ne nf True nx
        by (subst scan_word.simps) (auto simp: push_bit_push_bit add.commute scan_ok_def split: word_scan.splits)
    next
      case False
      then have "off + st = 64" using st by simp
      then show ?thesis using ne nf False nx by (subst scan_word.simps) (simp add: scan_ok_def)
    qed
  qed
qed

lemma full_word_skip:
  assumes "64 dvd i" "i div 64 < length ws" "ws ! (i div 64) = - 1" "0 < n" "0 < st" "st dvd 64" "st dvd off" "off \<le> 64"
  shows "fits (bset ws) n st lim (i + off) = fits (bset ws) n st lim (i + 64)"
  using assms(7,8)
proof (induction "64 - off" arbitrary: off rule: less_induct)
  case less
  show ?case
  proof (cases "off = 64")
    case False
    then have "64 - off \<noteq> 0" "st dvd 64 - off" using less.prems assms(6) by (auto intro: dvd_diff_nat)
    then have st: "off + st \<le> 64" using dvd_imp_le [of st "64 - off"] by linarith
    have off: "off < 64" using False less.prems(2) by simp
    have "i + off \<in> bset ws" using assms(1-3) off by (auto simp: bset_def wbit_def elim!: dvdE)
    then have "\<not> free_range (bset ws) (i + off) n" using assms(4) by (auto simp: free_range_def disjoint_iff)
    then have "fits (bset ws) n st lim (i + off) = fits (bset ws) n st lim (i + (off + st))"
      using fits_not_here [of "bset ws" "i + off" n st lim] by (simp add: add.assoc)
    also have "\<dots> = fits (bset ws) n st lim (i + 64)" using less.hyps [of "off + st"] less.prems(1) st off assms(5) by simp
    finally show ?thesis .
  qed simp
qed

lemma scan_result:
  assumes sc: "scan_ok S (unat nbits) st (unat endbit) i off s" and b1: "bm_repr b1 S" "bm_kept b b1"
    and i0: "unat i0 = i" "unat i0 + 64 < unat (bm_mapbits b1)"
    and IH: "alloc_result S (unat nbits) st (unat endbit) (i + 64) b1 next_res"
    and res: "res = (case s of
        Past_end \<Rightarrow> Some (INVALID_PHYSICAL, b1)
      | Found o' \<Rightarrow> do {
          (ok, b2) \<leftarrow> map_range b1 (i0 + of_nat o') nbits True True;
          assert_ok ok;
          Some (i0 + of_nat o', b2) }
      | Next_word \<Rightarrow> next_res)"
  shows "alloc_result S (unat nbits) st (unat endbit) (i + off) b res"
proof (cases s)
  case (Found p)
  have f: "p + unat nbits \<le> 64" "i + p \<le> unat endbit" "free_range S (i + p) (unat nbits)"
    "fits S (unat nbits) st (unat endbit) (i + off) = fits S (unat nbits) st (unat endbit) (i + p)"
    using sc Found by (simp_all add: scan_ok_def)
  have u: "unat (i0 + of_nat p) = i + p"
    using i0 f(1) unat_u64_less [of "bm_mapbits b1"] unat_of_nat_u64 [of p] unat_add_u64 [of i0 "of_nat p"] by simp
  have "unat (i0 + of_nat p) + unat nbits \<le> unat (bm_mapbits b1)" using u i0 f(1) by simp
  from map_range_store [OF b1(1) this, of True] obtain b2 where b2: "map_range b1 (i0 + of_nat p) nbits True True = Some (True, b2)"
    "bm_kept b1 b2" "bm_repr b2 (S \<union> {i + p ..< i + p + unat nbits})" unfolding u by auto
  have "of_nat (unat (i0 + of_nat p)) = i0 + (of_nat p :: u64)" by simp
  then have "i0 + of_nat p = of_nat (i + p)" unfolding u by (rule sym)
  then have "res = Some (of_nat (i + p), b2)" using res Found b2(1) by simp
  from alloc_result_found [OF f(2,3) this bm_kept_trans [OF b1(2) b2(2)] b2(3)]
  show ?thesis using alloc_result_later [OF _ f(4) bm_kept_refl] by blast
next
  case Past_end
  then show ?thesis using alloc_result_none [OF _ _ b1(2,1)] sc res by (simp add: scan_ok_def)
next
  case Next_word
  then show ?thesis using alloc_result_later [OF IH _ b1(2)] sc res by (simp add: scan_ok_def)
qed

lemma alloc_small_first_fit:
  assumes "bm_repr b S" "bm_grows b" "unat endbit + unat nbits \<le> 2 ^ 33" "unat i \<le> 2 ^ 34"
    and "0 < st" "st dvd 64" "unat nbits \<le> st" "0 < unat nbits" "unat nbits < 64" "st dvd unat i"
  shows "alloc_result S (unat nbits) st (unat endbit) (unat i) b (alloc_small b nbits st endbit i)"
  using assms
proof (induction "2 ^ 35 - unat i" arbitrary: i b rule: less_induct)
  case less
  note prems = less.prems
  show ?case
  proof (cases "i \<le> endbit")
    case False
    then have "unat endbit < unat i" by (simp add: word_le_nat_alt)
    then show ?thesis using False prems(1) bm_kept_refl
      by (intro alloc_result_none [of _ _ _ _ _ _ b]) (simp_all add: fits_past alloc_small.simps)
  next
    case True
    then have le: "unat i \<le> unat endbit" by (simp add: word_le_nat_alt)
    define off w where d: "off = unat i mod 64" "w = unat i div 64"
    define i0 where "i0 = i - of_nat off"
    have o: "unat (i AND 63) = off" using unat_and_63 [of i] by (simp add: d BITMAP_WORDMASK_def BITMAP_WORDLEN_def)
    have iw: "unat i = 64 * w + off" "off < 64" by (simp_all add: d)
    have u0: "unat i0 = 64 * w" using iw unat_of_nat_u64 [of off] by (simp add: i0_def unat_sub word_le_nat_alt)
    have nxt: "unat (i0 + 64) = 64 * w + 64" using u0 iw le prems(3) unat_add_u64 [of i0 64] by simp
    have so: "st dvd off" "st dvd unat (i0 + 64)" using prems(6,10) unfolding nxt d by (simp_all add: dvd_mod)
    obtain e b1 where b1: "bitmap_extend b (i0 + 64) = Some (e, b1)" "bm_repr b1 S" "bm_kept b b1" "i0 + 64 < bm_mapbits b1"
      using extend_repr [OF prems(1,2), of "i0 + 64"] nxt iw le prems(3) by auto
    obtain ws where ws: "bm b1 ws" "S = bset ws" using b1(2) by (auto simp: bm_repr_def)
    have wl: "w < length ws" using b1(4) ws(1) nxt by (simp add: bm_def word_less_nat_alt)
    have ptr: "load_ptr (b_contents (bm_alloc_map b1)) (pointer_from_bit (b_start (bm_alloc_map b1)) i0) = Some (ws ! w)"
      using load_vec [of "bm_alloc_map b1" ws w] ws(1) wl u0 by (simp add: bm_def pointer_from_bit_def drop_bit_6)
    have body: "alloc_small b nbits st endbit i =
      (if ws ! w = - 1 then alloc_small b1 nbits st endbit (i0 + 64)
       else do {
         s \<leftarrow> scan_word (ws ! w) (push_bit off (MASK (unat nbits))) st endbit i0 off;
         (case s of
            Past_end \<Rightarrow> Some (INVALID_PHYSICAL, b1)
          | Found o' \<Rightarrow> do {
              (ok, b2) \<leftarrow> map_range b1 (i0 + of_nat o') nbits True True;
              assert_ok ok;
              Some (i0 + of_nat o', b2) }
          | Next_word \<Rightarrow> alloc_small b1 nbits st endbit (i0 + 64)) })"
      using True b1(1) bm_base [OF ws(1)] ptr unfolding i0_def
      by (subst alloc_small.simps) (simp add: Let_def o cong: if_cong)
    have IH: "alloc_result S (unat nbits) st (unat endbit) (64 * w + 64) b1 (alloc_small b1 nbits st endbit (i0 + 64))"
      using less.hyps [of "i0 + 64" b1] b1(2,3) prems so(2) nxt iw le by (simp add: bm_kept_def)
    show ?thesis
    proof (cases "ws ! w = - 1")
      case full: True
      have "fits S (unat nbits) st (unat endbit) (unat i) = fits S (unat nbits) st (unat endbit) (64 * w + 64)"
        using full_word_skip [of "64 * w" ws "unat nbits" st off] full wl prems(5,6,8) so(1) iw unfolding ws(2) by simp
      then show ?thesis using alloc_result_later [OF IH _ b1(3)] full unfolding body by simp
    next
      case notfull: False
      have "64 dvd unat i0" "unat i0 div 64 = w" "unat endbit < 2 ^ 60" "unat i0 < 2 ^ 60" using u0 prems(3) iw le by simp_all
      then obtain s where s: "scan_word (ws ! w) (push_bit off (MASK (unat nbits))) st endbit i0 off = Some s"
        "scan_ok (bset ws) (unat nbits) st (unat endbit) (unat i0) off s"
        using scan_word_ok [of i0 ws endbit st "unat nbits" off] wl prems(5-7,9) so(1) iw(2) by auto
      have res: "alloc_small b nbits st endbit i = (case s of
            Past_end \<Rightarrow> Some (INVALID_PHYSICAL, b1)
          | Found o' \<Rightarrow> do {
              (ok, b2) \<leftarrow> map_range b1 (i0 + of_nat o') nbits True True;
              assert_ok ok;
              Some (i0 + of_nat o', b2) }
          | Next_word \<Rightarrow> alloc_small b1 nbits st endbit (i0 + 64))"
        using notfull s(1) unfolding body by (cases s) simp_all
      have sc: "scan_ok S (unat nbits) st (unat endbit) (64 * w) off s" using s(2) unfolding u0 ws(2) .
      show ?thesis unfolding iw(1)
      proof (rule scan_result [OF sc b1(2,3) _ _ IH])
        show "unat i0 = 64 * w" by (rule u0)
        show "unat i0 + 64 < unat (bm_mapbits b1)" using b1(4) nxt u0 by (simp add: word_less_nat_alt)
      qed (use res in simp)
    qed
  qed
qed

section \<open>Operations\<close>

text \<open>The positions that an allocation from \<open>start\<close> considers, and the free ones among them below \<open>stop\<close>.\<close>

definition candidate :: "nat set \<Rightarrow> nat \<Rightarrow> nat \<Rightarrow> nat \<Rightarrow> nat \<Rightarrow> bool" where
  "candidate S n start stop r \<longleftrightarrow> 2 ^ find_order (of_nat n) dvd r - start \<and> start \<le> r \<and> r + n \<le> stop \<and> {r ..< r + n} \<inter> S = {}"

lemma candidate_fits:
  "n \<le> stop \<Longrightarrow> candidate S n start stop = fits S n (2 ^ find_order (of_nat n)) (stop - n) start"
proof
  fix r assume n: "n \<le> stop"
  let ?st = "2 ^ find_order (of_nat n) :: nat"
  have "?st dvd r - start \<and> start \<le> r \<longleftrightarrow> (\<exists>j. r = start + j * ?st)" by (auto simp: dvd_def le_iff_add mult.commute)
  moreover have "r + n \<le> stop \<longleftrightarrow> r \<le> stop - n" using n by auto
  ultimately show "candidate S n start stop r = fits S n ?st (stop - n) start r"
    unfolding candidate_def fits_def free_range_def by blast
qed

lemma stride_cases:
  assumes "0 < unat nbits" "unat nbits \<le> 2 ^ 33"
  shows "unat (U64_FROM_BIT (find_order nbits)) = 2 ^ find_order nbits" "unat nbits \<le> 2 ^ find_order nbits"
    "2 ^ find_order nbits \<le> (2 :: nat) ^ 33"
    "(U64_FROM_BIT (find_order nbits) \<ge> 64) = (find_order nbits \<ge> 6)" "find_order nbits < 6 \<Longrightarrow> unat nbits < 64"
    "find_order nbits < 6 \<Longrightarrow> 2 ^ find_order nbits dvd (64 :: nat)"
proof -
  have o: "find_order nbits \<le> 33" using find_order_small [OF assms(2)] .
  then show u: "unat (U64_FROM_BIT (find_order nbits)) = 2 ^ find_order nbits" by (simp add: unat_U64_FROM_BIT)
  show g: "unat nbits \<le> 2 ^ find_order nbits" by (rule find_order_ge)
  show "2 ^ find_order nbits \<le> (2 :: nat) ^ 33" using o by (intro power_increasing) simp_all
  have p: "(2 :: nat) ^ 6 \<le> 2 ^ find_order nbits \<longleftrightarrow> 6 \<le> find_order nbits" by (rule power_increasing_iff) simp
  then show "(U64_FROM_BIT (find_order nbits) \<ge> 64) = (find_order nbits \<ge> 6)" using u by (simp add: word_le_nat_alt)
  show "unat nbits < 64" if "find_order nbits < 6" using g p that by simp
  show "2 ^ find_order nbits dvd (64 :: nat)" if "find_order nbits < 6" using le_imp_power_dvd [of "find_order nbits" 6 "2 :: nat"] that by simp
qed

lemma alloc_internal_first_fit:
  assumes r: "bm_repr b S" "bm_grows b" and max: "unat (bm_maxbits b) \<le> 2 ^ 33" and n: "0 < unat nbits"
    and start: "unat start + unat nbits < 2 ^ 64" "6 \<le> find_order nbits \<or> 2 ^ find_order nbits dvd unat start"
    and stop_def: "stop = min (unat end0) (unat (bm_maxbits b))"
  shows "\<exists>x b'. bitmap_alloc_internal b nbits start end0 = Some (x, b') \<and> bm_kept b b' \<and>
    (if \<exists>r. candidate S (unat nbits) (unat start) stop r
     then x = of_nat (LEAST r. candidate S (unat nbits) (unat start) stop r) \<and>
       bm_repr b' (S \<union> {(LEAST r. candidate S (unat nbits) (unat start) stop r) ..<
         (LEAST r. candidate S (unat nbits) (unat start) stop r) + unat nbits})
     else x = INVALID_PHYSICAL \<and> bm_repr b' S)"
proof -
  let ?e = "min end0 (bm_maxbits b)"
  have e: "unat ?e = stop" by (simp add: stop_def min_def word_le_nat_alt)
  have sum: "unat (start + nbits) = unat start + unat nbits" using start(1) by (rule unat_add_u64)
  show ?thesis
  proof (cases "unat start + unat nbits \<le> stop")
    case False
    then have "start + nbits > ?e" using e sum by (simp add: word_less_nat_alt)
    then have "bitmap_alloc_internal b nbits start end0 = Some (INVALID_PHYSICAL, b)" by (simp add: bitmap_alloc_internal_def Let_def)
    moreover have "\<not> candidate S (unat nbits) (unat start) stop r" for r using False by (auto simp: candidate_def)
    ultimately show ?thesis using r(1) bm_kept_refl by simp
  next
    case True
    have st: "stop \<le> 2 ^ 33" using max by (simp add: stop_def)
    then have n33: "unat nbits \<le> 2 ^ 33" using True by simp
    note sc = stride_cases [OF n n33]
    have "\<not> start + nbits > ?e" using e sum True by (simp add: word_less_nat_alt)
    then have body: "bitmap_alloc_internal b nbits start end0 =
        (if 6 \<le> find_order nbits then alloc_multi b nbits (U64_FROM_BIT (find_order nbits)) (?e - nbits) start
         else alloc_small b nbits (2 ^ find_order nbits) (?e - nbits) start)"
      using sc(1,4) by (simp add: bitmap_alloc_internal_def Let_def)
    have l: "unat (?e - nbits) = stop - unat nbits" using e True by (subst unat_sub) (simp_all add: word_le_nat_alt)
    have "alloc_result S (unat nbits) (2 ^ find_order nbits) (stop - unat nbits) (unat start) b (bitmap_alloc_internal b nbits start end0)"
    proof (cases "6 \<le> find_order nbits")
      case 6: True
      have "0 < U64_FROM_BIT (find_order nbits)" using sc(1) by (simp add: word_less_nat_alt)
      then show ?thesis using alloc_multi_first_fit [OF r, of "?e - nbits" nbits "U64_FROM_BIT (find_order nbits)" start] 6 sc(1,3) l st True
        unfolding body by simp
    next
      case 6: False
      then show ?thesis using alloc_small_first_fit [OF r, of "?e - nbits" nbits start "2 ^ find_order nbits"] sc(2,5,6) l st True n start(2)
        unfolding body by simp
    qed
    moreover have "candidate S (unat nbits) (unat start) stop = fits S (unat nbits) (2 ^ find_order nbits) (stop - unat nbits) (unat start)"
      using candidate_fits [of "unat nbits" stop S "unat start"] True by simp
    ultimately show ?thesis unfolding alloc_result_def by (simp only:)
  qed
qed

lemma dealloc_repr:
  assumes r: "bm_repr b S" and fits: "unat i + unat n < 2 ^ 64" "unat (bm_maxbits b) \<le> unat (bm_mapbits b)"
  shows "\<exists>b'. bitmap_dealloc b i n =
      Some (unat i + unat n \<le> unat (bm_maxbits b) \<and> {unat i ..< unat i + unat n} \<subseteq> S, b') \<and> bm_kept b b' \<and>
    bm_repr b' (if unat i + unat n \<le> unat (bm_maxbits b) \<and> {unat i ..< unat i + unat n} \<subseteq> S
      then S - {unat i ..< unat i + unat n} else S)"
proof (cases "unat i + unat n \<le> unat (bm_maxbits b)")
  case True
  have "unat (i + n) = unat i + unat n" using fits(1) by (rule unat_add_u64)
  then have c: "\<not> i + n > bm_maxbits b" using True by (simp add: word_less_nat_alt)
  have f: "unat i + unat n \<le> unat (bm_mapbits b)" using True fits(2) by simp
  obtain b1 where b1: "map_range b i n False True = Some ({unat i ..< unat i + unat n} \<subseteq> S, b1)" "bm_repr b1 S" "bm_kept b b1"
    "bm_mapbits b1 = bm_mapbits b" using map_range_test [OF r f, of True] by auto
  obtain b2 where b2: "map_range b1 i n True False = Some (True, b2)" "bm_kept b1 b2"
    "bm_repr b2 (S - {unat i ..< unat i + unat n})" using map_range_store [OF b1(2), of i n False] f b1(4) by auto
  show ?thesis
  proof (cases "{unat i ..< unat i + unat n} \<subseteq> S")
    case sub: True
    have "bitmap_dealloc b i n = Some (True, b2)" using c b1(1) b2(1) sub by (simp add: bitmap_dealloc_def)
    then show ?thesis using True sub b2(3) bm_kept_trans [OF b1(3) b2(2)] by simp
  next
    case nsub: False
    have "bitmap_dealloc b i n = Some (False, b1)" using c b1(1) nsub by (simp add: bitmap_dealloc_def)
    then show ?thesis using nsub b1(2,3) by simp
  qed
next
  case False
  have "unat (i + n) = unat i + unat n" using fits(1) by (rule unat_add_u64)
  then have "i + n > bm_maxbits b" using False by (simp add: word_less_nat_alt)
  then show ?thesis using False r bm_kept_refl by (simp add: bitmap_dealloc_def)
qed

lemma check_and_set_repr:
  assumes r: "bm_repr b S" "bm_grows b" and max: "unat (bm_maxbits b) \<le> 2 ^ 33" and n: "0 < unat n" "unat i + unat n < 2 ^ 64"
    and R_def: "R = {unat i ..< unat i + unat n}"
    and ok_def: "ok = (unat i + unat n \<le> unat (bm_maxbits b) \<and> (validate \<longrightarrow> (if val then R \<inter> S = {} else R \<subseteq> S)))"
  shows "\<exists>b'. bitmap_range_check_and_set b i n validate val = Some (ok, b') \<and> bm_kept b b' \<and>
    bm_repr b' (if ok then (if val then S \<union> R else S - R) else S)"
proof (cases "unat i + unat n \<le> unat (bm_maxbits b)")
  case False
  have "unat (i + n) = unat i + unat n" using n(2) by (rule unat_add_u64)
  then have "i + n > bm_maxbits b" using False by (simp add: word_less_nat_alt)
  then show ?thesis using False r(1) bm_kept_refl by (simp add: bitmap_range_check_and_set_def ok_def)
next
  case True
  have u: "unat (i + n) = unat i + unat n" using n(2) by (rule unat_add_u64)
  then have c: "\<not> i \<ge> bm_maxbits b" "\<not> i + n > bm_maxbits b" using True n(1) by (simp_all add: word_less_nat_alt word_le_nat_alt)
  have u1: "unat (i + n - 1) = unat i + unat n - 1" using u n(1) by (subst unat_sub) (simp_all add: word_le_nat_alt)
  have le: "unat (i + n - 1) \<le> 2 ^ 33 + 2 ^ 13" using u1 True max by simp
  obtain e b1 where b1: "bitmap_extend b (i + n - 1) = Some (e, b1)" "bm_repr b1 S" "bm_kept b b1" "i + n - 1 < bm_mapbits b1"
    using extend_repr [OF r le] by blast
  have f: "unat i + unat n \<le> unat (bm_mapbits b1)" using b1(4) u1 by (simp add: word_less_nat_alt)
  obtain b2 where b2: "(if validate then map_range b1 i n False (\<not> val) else Some (True, b1)) = Some (ok, b2)" "bm_repr b2 S" "bm_kept b1 b2"
    "bm_mapbits b2 = bm_mapbits b1"
    using map_range_test [OF b1(2) f, of "\<not> val"] b1(2) bm_kept_refl True by (cases validate) (auto simp: ok_def R_def)
  show ?thesis
  proof (cases ok)
    case ok: True
    obtain b3 where b3: "map_range b2 i n True val = Some (True, b3)" "bm_kept b2 b3" "bm_repr b3 (if val then S \<union> R else S - R)"
      using map_range_store [OF b2(2), of i n val] f b2(4) unfolding R_def by auto
    have "bitmap_range_check_and_set b i n validate val = Some (True, b3)"
      using c b1(1) b2(1) b3(1) ok by (simp add: bitmap_range_check_and_set_def)
    then show ?thesis using ok b3 bm_kept_trans [OF b1(3) bm_kept_trans [OF b2(3) b3(2)]] by simp
  next
    case nok: False
    have "bitmap_range_check_and_set b i n validate val = Some (False, b2)"
      using c b1(1) b2(1) nok by (simp add: bitmap_range_check_and_set_def)
    then show ?thesis using nok b2(2) bm_kept_trans [OF b1(3) b2(3)] by simp
  qed
qed

lemma get_repr:
  assumes r: "bm_repr b S"
  shows "bitmap_get b i = Some (unat i \<in> S)"
proof -
  obtain ws where ws: "bm b ws" "S = bset ws" using r by (auto simp: bm_repr_def)
  have m: "unat (i AND 63) = unat i mod 64" using unat_and_63 [of i] by (simp add: BITMAP_WORDMASK_def BITMAP_WORDLEN_def)
  show ?thesis
  proof (cases "bm_mapbits b \<le> i")
    case True
    then have "unat i \<notin> S" using ws by (simp add: bset_def bm_def word_le_nat_alt)
    then show ?thesis using True by (simp add: bitmap_get_def)
  next
    case False
    then have l: "unat i div 64 < length ws" "unat i < 64 * length ws" using ws(1) by (simp_all add: bm_def word_le_nat_alt)
    have "load_ptr (b_contents (bm_alloc_map b)) (pointer_from_bit (b_start (bm_alloc_map b)) i) = Some (ws ! (unat i div 64))"
      using load_vec [of "bm_alloc_map b" ws "unat i div 64"] ws(1) l(1) by (simp add: bm_def pointer_from_bit_def drop_bit_6)
    moreover have "w AND push_bit k 1 \<noteq> 0 \<longleftrightarrow> bit w k" for w :: u64 and k
      by (simp add: bit_iff_and_push_bit_not_eq_0)
    ultimately show ?thesis using False bm_base [OF ws(1)] l(2) ws(2) by (simp add: bitmap_get_def m bset_def wbit_def)
  qed
qed

lemma set_repr:
  assumes r: "bm_repr b S" and i: "i < bm_mapbits b \<or> bm_grows b \<and> unat i \<le> 2 ^ 33"
  shows "\<exists>b'. bitmap_set b i val = Some b' \<and> bm_repr b' (if val then insert (unat i) S else S - {unat i})"
proof -
  obtain b1 where b1: "(if i \<ge> bm_mapbits b then do { (e, b') \<leftarrow> bitmap_extend b i; assert_ok e; Some b' } else Some b) = Some b1"
    "bm_repr b1 S" "i < bm_mapbits b1"
  proof (cases "i < bm_mapbits b")
    case False
    obtain ws where ws: "bm b ws" "S = bset ws" using r by (auto simp: bm_repr_def)
    have "bm_mapbits b \<le> i" "bm_grows b" "unat i \<le> 2 ^ 33 + 2 ^ 13" using False i by auto
    then obtain b' k where b': "bitmap_extend b i = Some (True, b')" "bm b' (ws @ replicate k 0)" "i < bm_mapbits b'"
      using extend_bm [OF ws(1)] by blast
    then have "bm_repr b' S" using ws(2) bset_zeros [of ws k] unfolding bm_repr_def by blast
    then show ?thesis using that [of b'] b' \<open>bm_mapbits b \<le> i\<close> by simp
  next
    case True
    then have "\<not> bm_mapbits b \<le> i" by simp
    then show ?thesis using that [of b] r True by simp
  qed
  obtain ws where ws: "bm b1 ws" "S = bset ws" using b1(2) by (auto simp: bm_repr_def)
  define j k where d: "j = unat i div 64" "k = unat i mod 64"
  have ik: "unat i = 64 * j + k" "k < 64" by (simp_all add: d)
  have l: "j < length ws" using b1(3) ws(1) ik by (simp add: bm_def word_less_nat_alt)
  have m: "unat (i AND 63) = k" using unat_and_63 [of i] by (simp add: d BITMAP_WORDMASK_def BITMAP_WORDLEN_def)
  define w' where "w' = (if val then ws ! j OR push_bit k 1 else ws ! j AND NOT (push_bit k 1))"
  have p: "pointer_from_bit (b_start (bm_alloc_map b1)) i = b_start (bm_alloc_map b1) + of_nat j * 8"
    by (simp add: pointer_from_bit_def drop_bit_6 d)
  have j31: "j < 2 ^ 31" using l ws(1) by (simp add: bm_def)
  have vec: "vec (bm_alloc_map b1) ws" using ws(1) by (simp add: bm_def)
  obtain c where c: "store_ptr (b_contents (bm_alloc_map b1)) (pointer_from_bit (b_start (bm_alloc_map b1)) i) w' = Some c"
    "vec ((bm_alloc_map b1)\<lparr>b_contents := c\<rparr>) (ws[j := w'])"
    using store_vec [OF vec l j31] unfolding p by blast
  let ?b = "b1\<lparr>bm_alloc_map := (bm_alloc_map b1)\<lparr>b_contents := c\<rparr>\<rparr>"
  have "bitmap_set b i val = Some ?b"
    using b1(1) bm_base [OF ws(1)] load_vec [OF vec l j31] c(1) unfolding bitmap_set_def w'_def by (simp add: m p Let_def cong: if_cong)
  moreover have "bm ?b (ws[j := w'])" using ws(1) c(2) by (simp add: bm_def)
  moreover have "bset (ws[j := w']) = (if val then insert (unat i) S else S - {unat i})"
  proof -
    have "wbit (ws[j := w']) x = (if x = unat i then val else wbit ws x)" if "x < 64 * length ws" for x
    proof (cases "x div 64 = j")
      case True
      then have "x = 64 * j + x mod 64" by (metis mult_div_mod_eq)
      then have "x = unat i \<longleftrightarrow> x mod 64 = k" unfolding ik(1) by (metis add_left_cancel)
      then show ?thesis using True l ik(2) by (auto simp: wbit_def w'_def bit_simps)
    next
      case False
      then have "x \<noteq> unat i" by (auto simp: d)
      then show ?thesis using False by (simp add: wbit_def)
    qed
    then show ?thesis unfolding ws(2) bset_def using l ik by (auto split: if_splits)
  qed
  ultimately show ?thesis by (auto simp: bm_repr_def)
qed

end
