(* ===== verification/Bitmap_Props.thy ===== *)
theory Bitmap_Props
  imports Bitmap_Correct
begin

text \<open>
  The search for the first set bit of a range, the creation of a bitmap, and the properties of the bitmap
  allocator.
\<close>

section \<open>First set bit\<close>

lemma lsb_from_spec:
  "n + k = 64 \<Longrightarrow>
   (lsb_from x n k = - 1 \<and> (\<forall>j. n \<le> j \<longrightarrow> \<not> bit x j)) \<or> (\<exists>j < 64. lsb_from x n k = of_nat j \<and> n \<le> j \<and> bit x j \<and> (\<forall>i. n \<le> i \<and> i < j \<longrightarrow> \<not> bit x i))"
proof (induction k arbitrary: n)
  case 0
  then show ?case using bit_imp_le_length [of x] by fastforce
next
  case (Suc k)
  show ?case
  proof (cases "bit x n")
    case True
    then show ?thesis using Suc.prems by (intro disjI2 exI [of _ n]) auto
  next
    case False
    from Suc.IH [of "Suc n"] Suc.prems have
      "(lsb_from x (Suc n) k = - 1 \<and> (\<forall>j. Suc n \<le> j \<longrightarrow> \<not> bit x j)) \<or>
       (\<exists>j < 64. lsb_from x (Suc n) k = of_nat j \<and> Suc n \<le> j \<and> bit x j \<and> (\<forall>i. Suc n \<le> i \<and> i < j \<longrightarrow> \<not> bit x i))" by simp
    moreover have step: "n \<le> j \<longleftrightarrow> j = n \<or> Suc n \<le> j" for j by auto
    ultimately show ?thesis using False unfolding step by auto
  qed
qed

lemma lsb_spec:
  obtains "lsb x = INVALID_PHYSICAL" "\<And>j. \<not> bit x j"
  | j where "j < 64" "lsb x = of_nat j" "lsb x \<noteq> INVALID_PHYSICAL" "bit x j" "\<And>i. i < j \<Longrightarrow> \<not> bit x i"
proof -
  have ne: "(of_nat j :: u64) \<noteq> - 1" if "j < 64" for j
  proof
    assume "(of_nat j :: u64) = - 1"
    then have "(of_nat (j + 1) :: u64) = 0" by simp
    then have "unat (of_nat (j + 1) :: u64) = 0" by (simp only: unat_eq_zero)
    then show False using that unat_of_nat_u64 [of "j + 1"] by simp
  qed
  from lsb_from_spec [of 0 64 x] show thesis using that ne unfolding lsb_def INVALID_PHYSICAL_def by auto
qed

definition first_in :: "nat set \<Rightarrow> nat \<Rightarrow> nat \<Rightarrow> u64 \<Rightarrow> bool" where
  "first_in S p n res \<longleftrightarrow>
     (if \<exists>i \<in> S. p \<le> i \<and> i < p + n then res = of_nat (LEAST i. i \<in> S \<and> p \<le> i \<and> i < p + n) else res = INVALID_PHYSICAL)"

lemma get_first_loop_correct:
  assumes "vec v ws" "length ws < 2 ^ 28" "unat bo < 64" "64 * unat wo + unat bo + unat n \<le> 64 * length ws"
  shows "\<exists>r. get_first_loop (b_contents v) (b_start v) wo bo n = Some r \<and> first_in (bset ws) (64 * unat wo + unat bo) (unat n) r"
  using assms(3,4)
proof (induction "unat n" arbitrary: wo bo n rule: less_induct)
  case less
  show ?case
  proof (cases "n = 0")
    case True
    then show ?thesis by (subst get_first_loop.simps) (auto simp: first_in_def)
  next
    case False
    define w o' c where d: "w = unat wo" "o' = unat bo" "c = unat n"
    have c: "0 < c" "o' < 64" "64 * w + o' + c \<le> 64 * length ws" using False less.prems by (simp_all add: d unat_gt_0)
    have "w < length ws" using c by linarith
    then have wl: "w < length ws" "w < 2 ^ 31" using assms(2) by simp_all
    have wo: "wo = of_nat w" by (simp add: d)
    have ld: "load_ptr (b_contents v) (b_start v + wo * 8) = Some (ws ! w)" using load_vec [OF assms(1) wl] by (simp add: wo)
    have s64: "unat (64 - bo) = 64 - o'" using c(2) by (subst unat_sub) (simp_all add: d word_le_nat_alt)
    define x where "x = (let w1 = (if bo > 0 then ws ! w AND NOT (MASK (unat bo)) else ws ! w) in
      if n < 64 - bo then w1 AND MASK (unat (bo + n)) else w1)"
    have bx: "bit x k \<longleftrightarrow> bit (ws ! w) k \<and> o' \<le> k \<and> k < o' + c" for k
    proof -
      have "bit (if bo > 0 then ws ! w AND NOT (MASK (unat bo)) else ws ! w) k \<longleftrightarrow> bit (ws ! w) k \<and> o' \<le> k"
        using c(2) bit_imp_le_length [of "ws ! w" k] by (auto simp: bit_simps bit_MASK d word_less_nat_alt)
      moreover have "n < 64 - bo \<longleftrightarrow> o' + c < 64" using s64 c(2) by (auto simp: word_less_nat_alt d)
      moreover have "unat (bo + n) = o' + c" if "o' + c < 64" using that unat_add_u64 [of bo n] by (simp add: d)
      ultimately show ?thesis using bit_imp_le_length [of "ws ! w" k]
        by (auto simp: x_def Let_def bit_and_iff bit_MASK)
    qed
    have bs: "i \<in> bset ws \<longleftrightarrow> bit (ws ! w) (i - 64 * w)" if "64 * w \<le> i" "i < 64 * w + 64" for i
    proof -
      have "i div 64 = w" "i mod 64 = i - 64 * w" using that by (auto simp: div_nat_eqI modulo_nat_def)
      then show ?thesis using that wl(1) by (simp add: bset_def wbit_def)
    qed
    show ?thesis
    proof (cases rule: lsb_spec [of x])
      case (2 j)
      have "get_first_loop (b_contents v) (b_start v) wo bo n = Some (push_bit 6 wo + lsb x)"
        using False ld 2(3) by (subst get_first_loop.simps) (simp add: x_def Let_def word_gt_0)
      moreover have "push_bit 6 wo + lsb x = of_nat (64 * w + j)" unfolding 2(2) wo by (simp add: push_bit_eq_mult)
      moreover have j: "o' \<le> j" "j < o' + c" "bit (ws ! w) j" using 2(4) bx by auto
      have "first_in (bset ws) (64 * w + o') c (of_nat (64 * w + j))"
      proof -
        have m: "64 * w + j \<in> bset ws \<and> 64 * w + o' \<le> 64 * w + j \<and> 64 * w + j < 64 * w + o' + c" using j bs [of "64 * w + j"] 2(1) by simp
        moreover have "64 * w + j \<le> i" if i: "i \<in> bset ws \<and> 64 * w + o' \<le> i \<and> i < 64 * w + o' + c" for i
        proof (rule ccontr)
          assume "\<not> 64 * w + j \<le> i"
          then have "i - 64 * w < j" "i < 64 * w + 64" "o' \<le> i - 64 * w" "i - 64 * w < o' + c" using 2(1) i by linarith+
          then show False using 2(5) [of "i - 64 * w"] bx bs [of i] i by simp
        qed
        ultimately have "(LEAST i. i \<in> bset ws \<and> 64 * w + o' \<le> i \<and> i < 64 * w + o' + c) = 64 * w + j" by (rule Least_equality)
        then show ?thesis using m unfolding first_in_def by auto
      qed
      ultimately show ?thesis by (simp add: d)
    next
      case 1
      define n' where "n' = (if n \<ge> 64 - bo then n - (64 - bo) else 0)"
      have eq: "get_first_loop (b_contents v) (b_start v) wo bo n = get_first_loop (b_contents v) (b_start v) (wo + 1) 0 n'"
        using False ld 1(1) by (subst get_first_loop.simps) (simp add: x_def Let_def word_gt_0 n'_def)
      have un: "unat n' = c - (64 - o')"
        using s64 c(2) by (auto simp: n'_def word_le_nat_alt d unat_sub not_le)
      have uw: "unat (wo + 1) = w + 1" using wl(2) unat_add_u64 [of wo 1] by (simp add: d)
      have "64 * (w + 1) \<le> 64 * length ws" using wl(1) by (intro mult_le_mono2) simp
      then have "64 * (w + 1) + unat n' \<le> 64 * length ws" unfolding un using c(2,3) by (cases "64 - o' \<le> c") auto
      moreover have "unat n' < unat n" using un c by (simp add: d)
      ultimately obtain r where r: "get_first_loop (b_contents v) (b_start v) (wo + 1) 0 n' = Some r"
        "first_in (bset ws) (64 * (w + 1)) (unat n') r" using less.hyps [of n' 0 "wo + 1"] uw by auto
      have "(i \<in> bset ws \<and> 64 * (w + 1) \<le> i \<and> i < 64 * (w + 1) + unat n') = (i \<in> bset ws \<and> 64 * w + o' \<le> i \<and> i < 64 * w + o' + c)" for i
      proof (cases "i < 64 * w + 64")
        case True
        then show ?thesis using bs [of i] bx [of "i - 64 * w"] 1(2) [of "i - 64 * w"] by auto
      next
        case False
        then show ?thesis using un c(2) by auto
      qed
      then have "first_in (bset ws) (64 * w + o') c r" using r(2) unfolding first_in_def Bex_def by simp
      then show ?thesis using r(1) eq by (simp add: d)
    qed
  qed
qed

lemma get_first_repr:
  assumes r: "bm_repr b S" and fits: "unat p + unat k \<le> unat (bm_mapbits b)"
  shows "\<exists>x. bitmap_range_get_first b p k = Some x \<and> first_in S (unat p) (unat k) x"
proof -
  obtain ws where ws: "bm b ws" "S = bset ws" using r by (auto simp: bm_repr_def)
  have vec: "vec (bm_alloc_map b) ws" "length ws < 2 ^ 28" using ws(1) by (simp_all add: bm_def)
  have "p AND MASK 6 = p AND BITMAP_WORDMASK"
    by (simp add: MASK_def U64_FROM_BIT_def push_bit_eq_mult BITMAP_WORDMASK_def BITMAP_WORDLEN_def)
  then have o: "unat (p AND MASK 6) = unat p mod 64" using unat_and_63 [of p] by simp
  have "unat p div 64 < 2 ^ 64" using unat_u64_less [of p] by (intro le_less_trans [OF div_le_dividend])
  then have w: "unat (drop_bit 6 p) = unat p div 64" unfolding drop_bit_6 by (rule unat_of_nat_u64)
  have sum: "64 * unat (drop_bit 6 p) + unat (p AND MASK 6) = unat p" unfolding o w by simp
  have "64 * unat (drop_bit 6 p) + unat (p AND MASK 6) + unat k \<le> 64 * length ws" unfolding sum using fits ws(1) by (simp add: bm_def)
  from get_first_loop_correct [OF vec _ this] show ?thesis
    using o ws(2) bm_base [OF ws(1)] unfolding sum by (simp add: bitmap_range_get_first_def)
qed

section \<open>Creation\<close>

text \<open>A new bitmap is empty, whether it is allocated or cloned from an empty one.\<close>

lemma unat_pad_64:
  assumes "0 < unat l" "unat l \<le> 2 ^ 63"
  shows "unat (pad l 64) = (unat l + 63) div 64 * 64"
proof -
  have u: "unat (l - 1) = unat l - 1" using assms(1) by (subst unat_sub) (simp_all add: word_le_nat_alt)
  have "bit ((l - 1) AND NOT (mask 6)) k = bit (push_bit 6 (drop_bit 6 (l - 1))) k" for k
    using bit_imp_le_length [of "l - 1" k] by (auto simp: bit_simps)
  then have "(l - 1) AND NOT (mask 6) = push_bit 6 (drop_bit 6 (l - 1))" by (rule bit_word_eqI)
  moreover have "(64 :: u64) - 1 = mask 6" by (simp add: mask_eq_exp_minus_1)
  ultimately have p: "pad l 64 = (l - 1) div 64 * 64 + 64" by (simp add: pad_def push_bit_eq_mult drop_bit_eq_div)
  have q: "unat ((l - 1) div 64 * 64) = (unat l - 1) div 64 * 64" using assms u by (simp add: unat_word_ariths unat_div)
  have "(unat l - 1) div 64 * 64 \<le> unat l - 1" by simp
  then have "unat (pad l 64) = (unat l - 1) div 64 * 64 + 64" unfolding p using q assms(2) unat_add_u64 [of "(l - 1) div 64 * 64" 64] by simp
  moreover have "(unat l + 63) div 64 = (unat l - 1) div 64 + 1" using assms(1) by (subst div_add_self2 [symmetric]) simp_all
  ultimately show ?thesis by simp
qed

lemma allocate_bitmap_repr:
  assumes h: "\<And>k. meta k \<noteq> None" "\<And>k. h k \<noteq> None" "heap_ok h" and len: "0 < unat l" "unat l \<le> 2 ^ 33"
  shows "\<exists>b. allocate_bitmap meta h l = Some (Some b) \<and> bm_repr b {} \<and> bm_grows b \<and> bm_maxbits b = l"
proof -
  define m where "m = min ALLOC_EXTEND_BITS (pad l 64)"
  have "unat ALLOC_EXTEND_BITS = 64 * 64" by (simp add: ALLOC_EXTEND_BITS_def unat_U64_FROM_BIT)
  moreover have "unat (pad l 64) = 64 * ((unat l + 63) div 64)" using unat_pad_64 [of l] len by simp
  ultimately obtain q where q: "unat m = 64 * q" "0 < q" "q \<le> 64"
    using len(1) by (cases "ALLOC_EXTEND_BITS \<le> pad l 64") (auto simp: m_def min_def word_le_nat_alt)
  have d: "unat (drop_bit 3 m) = 8 * q" using q(1) by (simp add: drop_bit_eq_div unat_div)
  obtain c where c: "h (drop_bit 3 m) = Some c" "length c = 8 * q" using h(2) [of "drop_bit 3 m"] h(3) d by (auto simp: heap_ok_def)
  have nz: "drop_bit 3 m \<noteq> 0" using d q(2) by auto
  have l1: "l \<noteq> - 1"
  proof
    assume "l = - 1"
    then have "l + 1 = 0" by simp
    then show False using len unat_add_u64 [of l 1] by simp
  qed
  let ?v = "\<lparr>b_start = 0, b_end = drop_bit 3 m, b_length = drop_bit 3 m, b_wrapped = False, b_h = h, b_contents = replicate (8 * q) 0\<rparr>"
  let ?b = "\<lparr>bm_maxbits = l, bm_mapbits = m, bm_meta = meta, bm_map = Some h, bm_alloc_map = ?v\<rparr>"
  have "allocate_buffer h (drop_bit 3 m) = Some (init_buffer (drop_bit 3 m) False h c)"
    using h(2) [of sizeof_buffer] c(1) nz by (auto simp: allocate_buffer_def)
  moreover have "l > 0" using len(1) by (simp add: word_less_nat_alt)
  ultimately have "allocate_bitmap meta h l = Some (Some ?b)"
    using h(1) [of sizeof_bitmap] l1 c(2) d
    by (auto simp: allocate_bitmap_def allocate_bitmap_internal_def Let_def m_def [symmetric] buffer_ref_def poke_def init_buffer_def
        buffer_produce_def)
  moreover have "bm ?b (replicate q 0)"
    using q d h(3) zeros_flat [of q] by (simp add: bm_def vec_def wf_buffer_def bytes_of_def word_le_nat_alt)
  moreover have "bset (replicate q 0) = {}" by (auto simp: bset_def wbit_def)
  moreover have "bm_grows ?b" using h(2) q(3) by (simp add: bm_grows_def)
  ultimately show ?thesis unfolding bm_repr_def by (intro exI [of _ ?b] conjI exI [of _ "replicate q 0"]) simp_all
qed

section \<open>Copies\<close>

lemma map_bytes:
  assumes "bm b ws"
  shows "unat (drop_bit 3 (bm_mapbits b)) = 8 * length ws" "bitmap_base b = Some 0" "bytes_of (bm_alloc_map b) = flat ws"
    "wf_buffer (bm_alloc_map b)" "b_start (bm_alloc_map b) = 0"
    "peek (b_contents (bm_alloc_map b)) 0 (8 * length ws) = Some (flat ws)"
proof -
  show "unat (drop_bit 3 (bm_mapbits b)) = 8 * length ws" using assms by (simp add: bm_def drop_bit_eq_div unat_div)
  show "bitmap_base b = Some 0" using bm_base [OF assms] assms by (simp add: bm_def)
  show f: "bytes_of (bm_alloc_map b) = flat ws" "wf_buffer (bm_alloc_map b)" "b_start (bm_alloc_map b) = 0"
    using assms by (simp_all add: bm_def vec_def)
  show "peek (b_contents (bm_alloc_map b)) 0 (8 * length ws) = Some (flat ws)"
    using load_window [OF f(2), of 0 "8 * length ws"] f by simp
qed

lemma clone_repr:
  assumes r: "bm_repr b S" and h: "bm_map b = Some h" "\<And>k. h k \<noteq> None" "heap_ok h" "\<And>k. bm_meta b k \<noteq> None"
    and len: "0 < unat (bm_maxbits b)" "unat (bm_maxbits b) \<le> 2 ^ 33" and m: "0 < bm_mapbits b"
  shows "\<exists>c. bitmap_clone b = Some (Some c) \<and> bm_repr c S \<and> bm_maxbits c = bm_maxbits b \<and> bm_mapbits c = bm_mapbits b"
proof -
  obtain ws where ws: "bm b ws" "S = bset ws" using r by (auto simp: bm_repr_def)
  note B = map_bytes [OF ws(1)]
  let ?n = "drop_bit 3 (bm_mapbits b)"
  have "unat (bm_mapbits b) \<noteq> 0" using m by (simp add: word_less_nat_alt)
  then have nz: "?n \<noteq> 0" using B(1) ws(1) by (auto simp: bm_def)
  obtain a where a: "h ?n = Some a" "length a = 8 * length ws" using h(2) [of ?n] h(3) B(1) by (auto simp: heap_ok_def)
  have l1: "bm_maxbits b \<noteq> - 1"
  proof
    assume "bm_maxbits b = - 1"
    then have "bm_maxbits b + 1 = 0" by simp
    then show False using len unat_add_u64 [of "bm_maxbits b" 1] by simp
  qed
  let ?v = "\<lparr>b_start = 0, b_end = ?n, b_length = ?n, b_wrapped = False, b_h = h, b_contents = flat ws\<rparr>"
  let ?c = "\<lparr>bm_maxbits = bm_maxbits b, bm_mapbits = bm_mapbits b, bm_meta = bm_meta b, bm_map = Some h, bm_alloc_map = ?v\<rparr>"
  have "allocate_buffer h ?n = Some (init_buffer ?n False h a)"
    using h(2) [of sizeof_buffer] a(1) nz by (auto simp: allocate_buffer_def)
  moreover have "bm_maxbits b > 0" using len(1) by (simp add: word_less_nat_alt)
  ultimately have "bitmap_clone b = Some (Some ?c)"
    using h(1) h(4) [of sizeof_bitmap] l1 a(2) B(1) B(2) [unfolded bitmap_base_def] B(6)
    by (auto simp: bitmap_clone_def allocate_bitmap_internal_def Let_def buffer_ref_def poke_def init_buffer_def buffer_produce_def)
  moreover have "bm ?c ws"
    using ws(1) B(1) h(3) by (simp add: bm_def vec_def wf_buffer_def bytes_of_def word_le_nat_alt)
  ultimately show ?thesis using ws(2) by (auto simp: bm_repr_def)
qed

lemma copy_repr:
  assumes d: "bm_repr dest D" "bm_grows dest" and s: "bm_repr src S" and e: "bm_maxbits dest = bm_maxbits src"
    and m: "0 < bm_mapbits src" "unat (bm_mapbits src) \<le> 2 ^ 33"
  shows "\<exists>b. bitmap_copy dest src = Some b \<and> bm_repr b S \<and> bm_maxbits b = bm_maxbits src"
proof -
  obtain ws where ws: "bm src ws" "S = bset ws" using s by (auto simp: bm_repr_def)
  have m1: "unat (bm_mapbits src - 1) = unat (bm_mapbits src) - 1" using m(1) by (subst unat_sub) (simp_all add: word_le_nat_alt word_less_nat_alt)
  have le: "unat (bm_mapbits src - 1) \<le> 2 ^ 33 + 2 ^ 13" using m(2) m1 by simp
  obtain x b1 where b1: "bitmap_extend dest (bm_mapbits src - 1) = Some (x, b1)" "bm_repr b1 D" "bm_kept dest b1" "bm_mapbits src - 1 < bm_mapbits b1"
    using extend_repr [OF d le] by blast
  obtain vs where vs: "bm b1 vs" using b1(2) by (auto simp: bm_repr_def)
  note W = map_bytes [OF ws(1)] and V = map_bytes [OF vs]
  have len: "length ws \<le> length vs" using b1(4) m1 vs ws(1) m(1) by (simp add: bm_def word_less_nat_alt)
  let ?v = "bm_alloc_map b1"
  obtain c where c: "poke (b_contents ?v) 0 (flat ws) = Some c" "wf_buffer (?v\<lparr>b_contents := c\<rparr>)"
    "bytes_of (?v\<lparr>b_contents := c\<rparr>) = flat ws @ drop (8 * length ws) (flat vs)" "length c = length (b_contents ?v)"
    using store_window [OF V(4), of 0 "flat ws"] V(3,5) len by auto
  define k where "k = length vs - length ws"
  have k: "unat (drop_bit 3 (bm_mapbits b1 - bm_mapbits src)) = 8 * k"
    using vs ws(1) len by (simp add: bm_def k_def drop_bit_eq_div unat_div unat_sub word_le_nat_alt right_diff_distrib')
  have lv: "length vs = length ws + k" using len by (simp add: k_def)
  obtain c' where c': "poke c (8 * length ws) (replicate (8 * k) 0) = Some c'" "wf_buffer (?v\<lparr>b_contents := c'\<rparr>)"
    "bytes_of (?v\<lparr>b_contents := c'\<rparr>) = flat ws @ flat (replicate k 0)"
    using store_window [OF c(2), of "8 * length ws" "replicate (8 * k) 0"] c(3) V(5) lv zeros_flat [of k] by auto
  have gt: "bm_mapbits b1 > bm_mapbits src \<longleftrightarrow> 0 < k" using vs ws(1) by (auto simp: bm_def k_def word_less_nat_alt)
  have "k = 0 \<Longrightarrow> c' = c" using c'(1) by (simp add: poke_def split: if_splits)
  then have "bitmap_copy dest src = Some (b1\<lparr>bm_alloc_map := ?v\<lparr>b_contents := c'\<rparr>\<rparr>)"
    using e m(1) b1(1) W(1,2,6) V(2) c(1) c'(1) gt k by (auto simp: bitmap_copy_def)
  moreover have "bm (b1\<lparr>bm_alloc_map := ?v\<lparr>b_contents := c'\<rparr>\<rparr>) (ws @ replicate k 0)"
    using vs c'(2,3) len by (simp add: bm_def vec_def k_def)
  ultimately show ?thesis using ws(2) bset_zeros [of ws k] b1(3) e unfolding bm_repr_def bm_kept_def by auto
qed

section \<open>Properties\<close>


text \<open>The bitmap of 128 bits in which the bits 0 to 2 and bit 64 are allocated.\<close>

definition sample_bitmap :: bitmap where
  "sample_bitmap = \<lparr>bm_maxbits = 128, bm_mapbits = 128, bm_meta = sample_heap, bm_map = Some sample_heap,
     bm_alloc_map = \<lparr>b_start = 0, b_end = 16, b_length = 16, b_wrapped = False, b_h = sample_heap,
       b_contents = flat [7, 1]\<rparr>\<rparr>"

lemma sample_bitmap_ok:
  "bm_repr sample_bitmap {0, 1, 2, 64}" "bm_grows sample_bitmap" "bm_maxbits sample_bitmap = 128" "bm_mapbits sample_bitmap = 128"
proof -
  have "bm sample_bitmap [7, 1]"
    by (simp add: bm_def sample_bitmap_def vec_def wf_buffer_def bytes_of_def heap_ok_def sample_heap_def del: flat_simps(2))
  moreover have "bset [7, 1] = {0, 1, 2, 64}"
  proof -
    have "(7 :: u64) = mask 3" by (simp add: mask_eq_exp_minus_1)
    then have b7: "bit (7 :: u64) k \<longleftrightarrow> k < 3" for k by (simp only: bit_mask_iff) auto
    have "i \<in> bset [7, 1] \<longleftrightarrow> i \<in> {0, 1, 2, 64}" for i
    proof (cases "i < 64")
      case True
      then show ?thesis using b7 [of i] by (auto simp: bset_def wbit_def)
    next
      case False
      then show ?thesis by (auto simp: bset_def wbit_def b7 bit_simps nth_Cons')
    qed
    then show ?thesis by blast
  qed
  ultimately show "bm_repr sample_bitmap {0, 1, 2, 64}" unfolding bm_repr_def by metis
qed (simp_all add: sample_bitmap_def bm_grows_def sample_heap_def)

lemma sample_maps: "bm_map sample_bitmap = Some sample_heap" "bm_meta sample_bitmap = sample_heap"
  by (simp_all add: sample_bitmap_def)

lemma find_order_2: "find_order 2 = 1"
  by code_simp






end
