(* ===== verification/Ringbuf.thy ===== *)
theory Ringbuf
  imports Buffer_Search Bits
begin

text \<open>
  The ring buffer of \<^verbatim>\<open>kernel/src/runtime/ringbuf.c\<close>: a buffer whose area has a power of two as its
  length and whose \<open>b_start\<close> and \<open>b_end\<close> run freely modulo \<open>2 ^ 64\<close>, their low bits being the
  positions in the area. It keeps the contract of a first-in first-out store, also when
  the counters wrap around.
\<close>

section \<open>Operations\<close>

definition ring_pos :: "buffer \<Rightarrow> u64 \<Rightarrow> nat" where
  "ring_pos b off = unat (off AND (b_length b - 1))"

definition ringbuf_write_at :: "buffer \<Rightarrow> u64 \<Rightarrow> u8 list \<Rightarrow> buffer option" where
  "ringbuf_write_at b dest_offset src =
     (let dest = ring_pos b dest_offset;
          avail = min (length src) (unat (b_length b) - dest)
      in do {
        c1 \<leftarrow> poke (b_contents b) dest (take avail src);
        c2 \<leftarrow> (if avail < length src then poke c1 0 (drop avail src) else Some c1);
        Some (b\<lparr>b_contents := c2\<rparr>) })"

text \<open>\<open>Some None\<close> is the result \<^verbatim>\<open>false\<close>.\<close>

definition ringbuf_peek :: "buffer \<Rightarrow> u64 \<Rightarrow> u8 list option option" where
  "ringbuf_peek b len =
     (if buffer_length b < len then Some None
      else
        let start = ring_pos b (b_start b);
            avail = min (unat len) (unat (b_length b) - start)
        in do {
          d1 \<leftarrow> peek (b_contents b) start avail;
          d2 \<leftarrow> (if avail < unat len then peek (b_contents b) 0 (unat len - avail) else Some []);
          Some (Some (d1 @ d2)) })"

definition ringbuf_produce :: "buffer \<Rightarrow> u64 \<Rightarrow> buffer" where
  "ringbuf_produce b len = b\<lparr>b_end := b_end b + len\<rparr>"

definition ringbuf_consume :: "buffer \<Rightarrow> u64 \<Rightarrow> buffer" where
  "ringbuf_consume b len = b\<lparr>b_start := b_start b + len\<rparr>"

definition ringbuf_unconsume :: "buffer \<Rightarrow> u64 \<Rightarrow> buffer" where
  "ringbuf_unconsume b len = b\<lparr>b_start := b_start b - len\<rparr>"

definition ringbuf_space :: "buffer \<Rightarrow> u64" where
  "ringbuf_space b = b_length b - buffer_length b"

definition ringbuf_read :: "buffer \<Rightarrow> u64 \<Rightarrow> (u8 list \<times> buffer) option option" where
  "ringbuf_read b len =
     do { r \<leftarrow> ringbuf_peek b len;
          case r of
            None \<Rightarrow> Some None
          | Some dest \<Rightarrow> Some (Some (dest, ringbuf_consume b len)) }"

definition ringbuf_set_capacity :: "buffer \<Rightarrow> u64 \<Rightarrow> (u64 \<times> buffer) option" where
  "ringbuf_set_capacity b len0 =
     (let len1 = (if len0 < buffer_length b then buffer_length b else len0);
          len = U64_FROM_BIT (find_order len1)
      in if len \<noteq> b_length b then
           (case b_h b len of
              None \<Rightarrow> Some (b_length b, b)
            | Some new \<Rightarrow> do {
                r \<leftarrow> ringbuf_peek b (buffer_length b);
                new' \<leftarrow> (case r of None \<Rightarrow> Some new | Some d \<Rightarrow> poke new 0 d);
                Some (len, b\<lparr>b_length := len, b_end := b_end b - b_start b, b_start := 0, b_contents := new'\<rparr>) })
         else Some (len, b))"

definition ringbuf_extend :: "buffer \<Rightarrow> u64 \<Rightarrow> (bool \<times> buffer) option" where
  "ringbuf_extend b len =
     (if ringbuf_space b < len then
        let new_len = (if len \<le> b_length b then 2 * b_length b else U64_FROM_BIT (find_order len + 1)) in
        do { (cap, b') \<leftarrow> ringbuf_set_capacity b new_len; Some (cap = new_len, b') }
      else Some (True, b))"

definition ringbuf_write :: "buffer \<Rightarrow> u8 list \<Rightarrow> (bool \<times> buffer) option" where
  "ringbuf_write b src =
     (let len = of_nat (length src) in
      do { (ok, b') \<leftarrow> ringbuf_extend b len;
           if \<not> ok then Some (False, b')
           else do {
             b'' \<leftarrow> ringbuf_write_at b' (b_end b') src;
             Some (True, ringbuf_produce b'' len) } })"

definition ringbuf_memset :: "buffer \<Rightarrow> u8 \<Rightarrow> u64 \<Rightarrow> (bool \<times> buffer) option" where
  "ringbuf_memset b c len =
     do { (ok, b') \<leftarrow> ringbuf_extend b len;
          if \<not> ok then Some (False, b')
          else
            let end_pos = ring_pos b' (b_end b');
                avail = min (unat len) (unat (b_length b') - end_pos)
            in do {
              c1 \<leftarrow> poke (b_contents b') end_pos (replicate avail c);
              c2 \<leftarrow> (if avail < unat len then poke c1 0 (replicate (unat len - avail) c) else Some c1);
              Some (True, ringbuf_produce (b'\<lparr>b_contents := c2\<rparr>) len) } }"

definition ringbuf_overwrite :: "buffer \<Rightarrow> u64 \<Rightarrow> u8 list \<Rightarrow> buffer option" where
  "ringbuf_overwrite b offset src = ringbuf_write_at b (b_start b + offset) src"

definition allocate_ringbuf :: "heap \<Rightarrow> u64 \<Rightarrow> buffer option" where
  "allocate_ringbuf h len = allocate_buffer h (U64_FROM_BIT (find_order len))"

section \<open>Reading and writing around the end of the area\<close>

definition ring_get :: "'a list \<Rightarrow> nat \<Rightarrow> nat \<Rightarrow> 'a list" where
  "ring_get xs d n = map (\<lambda>i. xs ! ((d + i) mod length xs)) [0..<n]"

lemma length_ring_get [simp]: "length (ring_get xs d n) = n"
  by (simp add: ring_get_def)

lemma ring_get_mod: "ring_get xs (d mod length xs) n = ring_get xs d n"
  by (simp add: ring_get_def mod_add_left_eq)

lemma nth_ring_get: "i < n \<Longrightarrow> ring_get xs d n ! i = xs ! ((d + i) mod length xs)"
  by (simp add: ring_get_def)

lemma ring_get_append: "ring_get xs d (m + n) = ring_get xs d m @ ring_get xs (d + m) n"
proof (rule nth_equalityI)
  fix i assume i: "i < length (ring_get xs d (m + n))"
  show "ring_get xs d (m + n) ! i = (ring_get xs d m @ ring_get xs (d + m) n) ! i"
  proof (cases "i < m")
    case True
    then show ?thesis using i by (simp add: nth_append nth_ring_get)
  next
    case False
    then have "d + m + (i - m) = d + i" by simp
    then show ?thesis using i False by (simp add: nth_append nth_ring_get)
  qed
qed simp

lemma ring_get_straight: "d + n \<le> length xs \<Longrightarrow> ring_get xs d n = take n (drop d xs)"
  by (rule nth_equalityI) (simp_all add: ring_get_def)

lemma mod_distinct:
  assumes "(a :: nat) mod l = b mod l" "a \<le> b" "b < a + l"
  shows "a = b"
proof -
  have "l dvd b - a" using assms(1,2) by (metis mod_eq_dvd_iff_nat)
  then show ?thesis using assms(2,3) by (metis add.commute dvd_imp_le less_diff_conv2 not_less zero_less_diff le_neq_implies_less)
qed

definition ring_put :: "'a list \<Rightarrow> nat \<Rightarrow> 'a list \<Rightarrow> 'a list \<Rightarrow> bool" where
  "ring_put xs d src ys \<longleftrightarrow>
     length ys = length xs \<and>
     (\<forall>k < length src. ys ! ((d + k) mod length xs) = src ! k) \<and>
     (\<forall>j < length xs. (\<forall>k < length src. (d + k) mod length xs \<noteq> j) \<longrightarrow> ys ! j = xs ! j)"

lemma ring_put_cong: "a mod length xs = b mod length xs \<Longrightarrow> ring_put xs a src ys \<longleftrightarrow> ring_put xs b src ys"
proof -
  assume eq: "a mod length xs = b mod length xs"
  have "(a + k) mod length xs = (b + k) mod length xs" for k using eq by (intro mod_add_cong) simp_all
  then show ?thesis by (simp add: ring_put_def)
qed

lemma ring_put_get:
  assumes "ring_put xs d src ys"
  shows "ring_get ys d (length src) = src"
  using assms by (intro nth_equalityI) (auto simp: ring_get_def ring_put_def)

lemma ring_put_before:
  assumes put: "ring_put xs (s + n) src ys" and fits: "n + length src \<le> length xs"
  shows "ring_get ys s n = ring_get xs s n"
proof (rule nth_equalityI)
  fix i assume "i < length (ring_get ys s n)"
  then have i: "i < n" by simp
  have "(s + n + k) mod length xs \<noteq> (s + i) mod length xs" if "k < length src" for k
    using mod_distinct [of "s + i" "length xs" "s + n + k"] i that fits by auto
  moreover have "(s + i) mod length xs < length xs" using i fits by (intro mod_less_divisor) linarith
  ultimately have "ys ! ((s + i) mod length xs) = xs ! ((s + i) mod length xs)" using put by (auto simp: ring_put_def)
  then show "ring_get ys s n ! i = ring_get xs s n ! i" using i put by (simp add: ring_get_def ring_put_def)
qed simp

lemma ring_put_after:
  assumes put: "ring_put xs d src ys" and fits: "length src + n \<le> length xs"
  shows "ring_get ys (d + length src) n = ring_get xs (d + length src) n"
proof (rule nth_equalityI)
  fix i assume "i < length (ring_get ys (d + length src) n)"
  then have i: "i < n" by simp
  have "(d + k) mod length xs \<noteq> (d + length src + i) mod length xs" if "k < length src" for k
    using mod_distinct [of "d + k" "length xs" "d + length src + i"] i that fits by auto
  moreover have "(d + length src + i) mod length xs < length xs" using i fits by (intro mod_less_divisor) linarith
  ultimately have "ys ! ((d + length src + i) mod length xs) = xs ! ((d + length src + i) mod length xs)"
    using put by (auto simp: ring_put_def)
  then show "ring_get ys (d + length src) n ! i = ring_get xs (d + length src) n ! i"
    using i put by (simp add: ring_get_def ring_put_def)
qed simp

text \<open>The two block copies of the code.\<close>

lemma two_pokes:
  assumes p: "p < length xs" and len: "length src \<le> length xs" and avail: "avail = min (length src) (length xs - p)"
  shows "\<exists>c1 ys. poke xs p (take avail src) = Some c1 \<and>
    (if avail < length src then poke c1 0 (drop avail src) else Some c1) = Some ys \<and> ring_put xs p src ys"
proof -
  have a: "p + avail \<le> length xs" "length (take avail src) = avail" using p avail by auto
  define c1 where "c1 = take p xs @ take avail src @ drop (p + avail) xs"
  have c1: "poke xs p (take avail src) = Some c1" "length c1 = length xs" using a by (simp_all add: poke_def c1_def)
  have n1: "c1 ! j = (if p \<le> j \<and> j < p + avail then src ! (j - p) else xs ! j)" if "j < length xs" for j
    using that a avail by (auto simp: nth_append c1_def)
  show ?thesis
  proof (cases "avail < length src")
    case False
    then have all: "avail = length src" "p + length src \<le> length xs" using avail a by auto
    have "ring_put xs p src c1" unfolding ring_put_def
    proof (intro conjI allI impI)
      fix k assume "k < length src"
      then show "c1 ! ((p + k) mod length xs) = src ! k" using n1 [of "p + k"] all by simp
    next
      fix j assume j: "j < length xs" "\<forall>k < length src. (p + k) mod length xs \<noteq> j"
      have "\<not> (p \<le> j \<and> j < p + avail)"
      proof
        assume "p \<le> j \<and> j < p + avail"
        then have "j - p < length src" "(p + (j - p)) mod length xs = j" using all j(1) by auto
        then show False using j(2) by blast
      qed
      then show "c1 ! j = xs ! j" using n1 [OF j(1)] by auto
    qed (rule c1)
    then show ?thesis using c1 False by simp
  next
    case True
    then have wrap: "avail = length xs - p" "p + avail = length xs" using avail a by auto
    define ys where "ys = drop avail src @ drop (length src - avail) c1"
    have fit: "length src - avail \<le> p" using len wrap by simp
    have c2: "poke c1 0 (drop avail src) = Some ys" using c1(2) len True by (simp add: poke_def ys_def)
    have len2: "length ys = length xs" using c1(2) True len by (simp add: ys_def)
    have n2: "ys ! j = (if j < length src - avail then src ! (avail + j) else c1 ! j)" if "j < length xs" for j
      using that True len c1(2) by (auto simp: nth_append ys_def)
    have "ring_put xs p src ys" unfolding ring_put_def
    proof (intro conjI allI impI)
      fix k assume k: "k < length src"
      show "ys ! ((p + k) mod length xs) = src ! k"
      proof (cases "k < avail")
        case True
        then have "(p + k) mod length xs = p + k" using wrap by simp
        then show ?thesis using n2 [of "p + k"] n1 [of "p + k"] True wrap fit by simp
      next
        case False
        then have "p + k = (k - avail) + length xs" "k - avail < length xs" using wrap k len by auto
        then have "(p + k) mod length xs = k - avail" by simp
        moreover have "k - avail < length src - avail" "avail + (k - avail) = k" "k - avail < length xs"
          using False k len by auto
        ultimately show ?thesis using n2 [of "k - avail"] by simp
      qed
    next
      fix j assume j: "j < length xs" "\<forall>k < length src. (p + k) mod length xs \<noteq> j"
      have "\<not> j < length src - avail"
      proof
        assume "j < length src - avail"
        moreover have "(p + (avail + j)) mod length xs = j" using wrap j(1) by (simp add: add.assoc [symmetric])
        ultimately show False using j(2) by auto
      qed
      moreover have "\<not> (p \<le> j \<and> j < p + avail)"
      proof
        assume "p \<le> j \<and> j < p + avail"
        then have "j - p < length src" "(p + (j - p)) mod length xs = j" using True j(1) by auto
        then show False using j(2) by blast
      qed
      ultimately show "ys ! j = xs ! j" using n2 [OF j(1)] n1 [OF j(1)] by auto
    qed (rule len2)
    then show ?thesis using c1(1) c2 True by simp
  qed
qed

section \<open>Invariant and abstract value\<close>

definition wf_ring :: "buffer \<Rightarrow> bool" where
  "wf_ring b \<longleftrightarrow>
     (\<exists>n < 64. unat (b_length b) = 2 ^ n) \<and> unat (b_length b) = length (b_contents b) \<and>
     buffer_length b \<le> b_length b \<and> heap_ok (b_h b)"

definition ring_bytes :: "buffer \<Rightarrow> u8 list" where
  "ring_bytes b = ring_get (b_contents b) (unat (b_start b)) (unat (buffer_length b))"

lemma length_ring_bytes [simp]: "length (ring_bytes b) = unat (buffer_length b)"
  by (simp add: ring_bytes_def)

lemma wf_ringD:
  assumes "wf_ring b"
  obtains n where "n < 64" "length (b_contents b) = 2 ^ n" "unat (b_length b) = length (b_contents b)"
    "unat (buffer_length b) \<le> length (b_contents b)" "0 < length (b_contents b)"
  using assms unfolding wf_ring_def by (auto simp: word_le_nat_alt)

lemma unat_add_mod_2p:
  assumes "n < 64"
  shows "unat (x + y :: u64) mod 2 ^ n = (unat x + unat y) mod 2 ^ n"
proof -
  have "(2 :: nat) ^ n dvd 2 ^ 64" using assms by (intro le_imp_power_dvd) simp
  then show ?thesis by (simp add: unat_word_ariths mod_mod_cancel)
qed

lemma ring_pos_mod: "wf_ring b \<Longrightarrow> ring_pos b off = unat off mod length (b_contents b)"
proof -
  assume "wf_ring b"
  then obtain n where n: "n < 64" "length (b_contents b) = 2 ^ n" "unat (b_length b) = length (b_contents b)"
    by (elim wf_ringD)
  then show ?thesis using unat_mask_and [OF n(1), of "b_length b" off] by (simp add: ring_pos_def)
qed

lemma ring_get_add:
  assumes "wf_ring b"
  shows "ring_get (b_contents b) (unat (x + y :: u64)) n = ring_get (b_contents b) (unat x + unat y) n"
proof -
  obtain k where "k < 64" "length (b_contents b) = 2 ^ k" using assms by (elim wf_ringD)
  then have "unat (x + y) mod length (b_contents b) = (unat x + unat y) mod length (b_contents b)"
    using unat_add_mod_2p by simp
  then show ?thesis by (metis ring_get_mod)
qed

lemma take_ring_get: "n \<le> m \<Longrightarrow> take n (ring_get xs d m) = ring_get xs d n"
  by (rule nth_equalityI) (simp_all add: nth_ring_get)

lemma drop_ring_get: "n \<le> m \<Longrightarrow> drop n (ring_get xs d m) = ring_get xs (d + n) (m - n)"
  by (rule nth_equalityI) (simp_all add: nth_ring_get add.assoc)

lemma ring_get_chunks:
  assumes "p < length xs" "n \<le> length xs" "avail = min n (length xs - p)"
  shows "ring_get xs p n = take avail (drop p xs) @ take (n - avail) xs"
proof -
  have a: "p + avail \<le> length xs" "avail \<le> n" using assms by auto
  have "ring_get xs p n = ring_get xs p avail @ ring_get xs (p + avail) (n - avail)"
    using ring_get_append [of xs p avail "n - avail"] a by simp
  moreover have "ring_get xs (p + avail) (n - avail) = take (n - avail) xs"
  proof (cases "avail < n")
    case True
    then have "(p + avail) mod length xs = 0" using assms by auto
    then have "ring_get xs (p + avail) (n - avail) = ring_get xs 0 (n - avail)" by (metis ring_get_mod)
    then show ?thesis using ring_get_straight [of 0 "n - avail" xs] assms by simp
  qed (simp add: ring_get_def)
  ultimately show ?thesis using ring_get_straight [OF a(1)] by simp
qed

section \<open>Correctness\<close>

lemma ringbuf_peek_correct:
  assumes wf: "wf_ring b" and n: "unat len = n"
  shows "ringbuf_peek b len = Some (if length (ring_bytes b) < n then None else Some (take n (ring_bytes b)))"
proof (cases "buffer_length b < len")
  case True
  then show ?thesis using n by (simp add: ringbuf_peek_def word_less_nat_alt)
next
  case False
  obtain k where k: "k < 64" "length (b_contents b) = 2 ^ k" "unat (b_length b) = length (b_contents b)"
      "unat (buffer_length b) \<le> length (b_contents b)" "0 < length (b_contents b)"
    using wf by (elim wf_ringD)
  let ?xs = "b_contents b" and ?p = "unat (b_start b) mod length (b_contents b)"
  define avail where "avail = min n (length ?xs - ?p)"
  have p: "?p < length ?xs" using k(5) by simp
  have nl: "n \<le> length ?xs" "n \<le> unat (buffer_length b)" using False n k(4) by (simp_all add: word_less_nat_alt)
  have "take n (ring_bytes b) = ring_get ?xs ?p n"
    using take_ring_get [OF nl(2)] by (simp add: ring_bytes_def ring_get_mod)
  also have "\<dots> = take avail (drop ?p ?xs) @ take (n - avail) ?xs" using ring_get_chunks [OF p nl(1)] avail_def by simp
  finally have eq: "take n (ring_bytes b) = take avail (drop ?p ?xs) @ take (n - avail) ?xs" .
  have "peek ?xs ?p avail = Some (take avail (drop ?p ?xs))" using p avail_def by (simp add: peek_def)
  moreover have "(if avail < n then peek ?xs 0 (n - avail) else Some []) = Some (take (n - avail) ?xs)"
    using nl(1) by (auto simp: peek_def)
  moreover have "\<not> length (ring_bytes b) < n" using nl(2) by simp
  ultimately show ?thesis using False eq
    unfolding ringbuf_peek_def Let_def ring_pos_mod [OF wf] k(3) n avail_def [symmetric] by simp
qed

lemma ringbuf_consume_correct:
  assumes wf: "wf_ring b" and n: "unat len \<le> length (ring_bytes b)"
  shows "wf_ring (ringbuf_consume b len)" "ring_bytes (ringbuf_consume b len) = drop (unat len) (ring_bytes b)"
proof -
  have "buffer_length (ringbuf_consume b len) = buffer_length b - len"
    by (simp add: buffer_length_def ringbuf_consume_def)
  then have l: "unat (buffer_length (ringbuf_consume b len)) = unat (buffer_length b) - unat len"
    using n by (simp add: unat_sub word_le_nat_alt)
  then show "wf_ring (ringbuf_consume b len)" using wf by (auto simp: wf_ring_def word_le_nat_alt ringbuf_consume_def)
  have "ring_bytes (ringbuf_consume b len) = ring_get (b_contents b) (unat (b_start b + len)) (unat (buffer_length b) - unat len)"
    unfolding ring_bytes_def l by (simp add: ringbuf_consume_def)
  also have "\<dots> = ring_get (b_contents b) (unat (b_start b) + unat len) (unat (buffer_length b) - unat len)"
    by (rule ring_get_add [OF wf])
  also have "\<dots> = drop (unat len) (ring_bytes b)" using n by (simp add: ring_bytes_def drop_ring_get)
  finally show "ring_bytes (ringbuf_consume b len) = drop (unat len) (ring_bytes b)" .
qed

lemma ringbuf_read_correct:
  assumes "wf_ring b" "unat len = n"
  shows "if length (ring_bytes b) < n then ringbuf_read b len = Some None
    else \<exists>b'. ringbuf_read b len = Some (Some (take n (ring_bytes b), b')) \<and> wf_ring b' \<and> ring_bytes b' = drop n (ring_bytes b)"
  using ringbuf_peek_correct [OF assms] ringbuf_consume_correct [OF assms(1), of len] assms(2)
  by (auto simp: ringbuf_read_def)

text \<open>The sizes at which the doubling of the capacity does not wrap.\<close>

definition ring_fits :: "buffer \<Rightarrow> nat \<Rightarrow> bool" where
  "ring_fits b n \<longleftrightarrow> length (b_contents b) + n < 2 ^ 62"

lemma ring_set_capacity:
  assumes wf: "wf_ring b" and len: "len = U64_FROM_BIT k" "k < 64" "unat (buffer_length b) \<le> 2 ^ k" "len \<noteq> b_length b"
  shows "\<exists>b'. ringbuf_set_capacity b len = Some (if b_h b len = None then b_length b else len, b') \<and>
    (if b_h b len = None then b' = b
     else wf_ring b' \<and> ring_bytes b' = ring_bytes b \<and> b_length b' = len \<and> buffer_length b' = buffer_length b)"
proof -
  have ul: "unat len = 2 ^ k" using len by (simp add: unat_U64_FROM_BIT)
  have le: "\<not> len < buffer_length b" using ul len(3) by (simp add: word_less_nat_alt)
  have ord: "find_order len = k"
  proof (rule antisym)
    show "find_order len \<le> k" using find_order_small [of len k] ul by simp
    have "(2 :: nat) ^ k \<le> 2 ^ find_order len" using find_order_ge [of len] ul by simp
    then show "k \<le> find_order len" by simp
  qed
  show ?thesis
  proof (cases "b_h b len")
    case None
    then show ?thesis using le ord len by (simp add: ringbuf_set_capacity_def Let_def)
  next
    case (Some new)
    have hok: "heap_ok (b_h b)" using wf by (simp add: wf_ring_def)
    then have new: "length new = 2 ^ k" using Some ul by (simp add: heap_ok_def)
    have pk: "ringbuf_peek b (buffer_length b) = Some (Some (ring_bytes b))"
      using ringbuf_peek_correct [OF wf refl, of "buffer_length b"] by simp
    let ?c = "ring_bytes b @ drop (length (ring_bytes b)) new"
    have poke: "poke new 0 (ring_bytes b) = Some ?c" using new len(3) by (simp add: poke_def)
    let ?b = "b\<lparr>b_length := len, b_end := b_end b - b_start b, b_start := 0, b_contents := ?c\<rparr>"
    have bl: "buffer_length ?b = buffer_length b" by (simp add: buffer_length_def)
    have lc: "length ?c = 2 ^ k" using new len(3) by simp
    have "wf_ring ?b" using hok lc ul len(2,3) bl by (auto simp: wf_ring_def word_le_nat_alt)
    moreover have "ring_bytes ?b = ring_bytes b"
      unfolding ring_bytes_def [of ?b] bl using ring_get_straight [of 0 "unat (buffer_length b)" ?c] lc len(3) by simp
    moreover have "ringbuf_set_capacity b len = Some (len, ?b)"
      using le ord len(1,4) Some pk poke by (simp add: ringbuf_set_capacity_def Let_def)
    ultimately show ?thesis using Some bl by auto
  qed
qed

text \<open>When \<^verbatim>\<open>ringbuf_extend\<close> succeeds.\<close>

definition ring_new_len :: "buffer \<Rightarrow> nat \<Rightarrow> u64" where
  "ring_new_len b n = (if of_nat n \<le> b_length b then 2 * b_length b else U64_FROM_BIT (find_order (of_nat n) + 1))"

definition ring_room :: "buffer \<Rightarrow> nat \<Rightarrow> bool" where
  "ring_room b n \<longleftrightarrow> length (ring_bytes b) + n \<le> length (b_contents b) \<or> b_h b (ring_new_len b n) \<noteq> None"

lemma ring_new_len:
  assumes wf: "wf_ring b" and fits: "ring_fits b n"
  obtains k where "ring_new_len b n = U64_FROM_BIT k" "k < 64" "unat (ring_new_len b n) = 2 ^ k"
    "length (b_contents b) + n \<le> 2 ^ k" "length (b_contents b) < 2 ^ k"
proof -
  obtain j where j: "j < 64" "length (b_contents b) = 2 ^ j" "unat (b_length b) = length (b_contents b)"
    using wf by (elim wf_ringD)
  have small: "(2 :: nat) ^ j < 2 ^ 62" "n < 2 ^ 62" using fits j(2) by (simp_all add: ring_fits_def)
  then have j62: "j < 62" using power_less_imp_less_exp [of "2 :: nat" j 62] by simp
  have un: "unat (of_nat n :: u64) = n" using small(2) by (intro unat_of_nat_u64) simp
  show ?thesis
  proof (cases "of_nat n \<le> b_length b")
    case True
    have "b_length b = U64_FROM_BIT j" using j by (simp add: word_unat_eq_iff unat_U64_FROM_BIT)
    then have "ring_new_len b n = U64_FROM_BIT (Suc j)"
      using True by (simp add: ring_new_len_def U64_FROM_BIT_def push_bit_eq_mult)
    moreover have "n \<le> 2 ^ j" using True un j(2,3) by (simp add: word_le_nat_alt)
    ultimately show ?thesis using that [of "Suc j"] j62 j(2) by (simp add: unat_U64_FROM_BIT)
  next
    case False
    let ?k = "find_order (of_nat n :: u64) + 1"
    have "n \<le> 2 ^ find_order (of_nat n :: u64)" using find_order_ge [of "of_nat n"] un by simp
    moreover have "find_order (of_nat n :: u64) \<le> 62" using find_order_small [of "of_nat n" 62] un small(2) by simp
    moreover have "2 ^ j < n" using False un j by (simp add: word_le_nat_alt)
    ultimately show ?thesis using that [of ?k] False j(2) by (simp add: ring_new_len_def unat_U64_FROM_BIT)
  qed
qed

lemma ringbuf_extend_correct:
  assumes wf: "wf_ring b" and fits: "ring_fits b n"
  shows "\<exists>b'. ringbuf_extend b (of_nat n) = Some (ring_room b n, b') \<and> wf_ring b' \<and> ring_bytes b' = ring_bytes b \<and>
    (ring_room b n \<longrightarrow> length (ring_bytes b) + n \<le> length (b_contents b'))"
proof -
  obtain j where j: "unat (b_length b) = length (b_contents b)" "unat (buffer_length b) \<le> length (b_contents b)"
    using wf by (elim wf_ringD)
  have un: "unat (of_nat n :: u64) = n" using fits by (intro unat_of_nat_u64) (simp add: ring_fits_def)
  have "buffer_length b \<le> b_length b" using wf by (simp add: wf_ring_def)
  then have sp: "ringbuf_space b < of_nat n \<longleftrightarrow> \<not> length (ring_bytes b) + n \<le> length (b_contents b)"
    using un j by (auto simp: ringbuf_space_def word_less_nat_alt unat_sub)
  show ?thesis
  proof (cases "ringbuf_space b < of_nat n")
    case False
    then show ?thesis using sp wf by (auto simp: ringbuf_extend_def ring_room_def)
  next
    case True
    obtain k where k: "ring_new_len b n = U64_FROM_BIT k" "k < 64" "unat (ring_new_len b n) = 2 ^ k"
        "length (b_contents b) + n \<le> 2 ^ k" "length (b_contents b) < 2 ^ k"
      using ring_new_len [OF wf fits] by blast
    have ne: "ring_new_len b n \<noteq> b_length b" using k(3,5) j(1) by (metis less_irrefl)
    have room: "ring_room b n \<longleftrightarrow> b_h b (ring_new_len b n) \<noteq> None" using True sp by (simp add: ring_room_def)
    have used: "unat (buffer_length b) \<le> 2 ^ k" using j(2) k(5) by simp
    obtain b' where b': "ringbuf_set_capacity b (ring_new_len b n) =
          Some (if b_h b (ring_new_len b n) = None then b_length b else ring_new_len b n, b')"
        "if b_h b (ring_new_len b n) = None then b' = b
         else wf_ring b' \<and> ring_bytes b' = ring_bytes b \<and> b_length b' = ring_new_len b n \<and> buffer_length b' = buffer_length b"
      using ring_set_capacity [OF wf k(1,2) used ne] by blast
    have ext: "ringbuf_extend b (of_nat n) = do { (cap, b') \<leftarrow> ringbuf_set_capacity b (ring_new_len b n); Some (cap = ring_new_len b n, b') }"
      using True by (simp add: ringbuf_extend_def ring_new_len_def Let_def)
    show ?thesis
    proof (cases "b_h b (ring_new_len b n) = None")
      case True
      then show ?thesis using b' ext room ne wf by auto
    next
      case False
      then have "length (b_contents b') = 2 ^ k" using b'(2) k(3) by (auto simp: wf_ring_def)
      then show ?thesis using False b' ext room k(4) j(2) by auto
    qed
  qed
qed

lemma ringbuf_write_at_correct:
  assumes wf: "wf_ring b" and len: "length src \<le> length (b_contents b)"
  shows "\<exists>c. ringbuf_write_at b off src = Some (b\<lparr>b_contents := c\<rparr>) \<and> ring_put (b_contents b) (unat off) src c"
proof -
  obtain j where j: "unat (b_length b) = length (b_contents b)" "0 < length (b_contents b)" using wf by (elim wf_ringD)
  let ?xs = "b_contents b" and ?p = "unat off mod length (b_contents b)"
  define avail where "avail = min (length src) (length ?xs - ?p)"
  have p: "?p < length ?xs" using j(2) by simp
  obtain c1 c where c: "poke ?xs ?p (take avail src) = Some c1"
      "(if avail < length src then poke c1 0 (drop avail src) else Some c1) = Some c" "ring_put ?xs ?p src c"
    using two_pokes [OF p len avail_def] by blast
  have "ring_put ?xs (unat off) src c" using c(3) by (simp add: ring_put_def mod_add_left_eq)
  moreover have "ringbuf_write_at b off src = Some (b\<lparr>b_contents := c\<rparr>)" using c(1,2)
    unfolding ringbuf_write_at_def Let_def ring_pos_mod [OF wf] j(1) avail_def [symmetric] by simp
  ultimately show ?thesis by blast
qed

lemma ring_produce_put:
  assumes wf: "wf_ring b" and put: "ring_put (b_contents b) (unat (b_end b)) src c"
    and len: "length (ring_bytes b) + length src \<le> length (b_contents b)"
  shows "wf_ring (ringbuf_produce (b\<lparr>b_contents := c\<rparr>) (of_nat (length src)))"
    "ring_bytes (ringbuf_produce (b\<lparr>b_contents := c\<rparr>) (of_nat (length src))) = ring_bytes b @ src"
proof -
  obtain j where j: "j < 64" "length (b_contents b) = 2 ^ j" "unat (b_length b) = length (b_contents b)" using wf by (elim wf_ringD)
  let ?b = "ringbuf_produce (b\<lparr>b_contents := c\<rparr>) (of_nat (length src))"
  have "unat (b_length b) < 2 ^ 64" by (rule unat_u64_less)
  then have lt: "length (b_contents b) < 2 ^ 64" using j(3) by simp
  have un: "unat (of_nat (length src) :: u64) = length src" using lt len by (intro unat_of_nat_u64) simp
  have "buffer_length ?b = buffer_length b + of_nat (length src)" by (simp add: buffer_length_def ringbuf_produce_def)
  then have bl: "unat (buffer_length ?b) = unat (buffer_length b) + length src"
    using unat_add_u64 [of "buffer_length b" "of_nat (length src)"] un len lt by simp
  have lc: "length c = length (b_contents b)" using put by (simp add: ring_put_def)
  show wf': "wf_ring ?b" using wf bl lc len j by (auto simp: wf_ring_def word_le_nat_alt) (simp_all add: ringbuf_produce_def)
  have e: "b_end b = b_start b + buffer_length b" by (simp add: buffer_length_def)
  have "unat (b_end b) mod length (b_contents b) = (unat (b_start b) + unat (buffer_length b)) mod length (b_contents b)"
    unfolding e j(2) by (rule unat_add_mod_2p [OF j(1)])
  then have put': "ring_put (b_contents b) (unat (b_start b) + unat (buffer_length b)) src c"
    using put ring_put_cong by blast
  have "ring_bytes ?b = ring_get c (unat (b_start b)) (unat (buffer_length b) + length src)"
    unfolding ring_bytes_def bl by (simp add: ringbuf_produce_def)
  also have "\<dots> = ring_bytes b @ src"
    using ring_put_before [OF put'] ring_put_get [OF put'] len by (simp add: ring_get_append ring_bytes_def)
  finally show "ring_bytes ?b = ring_bytes b @ src" .
qed

lemma ringbuf_write_correct:
  assumes wf: "wf_ring b" and fits: "ring_fits b (length src)"
  shows "\<exists>b'. ringbuf_write b src = Some (ring_room b (length src), b') \<and> wf_ring b' \<and>
    ring_bytes b' = (if ring_room b (length src) then ring_bytes b @ src else ring_bytes b)"
proof -
  obtain b1 where b1: "ringbuf_extend b (of_nat (length src)) = Some (ring_room b (length src), b1)" "wf_ring b1"
      "ring_bytes b1 = ring_bytes b" "ring_room b (length src) \<longrightarrow> length (ring_bytes b) + length src \<le> length (b_contents b1)"
    using ringbuf_extend_correct [OF wf fits] by blast
  show ?thesis
  proof (cases "ring_room b (length src)")
    case True
    then have len: "length (ring_bytes b1) + length src \<le> length (b_contents b1)" using b1(3,4) by simp
    obtain c where "ringbuf_write_at b1 (b_end b1) src = Some (b1\<lparr>b_contents := c\<rparr>)"
        "ring_put (b_contents b1) (unat (b_end b1)) src c"
      using ringbuf_write_at_correct [OF b1(2), of src "b_end b1"] len by auto
    then show ?thesis using ring_produce_put [OF b1(2) _ len] True b1(1,3) by (simp add: ringbuf_write_def Let_def)
  next
    case False
    then show ?thesis using b1 by (simp add: ringbuf_write_def Let_def)
  qed
qed

lemma ringbuf_memset_write:
  assumes wf: "wf_ring b" and fits: "ring_fits b n"
  shows "ringbuf_memset b c (of_nat n) = ringbuf_write b (replicate n c)"
proof -
  have "length (replicate n c) = n" by simp
  moreover have "unat (of_nat n :: u64) = n" using fits by (intro unat_of_nat_u64) (simp add: ring_fits_def)
  ultimately show ?thesis
    by (auto simp: ringbuf_memset_def ringbuf_write_def ringbuf_write_at_def Let_def min_def split: Option.bind_splits)
qed

lemma ringbuf_overwrite_correct:
  assumes wf: "wf_ring b" and off: "unat off + length src \<le> length (ring_bytes b)"
  shows "\<exists>b'. ringbuf_overwrite b off src = Some b' \<and> wf_ring b' \<and>
    ring_bytes b' = take (unat off) (ring_bytes b) @ src @ drop (unat off + length src) (ring_bytes b)"
proof -
  obtain j where j: "j < 64" "length (b_contents b) = 2 ^ j" "unat (buffer_length b) \<le> length (b_contents b)"
    using wf by (elim wf_ringD)
  let ?s = "unat (b_start b)" and ?o = "unat off" and ?n = "unat (buffer_length b)"
  obtain c where c: "ringbuf_write_at b (b_start b + off) src = Some (b\<lparr>b_contents := c\<rparr>)"
      "ring_put (b_contents b) (unat (b_start b + off)) src c"
    using ringbuf_write_at_correct [OF wf, of src "b_start b + off"] off j by auto
  have put: "ring_put (b_contents b) (?s + ?o) src c"
    using c(2) ring_put_cong [of "unat (b_start b + off)" "b_contents b" "?s + ?o"] unat_add_mod_2p [OF j(1), of "b_start b" off] j(2) by simp
  have lc: "length c = length (b_contents b)" using put by (simp add: ring_put_def)
  let ?b = "b\<lparr>b_contents := c\<rparr>"
  have bl: "buffer_length ?b = buffer_length b" by (simp add: buffer_length_def)
  have "wf_ring ?b" using wf lc bl by (auto simp: wf_ring_def)
  moreover have "ring_bytes ?b = take ?o (ring_bytes b) @ src @ drop (?o + length src) (ring_bytes b)"
  proof -
    let ?r = "?n - (?o + length src)"
    have n: "?n = ?o + (length src + ?r)" using off by simp
    have "ring_bytes ?b = ring_get c ?s (?o + (length src + ?r))" using n by (simp add: ring_bytes_def bl)
    also have "\<dots> = ring_get c ?s ?o @ ring_get c (?s + ?o) (length src) @ ring_get c (?s + ?o + length src) ?r"
      by (simp only: ring_get_append)
    also have "ring_get c ?s ?o = take ?o (ring_bytes b)"
      using ring_put_before [OF put] off j(3) take_ring_get [of ?o ?n "b_contents b" ?s] by (simp add: ring_bytes_def)
    also have "ring_get c (?s + ?o) (length src) = src" by (rule ring_put_get [OF put])
    also have "ring_get c (?s + ?o + length src) ?r = drop (?o + length src) (ring_bytes b)"
      using ring_put_after [OF put, of ?r] n j(3) drop_ring_get [of "?o + length src" ?n "b_contents b" ?s] off
      by (simp add: ring_bytes_def add.assoc)
    finally show ?thesis .
  qed
  ultimately show ?thesis using c(1) by (simp add: ringbuf_overwrite_def)
qed

section \<open>The ring buffer as a first-in first-out store\<close>

definition ringbuf_put :: "buffer \<Rightarrow> u8 list \<Rightarrow> buffer option" where
  "ringbuf_put b src = (case ringbuf_write b src of Some (True, b') \<Rightarrow> Some b' | _ \<Rightarrow> None)"

definition ringbuf_get :: "buffer \<Rightarrow> nat \<Rightarrow> (u8 list \<times> buffer) option" where
  "ringbuf_get b n = (if n < 2 ^ 64 then case ringbuf_read b (of_nat n) of Some r \<Rightarrow> r | None \<Rightarrow> None else None)"

interpretation rq: fifo_store wf_ring ring_bytes ring_fits ringbuf_put ringbuf_get
proof unfold_locales
  fix q q' :: buffer and xs
  assume "wf_ring q" "ring_fits q (length xs)" "ringbuf_put q xs = Some q'"
  then show "wf_ring q' \<and> ring_bytes q' = ring_bytes q @ xs"
    using ringbuf_write_correct [of q xs] by (auto simp: ringbuf_put_def split: if_splits)
next
  fix q :: buffer and n
  assume q: "wf_ring q" "n \<le> length (ring_bytes q)"
  then have "n < 2 ^ 64" using unat_u64_less [of "buffer_length q"] by simp
  then show "\<exists>q'. ringbuf_get q n = Some (take n (ring_bytes q), q') \<and> wf_ring q' \<and> ring_bytes q' = drop n (ring_bytes q)"
    using ringbuf_read_correct [OF q(1), of "of_nat n" n] q(2) by (auto simp: ringbuf_get_def unat_of_nat_u64)
next
  fix q :: buffer and n
  assume "wf_ring q" "length (ring_bytes q) < n"
  then show "ringbuf_get q n = None"
    using ringbuf_read_correct [of q "of_nat n" n] by (simp add: ringbuf_get_def unat_of_nat_u64)
qed

section \<open>The contract of the component\<close>

text \<open>A ring of four bytes whose counters are about to wrap around.\<close>

definition sample_ring :: buffer where
  "sample_ring = \<lparr>b_start = - 2, b_end = 1, b_length = 4, b_wrapped = False, b_h = sample_heap, b_contents = [3, 9, 1, 2]\<rparr>"

lemma sample_ring_wf: "wf_ring sample_ring"
proof -
  have "\<exists>n < 64. (4 :: nat) = 2 ^ n" by (rule exI [of _ 2]) simp
  then show ?thesis
    by (simp add: wf_ring_def sample_ring_def buffer_length_def heap_ok_def sample_heap_def)
qed

lemma sample_ring_bytes: "ring_bytes sample_ring = [1, 2, 3]"
  by (simp add: ring_bytes_def sample_ring_def buffer_length_def ring_get_def upt_rec)

text \<open>
  Property C23. The ring buffer is a first-in first-out store although its counters wrap: reading returns and
  removes the first bytes or reports false, writing appends or reports false, and over every history the
  accepted input is the output followed by what is left.
\<close>

theorem ringbuf_fifo_correct:
  assumes "wf_ring b" "ring_fits b (length src)" "unat len = n" "rq.run b ops = Some (c, accepted, out)"
  shows "(\<exists>b'. ringbuf_write b src = Some (ring_room b (length src), b') \<and> wf_ring b' \<and>
      ring_bytes b' = (if ring_room b (length src) then ring_bytes b @ src else ring_bytes b)) \<and>
    (if length (ring_bytes b) < n then ringbuf_read b len = Some None
     else \<exists>b'. ringbuf_read b len = Some (Some (take n (ring_bytes b), b')) \<and> wf_ring b' \<and>
       ring_bytes b' = drop n (ring_bytes b)) \<and>
    wf_ring c \<and> ring_bytes b @ accepted = out @ ring_bytes c"
  using ringbuf_write_correct [OF assms(1,2)] ringbuf_read_correct [OF assms(1,3)] rq.run_conserves [OF assms(1,4)] by blast

theorem ringbuf_fifo_correct_witness:
  "(\<exists>b'. ringbuf_write sample_ring [7, 8] = Some (True, b') \<and> ring_bytes b' = [1, 2, 3, 7, 8]) \<and>
   (\<exists>b'. ringbuf_read sample_ring 3 = Some (Some ([1, 2, 3], b')) \<and> ring_bytes b' = [])"
proof -
  have room: "ring_room sample_ring (length [7, 8 :: u8])"
    by (simp add: ring_room_def sample_ring_bytes) (simp add: sample_ring_def sample_heap_def)
  have fits: "ring_fits sample_ring (length [7, 8 :: u8])" by (simp add: ring_fits_def sample_ring_def)
  have run: "rq.run sample_ring [] = Some (sample_ring, [], [])" by simp
  show ?thesis
    using ringbuf_fifo_correct [OF sample_ring_wf fits _ run, of 3 3] room by (auto simp: sample_ring_bytes)
qed

end
