(* ===== verification/Queue.thy ===== *)
theory Queue
  imports Buffer_Search Bits
begin

text \<open>
  The queue of words of \<^verbatim>\<open>kernel/src/runtime/queue.h\<close> and \<^verbatim>\<open>queue.c\<close>, for calls that do not
  overlap: the four 32-bit counters wrap around, a unit may span a power of two of words. The
  theory on the interleaving of calls reuses the state.
\<close>

section \<open>Operations\<close>

record queue =
  q_prod_head :: u32
  q_cons_tail :: u32
  q_cons_head :: u32
  q_prod_tail :: u32
  q_d :: "u64 list"
  q_order :: nat

definition queue_size :: "queue \<Rightarrow> u32" where
  "queue_size q = of_nat (2 ^ q_order q)"

definition queue_idx :: "queue \<Rightarrow> u32 \<Rightarrow> nat" where
  "queue_idx q i = unat ((ucast i :: u64) AND MASK (q_order q))"

text \<open>
  Without a concurrent call the compare-and-swap succeeds at once, so both kinds of
  producers advance the head. A producer that finds an earlier enqueue uncommitted waits for ever
  (\<open>None\<close>). The value \<^verbatim>\<open>INVALID_ADDRESS\<close> is refused; \<open>p\<close> is the list of words of the unit.
\<close>

definition enqueue_common :: "queue \<Rightarrow> u64 list \<Rightarrow> bool \<Rightarrow> nat \<Rightarrow> (bool \<times> queue) option" where
  "enqueue_common q p multi n =
     (if n = 1 \<and> p = [- 1] then Some (False, q)
      else do {
        assert_ok (n > 0 \<and> (of_nat n :: u32) AND (of_nat n - 1) = 0);
        let head = q_prod_head q;
        let tail = q_cons_tail q;
        if head - tail = queue_size q then Some (False, q)
        else do {
          assert_ok (head - tail < queue_size q);
          let next = head + of_nat n;
          let q1 = q\<lparr>q_prod_head := next\<rparr>;
          d \<leftarrow> poke (q_d q1) (queue_idx q1 head) p;
          let q2 = q1\<lparr>q_d := d\<rparr>;
          if multi \<and> q_prod_tail q2 \<noteq> head then None
          else Some (True, q2\<lparr>q_prod_tail := next\<rparr>) } })"

text \<open>\<open>None\<close> as the first component is the \<^verbatim>\<open>INVALID_ADDRESS\<close> of an empty queue.\<close>

definition dequeue_common :: "queue \<Rightarrow> bool \<Rightarrow> nat \<Rightarrow> (u64 list option \<times> queue) option" where
  "dequeue_common q multi n =
     do { assert_ok (n > 0 \<and> (of_nat n :: u32) AND (of_nat n - 1) = 0);
          let head = q_cons_head q;
          let tail = q_prod_tail q;
          if head = tail then Some (None, q)
          else do {
            assert_ok (tail - head \<le> queue_size q);
            let next = head + of_nat n;
            let q1 = q\<lparr>q_cons_head := next\<rparr>;
            p \<leftarrow> peek (q_d q1) (queue_idx q1 head) n;
            if multi \<and> q_cons_tail q1 \<noteq> head then None
            else Some (Some p, q1\<lparr>q_cons_tail := next\<rparr>) } }"

definition enqueue :: "queue \<Rightarrow> u64 \<Rightarrow> (bool \<times> queue) option" where
  "enqueue q p = enqueue_common q [p] True 1"

definition enqueue_single :: "queue \<Rightarrow> u64 \<Rightarrow> (bool \<times> queue) option" where
  "enqueue_single q p = enqueue_common q [p] False 1"

definition dequeued :: "u64 list option \<times> queue \<Rightarrow> u64 \<times> queue" where
  "dequeued r = (case fst r of None \<Rightarrow> - 1 | Some p \<Rightarrow> hd p, snd r)"

definition dequeue :: "queue \<Rightarrow> (u64 \<times> queue) option" where
  "dequeue q = map_option dequeued (dequeue_common q True 1)"

definition dequeue_single :: "queue \<Rightarrow> (u64 \<times> queue) option" where
  "dequeue_single q = map_option dequeued (dequeue_common q False 1)"

definition enqueue_n :: "queue \<Rightarrow> u64 list \<Rightarrow> nat \<Rightarrow> (bool \<times> queue) option" where
  "enqueue_n q p n = enqueue_common q p True n"

definition enqueue_n_single :: "queue \<Rightarrow> u64 list \<Rightarrow> nat \<Rightarrow> (bool \<times> queue) option" where
  "enqueue_n_single q p n = enqueue_common q p False n"

text \<open>The result is \<^verbatim>\<open>*p != INVALID_ADDRESS\<close>; \<open>p0\<close> is the destination before the call.\<close>

definition dequeued_n :: "u64 list \<Rightarrow> u64 list option \<times> queue \<Rightarrow> bool \<times> u64 list \<times> queue" where
  "dequeued_n p0 r = (let p = (case fst r of None \<Rightarrow> p0[0 := - 1] | Some p \<Rightarrow> p) in (hd p \<noteq> - 1, p, snd r))"

definition dequeue_n :: "queue \<Rightarrow> u64 list \<Rightarrow> nat \<Rightarrow> (bool \<times> u64 list \<times> queue) option" where
  "dequeue_n q p0 n = map_option (dequeued_n p0) (dequeue_common q True n)"

definition dequeue_n_single :: "queue \<Rightarrow> u64 list \<Rightarrow> nat \<Rightarrow> (bool \<times> u64 list \<times> queue) option" where
  "dequeue_n_single q p0 n = map_option (dequeued_n p0) (dequeue_common q False n)"

definition queue_length :: "queue \<Rightarrow> u64" where
  "queue_length q = ucast (q_prod_tail q - q_cons_head q)"

definition queue_empty :: "queue \<Rightarrow> bool" where
  "queue_empty q = (q_prod_tail q = q_cons_head q)"

definition queue_full :: "queue \<Rightarrow> bool" where
  "queue_full q = ((ucast (q_prod_tail q - q_cons_head q) :: u64) = push_bit (q_order q) 1)"

definition queue_peek_at :: "queue \<Rightarrow> u32 \<Rightarrow> u64 option" where
  "queue_peek_at q idx =
     (if q_prod_tail q > q_cons_head q + idx then
        do { p \<leftarrow> peek (q_d q) (queue_idx q (q_cons_head q + idx)) 1; Some (hd p) }
      else Some (- 1))"

definition queue_peek :: "queue \<Rightarrow> u64 option" where
  "queue_peek q = queue_peek_at q 0"

definition queue_init :: "nat \<Rightarrow> queue" where
  "queue_init order =
     \<lparr>q_prod_head = 0, q_cons_tail = 0, q_cons_head = 0, q_prod_tail = 0, q_d = replicate (2 ^ order) 0, q_order = order\<rparr>"

text \<open>The size of the allocation: the structure padded to a cache line of 64 bytes, then the words.\<close>

definition queue_alloc_size :: "nat \<Rightarrow> u64" where
  "queue_alloc_size order = pad 40 64 + push_bit order 1 * 8"

definition allocate_queue :: "heap \<Rightarrow> u64 \<Rightarrow> queue option" where
  "allocate_queue h sz =
     (if sz = 0 then None
      else
        let order = find_order sz in
        (case h (queue_alloc_size order) of
           None \<Rightarrow> None
         | Some _ \<Rightarrow> Some (queue_init order)))"

section \<open>Abstract value\<close>

text \<open>A queue of units of \<open>n\<close> words with no call in progress, and its words in order.\<close>

definition wf_queue :: "nat \<Rightarrow> queue \<Rightarrow> bool" where
  "wf_queue n q \<longleftrightarrow>
     q_order q < 32 \<and> length (q_d q) = 2 ^ q_order q \<and> (\<exists>k \<le> q_order q. n = 2 ^ k) \<and>
     q_prod_head q = q_prod_tail q \<and> q_cons_tail q = q_cons_head q \<and>
     n dvd unat (q_cons_head q) \<and> n dvd unat (q_prod_tail q) \<and> unat (q_prod_tail q - q_cons_head q) \<le> 2 ^ q_order q"

definition queue_words :: "queue \<Rightarrow> u64 list" where
  "queue_words q =
     map (\<lambda>i. q_d q ! ((unat (q_cons_head q) + i) mod 2 ^ q_order q)) [0 ..< unat (q_prod_tail q - q_cons_head q)]"

lemma queue_idx_mod: "q_order q < 32 \<Longrightarrow> queue_idx q i = unat i mod 2 ^ q_order q"
proof -
  assume o: "q_order q < 32"
  have "MASK (q_order q) = (2 ^ q_order q :: u64) - 1" by (simp add: MASK_def U64_FROM_BIT_def push_bit_eq_mult)
  then have "queue_idx q i = unat (ucast i :: u64) mod 2 ^ q_order q"
    using unat_mask_and [of "q_order q" "2 ^ q_order q" "ucast i"] o by (simp add: queue_idx_def unat_2p)
  moreover have "unat i < 2 ^ LENGTH(32)" by (rule unsigned_less)
  then have "unat (ucast i :: u64) = unat i" by (simp add: unsigned_ucast_eq take_bit_nat_eq_self)
  ultimately show ?thesis by simp
qed

lemma unat_queue_size: "q_order q < 32 \<Longrightarrow> unat (queue_size q) = 2 ^ q_order q"
proof -
  assume "q_order q < 32"
  then have "(2 :: nat) ^ q_order q < 2 ^ 32" by (intro power_strict_increasing) simp_all
  then show ?thesis unfolding queue_size_def unat_of_nat take_bit_eq_mod by (intro mod_less) simp
qed

lemma length_queue_words [simp]: "length (queue_words q) = unat (q_prod_tail q - q_cons_head q)"
  by (simp add: queue_words_def)

text \<open>Positions of a ring whose size divides the range of the counters.\<close>

lemma mod_ring_distinct: "a < b \<Longrightarrow> b < a + m \<Longrightarrow> a mod m \<noteq> b mod (m :: nat)"
proof
  assume "a < b" "b < a + m" "a mod m = b mod m"
  then have "m dvd b - a" by (metis mod_eq_dvd_iff_nat less_imp_le)
  then show False using \<open>a < b\<close> \<open>b < a + m\<close> dvd_imp_le [of m "b - a"] by simp
qed

lemma unat_add_ring: "k < 32 \<Longrightarrow> unat ((x :: u32) + of_nat n) mod 2 ^ k = (unat x + n) mod 2 ^ k"
proof -
  assume "k < 32"
  then have "(2 :: nat) ^ k dvd 2 ^ 32" by (intro le_imp_power_dvd) simp
  moreover have "unat (x + of_nat n) = (unat x + n) mod 2 ^ 32"
    by (simp add: unat_word_ariths unat_of_nat take_bit_eq_mod mod_add_right_eq)
  ultimately show ?thesis by (simp add: mod_mod_cancel)
qed

lemma ring_tail: "k < 32 \<Longrightarrow> unat (p :: u32) mod 2 ^ k = (unat c + unat (p - c)) mod 2 ^ k"
  using unat_add_ring [of k c "unat (p - c)"] by simp

lemma dvd_diff_ring:
  assumes "n = 2 ^ k" "k \<le> 32" "n dvd unat p" "n dvd unat c"
  shows "n dvd unat ((p :: u32) - c)"
proof -
  have "(2 :: nat) ^ k dvd 2 ^ 32" using assms(2) by (intro le_imp_power_dvd)
  then have d: "int n dvd 2 ^ 32" using assms(1) by (metis of_nat_dvd_iff of_nat_numeral of_nat_power)
  have "int (unat (p - c)) = (int (unat p) - int (unat c)) mod 2 ^ 32"
    by (simp add: uint_word_ariths)
  moreover have "int n dvd int (unat p) - int (unat c)" using assms(3,4) by (intro dvd_diff) (simp_all only: int_dvd_int_iff)
  ultimately have "int n dvd int (unat (p - c))" using d by (simp only: dvd_mod)
  then show ?thesis by (simp only: int_dvd_int_iff)
qed

lemma poke_nth:
  "poke xs i ys = Some zs \<Longrightarrow> k < length xs \<Longrightarrow> zs ! k = (if i \<le> k \<and> k < i + length ys then ys ! (k - i) else xs ! k)"
  by (auto simp: poke_def nth_append min_def split: if_splits)

lemma unit_room:
  assumes "n = 2 ^ k" "k \<le> order" "n dvd len" "len < 2 ^ order"
  shows "len + n \<le> (2 :: nat) ^ order"
proof -
  have "n dvd 2 ^ order" using assms(1,2) by (simp add: le_imp_power_dvd)
  then have "n dvd 2 ^ order - len" using assms(3) by (rule dvd_diff_nat)
  then have "n \<le> 2 ^ order - len" using assms(4) by (intro dvd_imp_le) simp_all
  then show ?thesis using assms(4) by simp
qed

lemma unit_assert: "n = 2 ^ k \<Longrightarrow> n > 0 \<and> (of_nat n :: u32) AND (of_nat n - 1) = 0"
proof -
  have "(2 ^ k :: u32) AND (2 ^ k - 1) = 0" by (rule bit_eqI) (auto simp: bit_simps simp flip: mask_eq_exp_minus_1)
  then show "n = 2 ^ k \<Longrightarrow> n > 0 \<and> (of_nat n :: u32) AND (of_nat n - 1) = 0" by simp
qed

section \<open>Calls that do not overlap\<close>

lemma wf_queueD:
  assumes "wf_queue n q"
  shows "q_order q < 32" "length (q_d q) = 2 ^ q_order q" "q_prod_head q = q_prod_tail q" "q_cons_tail q = q_cons_head q"
    "n dvd unat (q_prod_tail q - q_cons_head q)" "n > 0" "n dvd 2 ^ q_order q"
    "n > 0 \<and> (of_nat n :: u32) AND (of_nat n - 1) = 0" "unat (of_nat n :: u32) = n"
proof -
  obtain k where k: "k \<le> q_order q" "n = 2 ^ k" using assms by (auto simp: wf_queue_def)
  show o: "q_order q < 32" "length (q_d q) = 2 ^ q_order q" "q_prod_head q = q_prod_tail q" "q_cons_tail q = q_cons_head q"
    using assms by (simp_all add: wf_queue_def)
  show "n dvd unat (q_prod_tail q - q_cons_head q)" using assms k o by (intro dvd_diff_ring [of n k]) (simp_all add: wf_queue_def)
  show "n > 0" "n > 0 \<and> (of_nat n :: u32) AND (of_nat n - 1) = 0" using k unit_assert by auto
  show "n dvd 2 ^ q_order q" using k by (simp add: le_imp_power_dvd)
  have "n < 2 ^ 32" unfolding k(2) using k(1) o(1) by (intro power_strict_increasing) simp_all
  then show "unat (of_nat n :: u32) = n" by (simp add: unat_of_nat take_bit_eq_mod)
qed

lemma tail_ring:
  assumes "wf_queue n q"
  shows "unat (q_prod_tail q) mod 2 ^ q_order q = (unat (q_cons_head q) + length (queue_words q)) mod 2 ^ q_order q"
  using ring_tail [OF wf_queueD(1) [OF assms]] by simp

text \<open>A unit lies in the array without wrapping.\<close>

lemma unit_index:
  assumes "wf_queue n q" "n dvd unat i" "j < n"
  shows "unat i mod 2 ^ q_order q + n \<le> 2 ^ q_order q" "(unat i + j) mod 2 ^ q_order q = unat i mod 2 ^ q_order q + j"
proof -
  obtain k where k: "k \<le> q_order q" "n = 2 ^ k" using assms(1) by (auto simp: wf_queue_def)
  have "n dvd unat i mod 2 ^ q_order q" using assms(2) wf_queueD(7) [OF assms(1)] by (simp add: dvd_mod)
  then show le: "unat i mod 2 ^ q_order q + n \<le> 2 ^ q_order q" by (intro unit_room [OF k(2,1)]) simp_all
  have "(unat i + j) mod 2 ^ q_order q = (unat i mod 2 ^ q_order q + j) mod 2 ^ q_order q" by (simp add: mod_add_left_eq)
  then show "(unat i + j) mod 2 ^ q_order q = unat i mod 2 ^ q_order q + j" using le assms(3) by simp
qed

lemma queue_words_put:
  assumes w: "wf_queue n q" and room: "length (queue_words q) + n \<le> 2 ^ q_order q" and p: "length p = n"
    and d: "poke (q_d q) (unat (q_prod_tail q) mod 2 ^ q_order q) p = Some d"
  shows "map (\<lambda>i. d ! ((unat (q_cons_head q) + i) mod 2 ^ q_order q)) [0 ..< length (queue_words q) + n] = queue_words q @ p"
proof (rule nth_equalityI)
  let ?m = "2 ^ q_order q :: nat" and ?c = "unat (q_cons_head q)" and ?l = "length (queue_words q)"
  note D = wf_queueD [OF w]
  fix i assume "i < length (map (\<lambda>i. d ! ((?c + i) mod ?m)) [0 ..< ?l + n])"
  then have i: "i < ?l + n" by simp
  have td: "n dvd unat (q_prod_tail q)" using w by (simp add: wf_queue_def)
  have nth: "d ! ((?c + i) mod ?m) = (if unat (q_prod_tail q) mod ?m \<le> (?c + i) mod ?m \<and> (?c + i) mod ?m < unat (q_prod_tail q) mod ?m + n
      then p ! ((?c + i) mod ?m - unat (q_prod_tail q) mod ?m) else q_d q ! ((?c + i) mod ?m))"
    using poke_nth [OF d, of "(?c + i) mod ?m"] D(2) p by simp
  show "map (\<lambda>i. d ! ((?c + i) mod ?m)) [0 ..< ?l + n] ! i = (queue_words q @ p) ! i"
  proof (cases "i < ?l")
    case True
    have "\<not> (unat (q_prod_tail q) mod ?m \<le> (?c + i) mod ?m \<and> (?c + i) mod ?m < unat (q_prod_tail q) mod ?m + n)"
    proof
      assume a: "unat (q_prod_tail q) mod ?m \<le> (?c + i) mod ?m \<and> (?c + i) mod ?m < unat (q_prod_tail q) mod ?m + n"
      define j where "j = (?c + i) mod ?m - unat (q_prod_tail q) mod ?m"
      have j: "j < n" "(?c + i) mod ?m = unat (q_prod_tail q) mod ?m + j" using a by (auto simp: j_def)
      have "(?c + i) mod ?m = (unat (q_prod_tail q) + j) mod ?m" using unit_index(2) [OF w td j(1)] j(2) by simp
      also have "\<dots> = (?c + ?l + j) mod ?m" using tail_ring [OF w] by (metis mod_add_left_eq)
      finally show False using mod_ring_distinct [of "?c + i" "?c + ?l + j" ?m] True j(1) room by simp
    qed
    then have "d ! ((?c + i) mod ?m) = q_d q ! ((?c + i) mod ?m)" using nth by (simp only: if_False)
    then show ?thesis using i True by (simp add: nth_append) (simp add: queue_words_def)
  next
    case False
    define j where "j = i - ?l"
    have j: "i = ?l + j" "j < n" using False i by (auto simp: j_def)
    have "(?c + i) mod ?m = (unat (q_prod_tail q) + j) mod ?m" unfolding j(1) using tail_ring [OF w] by (metis add.assoc mod_add_left_eq)
    then have "(?c + i) mod ?m = unat (q_prod_tail q) mod ?m + j" using unit_index(2) [OF w td j(2)] by simp
    then show ?thesis using nth i j by (simp add: nth_append)
  qed
qed (use p in simp)

lemma enqueue_correct:
  assumes w: "wf_queue n q" and p: "length p = n" "\<not> (n = 1 \<and> p = [- 1])"
  shows "\<exists>q'. enqueue_common q p multi n = Some (length (queue_words q) < 2 ^ q_order q, q') \<and>
    (if length (queue_words q) < 2 ^ q_order q then wf_queue n q' \<and> queue_words q' = queue_words q @ p \<and> q_order q' = q_order q else q' = q)"
proof -
  note D = wf_queueD [OF w]
  let ?len = "unat (q_prod_tail q - q_cons_head q)"
  have le: "?len \<le> 2 ^ q_order q" using w by (simp add: wf_queue_def)
  have full: "q_prod_head q - q_cons_tail q = queue_size q \<longleftrightarrow> \<not> ?len < 2 ^ q_order q"
    unfolding D(3,4) word_unat_eq_iff unat_queue_size [OF D(1)] using le by linarith
  show ?thesis
  proof (cases "?len < 2 ^ q_order q")
    case False
    then show ?thesis using full p(2) D(8) by (auto simp: enqueue_common_def Let_def)
  next
    case True
    obtain k where k: "k \<le> q_order q" "n = 2 ^ k" using w by (auto simp: wf_queue_def)
    have room: "?len + n \<le> 2 ^ q_order q" by (rule unit_room [OF k(2,1) D(5) True])
    have td: "n dvd unat (q_prod_tail q)" using w by (simp add: wf_queue_def)
    have idx: "unat (q_prod_tail q) mod 2 ^ q_order q + n \<le> 2 ^ q_order q" by (rule unit_index(1) [OF w td D(6)])
    then obtain d where d: "poke (q_d q) (unat (q_prod_tail q) mod 2 ^ q_order q) p = Some d"
      using D(2) p(1) by (auto simp: poke_def)
    let ?q = "q\<lparr>q_prod_head := q_prod_tail q + of_nat n, q_d := d, q_prod_tail := q_prod_tail q + of_nat n\<rparr>"
    have lt: "q_prod_head q - q_cons_tail q < queue_size q"
      using True unat_queue_size [OF D(1)] D(3,4) by (simp add: word_less_nat_alt)
    have "queue_idx (q\<lparr>q_prod_head := q_prod_tail q + of_nat n\<rparr>) (q_prod_tail q) = unat (q_prod_tail q) mod 2 ^ q_order q"
      using queue_idx_mod [of "q\<lparr>q_prod_head := q_prod_tail q + of_nat n\<rparr>"] D(1) by simp
    then have e: "enqueue_common q p multi n = Some (True, ?q)"
      using full True p(2) D(3,8) lt d by (auto simp: enqueue_common_def Let_def)
    have "q_prod_tail q + of_nat n - q_cons_head q = (q_prod_tail q - q_cons_head q) + of_nat n" by simp
    then have "unat (q_prod_tail q + of_nat n - q_cons_head q) = (?len + n) mod 2 ^ 32"
      by (simp only: unat_word_ariths D(9)) simp
    moreover have "?len + n < 2 ^ 32"
      using room power_strict_increasing [of "q_order q" 32 "2 :: nat"] D(1) by linarith
    ultimately have l: "unat (q_prod_tail q + of_nat n - q_cons_head q) = ?len + n" by simp
    have "queue_words ?q = queue_words q @ p"
      using queue_words_put [OF w _ p(1) d] room l by (simp add: queue_words_def [of ?q])
    moreover have "n dvd unat (q_prod_tail q + of_nat n)"
    proof -
      have "n dvd 2 ^ 32" unfolding k(2) using k(1) D(1) by (intro le_imp_power_dvd) simp
      then show ?thesis using td D(9) by (simp add: unat_word_ariths dvd_mod)
    qed
    ultimately show ?thesis using e True w d l room poke_length [OF d]
      by (intro exI [of _ ?q]) (simp add: wf_queue_def)
  qed
qed

lemma dequeue_correct:
  assumes w: "wf_queue n q"
  shows "\<exists>q'. dequeue_common q multi n = Some (if queue_words q = [] then None else Some (take n (queue_words q)), q') \<and>
    (if queue_words q = [] then q' = q else n \<le> length (queue_words q) \<and> wf_queue n q' \<and> queue_words q' = drop n (queue_words q) \<and> q_order q' = q_order q)"
proof -
  note D = wf_queueD [OF w]
  let ?len = "unat (q_prod_tail q - q_cons_head q)" and ?c = "unat (q_cons_head q)" and ?m = "2 ^ q_order q :: nat"
  have le: "?len \<le> ?m" using w by (simp add: wf_queue_def)
  have empty: "queue_words q = [] \<longleftrightarrow> q_cons_head q = q_prod_tail q"
  proof -
    have "queue_words q = [] \<longleftrightarrow> ?len = 0" using length_queue_words [of q] by (metis length_0_conv)
    then show ?thesis by (auto simp: unat_eq_zero)
  qed
  show ?thesis
  proof (cases "queue_words q = []")
    case True
    then show ?thesis using empty D(8) by (auto simp: dequeue_common_def Let_def)
  next
    case False
    have pos: "0 < ?len" using False length_queue_words [of q] by (metis length_greater_0_conv)
    then have nl: "n \<le> ?len" using D(5) by (intro dvd_imp_le)
    have cd: "n dvd ?c" using w by (simp add: wf_queue_def)
    have idx: "?c mod ?m + n \<le> ?m" by (rule unit_index(1) [OF w cd D(6)])
    let ?q = "q\<lparr>q_cons_head := q_cons_head q + of_nat n, q_cons_tail := q_cons_head q + of_nat n\<rparr>"
    have "take n (drop (?c mod ?m) (q_d q)) = take n (queue_words q)"
    proof (rule nth_equalityI)
      fix i assume "i < length (take n (drop (?c mod ?m) (q_d q)))"
      then have i: "i < n" by simp
      then show "take n (drop (?c mod ?m) (q_d q)) ! i = take n (queue_words q) ! i"
        using unit_index(2) [OF w cd i] idx D(2) nl by (simp add: queue_words_def)
    qed (use idx D(2) nl in simp)
    then have pk: "peek (q_d q) (?c mod ?m) n = Some (take n (queue_words q))" using idx D(2) by (simp add: peek_def)
    have ge: "q_prod_tail q - q_cons_head q \<le> queue_size q" using le unat_queue_size [OF D(1)] by (simp add: word_le_nat_alt)
    have "queue_idx (q\<lparr>q_cons_head := q_cons_head q + of_nat n\<rparr>) (q_cons_head q) = ?c mod ?m"
      using queue_idx_mod [of "q\<lparr>q_cons_head := q_cons_head q + of_nat n\<rparr>"] D(1) by simp
    then have e: "dequeue_common q multi n = Some (Some (take n (queue_words q)), ?q)"
      using empty False D(4,8) ge pk by (auto simp: dequeue_common_def Let_def)
    have l: "unat (q_prod_tail q - (q_cons_head q + of_nat n)) = ?len - n"
    proof -
      have "q_prod_tail q - (q_cons_head q + of_nat n) = (q_prod_tail q - q_cons_head q) - of_nat n" by simp
      then show ?thesis using nl D(9) by (simp only: unat_sub word_le_nat_alt)
    qed
    have "queue_words ?q = drop n (queue_words q)"
    proof (rule nth_equalityI)
      fix i assume "i < length (queue_words ?q)"
      then have "i < ?len - n" using l by simp
      moreover have "(unat (q_cons_head q + of_nat n) + i) mod ?m = (?c + (n + i)) mod ?m"
        using unat_add_ring [OF D(1), of "q_cons_head q" n] by (metis add.assoc mod_add_left_eq)
      moreover have "n + i < ?len" using \<open>i < ?len - n\<close> by simp
      ultimately show "queue_words ?q ! i = drop n (queue_words q) ! i" using l by (simp add: queue_words_def)
    qed (use l in simp)
    moreover have "n dvd unat (q_cons_head q + of_nat n)"
    proof -
      obtain k where k: "k \<le> q_order q" "n = 2 ^ k" using w by (auto simp: wf_queue_def)
      have "n dvd 2 ^ 32" unfolding k(2) using k(1) D(1) by (intro le_imp_power_dvd) simp
      then show ?thesis using cd D(9) by (simp add: unat_word_ariths dvd_mod)
    qed
    ultimately show ?thesis using e False w l nl le
      by (intro exI [of _ ?q]) (simp add: wf_queue_def)
  qed
qed

section \<open>Properties\<close>

lemma queue_init_wf:
  assumes "order < 32" "k \<le> order"
  shows "wf_queue (2 ^ k) (queue_init order)" "queue_words (queue_init order) = []"
  using assms by (auto simp: wf_queue_def queue_init_def queue_words_def)

lemma unat_add_u32: "unat (x :: u32) + unat y < 2 ^ 32 \<Longrightarrow> unat (x + y) = unat x + unat y"
  by (simp add: unat_word_ariths)

lemma peek_at_correct:
  assumes w: "wf_queue n q" and up: "unat (q_cons_head q) + length (queue_words q) < 2 ^ 32" and i: "unat (q_cons_head q) + unat i < 2 ^ 32"
  shows "queue_peek_at q i = Some (if unat i < length (queue_words q) then queue_words q ! unat i else - 1)"
proof -
  note D = wf_queueD [OF w]
  have "q_prod_tail q = q_cons_head q + (q_prod_tail q - q_cons_head q)" by simp
  then have t: "unat (q_prod_tail q) = unat (q_cons_head q) + length (queue_words q)"
    using up unat_add_u32 [of "q_cons_head q" "q_prod_tail q - q_cons_head q"] by simp
  have s: "unat (q_cons_head q + i) = unat (q_cons_head q) + unat i" using i by (simp add: unat_word_ariths)
  have "q_prod_tail q > q_cons_head q + i \<longleftrightarrow> unat i < length (queue_words q)" by (simp add: word_less_nat_alt s t)
  moreover have "take 1 (drop k (q_d q)) = [q_d q ! k]" if "k < length (q_d q)" for k
    using that by (simp add: take_Suc_conv_app_nth)
  ultimately show ?thesis
    using queue_idx_mod [OF D(1)] D(2) s by (auto simp: queue_peek_at_def peek_def queue_words_def Suc_le_eq)
qed

text \<open>
  Property C30. As long as calls do not overlap, a queue of units of a power of two of words is a first-in first-out store bounded
  by its size, whatever values the wrapping counters have: an enqueue appends the unit unless the queue is full, a dequeue removes
  the unit at the front unless it is empty, the multi-producer variants behave as the single ones, and the length,
  emptiness and fullness tests agree with the list of words. Peeking at an index gives the word there as long as the counters
  do not wrap within the contents.
\<close>

theorem queue_fifo_correct:
  assumes "wf_queue n q" "length p = n" "\<not> (n = 1 \<and> p = [- 1])" "length p0 = n"
  shows "(\<exists>q'. enqueue_n q p n = Some (length (queue_words q) < 2 ^ q_order q, q') \<and> enqueue_n_single q p n = enqueue_n q p n \<and>
      (if length (queue_words q) < 2 ^ q_order q then wf_queue n q' \<and> queue_words q' = queue_words q @ p else q' = q)) \<and>
    (\<exists>r q'. dequeue_n q p0 n = Some (r, if queue_words q = [] then p0[0 := - 1] else take n (queue_words q), q') \<and>
      dequeue_n_single q p0 n = dequeue_n q p0 n \<and>
      (if queue_words q = [] then \<not> r \<and> q' = q else wf_queue n q' \<and> queue_words q' = drop n (queue_words q) \<and> r = (hd (queue_words q) \<noteq> - 1))) \<and>
    unat (queue_length q) = length (queue_words q) \<and> queue_empty q = (queue_words q = []) \<and>
    queue_full q = (length (queue_words q) = 2 ^ q_order q) \<and>
    (unat (q_cons_head q) + length (queue_words q) < 2 ^ 32 \<and> unat (q_cons_head q) + unat i < 2 ^ 32 \<longrightarrow>
      queue_peek_at q i = Some (if unat i < length (queue_words q) then queue_words q ! unat i else - 1))"
proof (intro conjI)
  note D = wf_queueD [OF assms(1)]
  have single: "enqueue_n_single q p n = enqueue_n q p n"
    using D(3) by (auto simp: enqueue_n_single_def enqueue_n_def enqueue_common_def Let_def)
  have "dequeue_common q False n = dequeue_common q True n"
    using D(4) by (auto simp: dequeue_common_def Let_def)
  then have dsingle: "dequeue_n_single q p0 n = dequeue_n q p0 n" by (simp add: dequeue_n_single_def dequeue_n_def)
  show "\<exists>q'. enqueue_n q p n = Some (length (queue_words q) < 2 ^ q_order q, q') \<and> enqueue_n_single q p n = enqueue_n q p n \<and>
      (if length (queue_words q) < 2 ^ q_order q then wf_queue n q' \<and> queue_words q' = queue_words q @ p else q' = q)"
    unfolding single using enqueue_correct [OF assms(1-3), of True] unfolding enqueue_n_def by (auto split: if_splits)
  show "\<exists>r q'. dequeue_n q p0 n = Some (r, if queue_words q = [] then p0[0 := - 1] else take n (queue_words q), q') \<and>
      dequeue_n_single q p0 n = dequeue_n q p0 n \<and>
      (if queue_words q = [] then \<not> r \<and> q' = q else wf_queue n q' \<and> queue_words q' = drop n (queue_words q) \<and> r = (hd (queue_words q) \<noteq> - 1))"
  proof (cases "queue_words q = []")
    case True
    have "p0 \<noteq> []" using assms(4) D(6) by auto
    then have "hd (p0[0 := - 1]) = - 1" by (cases p0) auto
    then show ?thesis unfolding dsingle using dequeue_correct [OF assms(1), of True] True
      by (intro exI [of _ False]) (simp add: dequeue_n_def dequeued_n_def Let_def)
  next
    case False
    have "hd (take n (queue_words q)) = hd (queue_words q)" using D(6) by (simp add: hd_take)
    then show ?thesis unfolding dsingle using dequeue_correct [OF assms(1), of True] False
      by (auto simp: dequeue_n_def dequeued_n_def Let_def)
  qed
  have u: "unat (queue_length q) = length (queue_words q)"
  proof -
    have "unat (q_prod_tail q - q_cons_head q) < 2 ^ LENGTH(32)" by (rule unsigned_less)
    then show ?thesis by (simp add: queue_length_def unsigned_ucast_eq take_bit_nat_eq_self)
  qed
  then show "unat (queue_length q) = length (queue_words q)" .
  show "queue_empty q = (queue_words q = [])"
  proof -
    have "queue_words q = [] \<longleftrightarrow> unat (q_prod_tail q - q_cons_head q) = 0" by (metis length_0_conv length_queue_words)
    then show ?thesis by (auto simp: queue_empty_def unat_eq_zero)
  qed
  have "unat (push_bit (q_order q) 1 :: u64) = 2 ^ q_order q" using D(1) by (simp add: push_bit_eq_mult unat_2p)
  then show "queue_full q = (length (queue_words q) = 2 ^ q_order q)"
    using u by (auto simp: queue_full_def queue_length_def word_unat_eq_iff)
  show "unat (q_cons_head q) + length (queue_words q) < 2 ^ 32 \<and> unat (q_cons_head q) + unat i < 2 ^ 32 \<longrightarrow>
      queue_peek_at q i = Some (if unat i < length (queue_words q) then queue_words q ! unat i else - 1)"
    using peek_at_correct [OF assms(1)] by blast
qed

text \<open>A queue of four words whose counters are about to wrap.\<close>

definition sample_queue :: queue where
  "sample_queue = \<lparr>q_prod_head = 0, q_cons_tail = - 2, q_cons_head = - 2, q_prod_tail = 0, q_d = [0, 0, 5, 6], q_order = 2\<rparr>"

lemma sample_queue_ok: "wf_queue 1 sample_queue" "queue_words sample_queue = [5, 6]"
proof -
  have "\<exists>k \<le> (2 :: nat). (1 :: nat) = 2 ^ k" by (rule exI [of _ 0]) simp
  moreover have "unat (q_prod_tail sample_queue - q_cons_head sample_queue) \<le> 2 ^ 2" by (simp add: sample_queue_def)
  moreover have "q_order sample_queue = 2" "length (q_d sample_queue) = 4" "q_prod_head sample_queue = q_prod_tail sample_queue"
    "q_cons_tail sample_queue = q_cons_head sample_queue" by (simp_all add: sample_queue_def)
  ultimately show "wf_queue 1 sample_queue" by (simp add: wf_queue_def)
  have "[0 ..< 2 :: nat] = [0, 1]" by (simp add: upt_rec)
  then show "queue_words sample_queue = [5, 6]" by (simp add: queue_words_def sample_queue_def)
qed

theorem queue_fifo_correct_witness:
  "\<exists>q'. enqueue_n sample_queue [7] 1 = Some (True, q') \<and> queue_words q' = [5, 6, 7]"
  using queue_fifo_correct [OF sample_queue_ok(1), of "[7]" "[0]"] sample_queue_ok(2) by (auto simp: sample_queue_def)

end
