(* ===== verification/Queue_Steps.thy ===== *)
theory Queue_Steps
  imports Queue
begin

text \<open>
  Any number of threads call \<^verbatim>\<open>enqueue\<close> and \<^verbatim>\<open>dequeue\<close> of \<^verbatim>\<open>kernel/src/runtime/queue.h\<close> on one queue at the same time. A
  step of a thread is one access to the shared structure: the read of a pair of counters, the compare-and-swap, the access to the
  slot, one round of the waiting loop, the commit. Threads are interleaved arbitrarily. The
  invariant ties the tickets that threads hold to the counters; it gives first-in first-out order, that no assertion
  fails, and that the waiting loops cannot block each other for ever.
\<close>

section \<open>Steps of a thread\<close>

text \<open>
  Where a thread is. A producer starts with its value, has read the counters, has claimed a slot, waits for the earlier producers,
  commits and is done; a consumer likewise. The counter value that a thread holds is its ticket.
\<close>

datatype pc =
    Idle
  | PStart u64 | PRead u32 u64 | PClaimed u32 u64 | PWait u32 | PCommit u32 | PDone bool
  | CStart | CRead u32 | CClaimed u32 | CWait u32 u64 | CCommit u32 u64 | CDone u64

text \<open>\<open>None\<close> is a failing assertion or an access outside of the array.\<close>

fun thread_step :: "queue \<Rightarrow> pc \<Rightarrow> (queue \<times> pc) option" where
  "thread_step q (PStart p) =
     (if p = - 1 then Some (q, PDone False)
      else if q_prod_head q - q_cons_tail q = queue_size q then Some (q, PDone False)
      else if q_prod_head q - q_cons_tail q < queue_size q then Some (q, PRead (q_prod_head q) p)
      else None)"
| "thread_step q (PRead h p) =
     (if q_prod_head q = h then Some (q\<lparr>q_prod_head := h + 1\<rparr>, PClaimed h p) else Some (q, PStart p))"
| "thread_step q (PClaimed h p) =
     do { d \<leftarrow> poke (q_d q) (queue_idx q h) [p]; Some (q\<lparr>q_d := d\<rparr>, PWait h) }"
| "thread_step q (PWait h) = (if q_prod_tail q \<noteq> h then Some (q, PWait h) else Some (q, PCommit h))"
| "thread_step q (PCommit h) = Some (q\<lparr>q_prod_tail := h + 1\<rparr>, PDone True)"
| "thread_step q CStart =
     (if q_cons_head q = q_prod_tail q then Some (q, CDone (- 1))
      else if q_prod_tail q - q_cons_head q \<le> queue_size q then Some (q, CRead (q_cons_head q))
      else None)"
| "thread_step q (CRead h) =
     (if q_cons_head q = h then Some (q\<lparr>q_cons_head := h + 1\<rparr>, CClaimed h) else Some (q, CStart))"
| "thread_step q (CClaimed h) = do { p \<leftarrow> peek (q_d q) (queue_idx q h) 1; Some (q, CWait h (hd p)) }"
| "thread_step q (CWait h p) = (if q_cons_tail q \<noteq> h then Some (q, CWait h p) else Some (q, CCommit h p))"
| "thread_step q (CCommit h p) = Some (q\<lparr>q_cons_tail := h + 1\<rparr>, CDone p)"
| "thread_step q Idle = Some (q, Idle)"
| "thread_step q (PDone b) = Some (q, Idle)"
| "thread_step q (CDone p) = Some (q, Idle)"

text \<open>
  The reachable states: the queue, the position of every thread, and two histories, the values in the order in which the
  compare-and-swaps of the producers succeeded and the values in the order in which the consumers committed.
\<close>

record qstate =
  s_q :: queue
  s_pc :: "nat \<Rightarrow> pc"
  s_in :: "u64 list"
  s_out :: "u64 list"

definition queue_start :: "nat \<Rightarrow> qstate" where
  "queue_start order = \<lparr>s_q = queue_init order, s_pc = (\<lambda>_. Idle), s_in = [], s_out = []\<rparr>"

definition log_in :: "pc \<Rightarrow> pc \<Rightarrow> u64 list" where
  "log_in c c' = (case (c, c') of (PRead h p, PClaimed _ _) \<Rightarrow> [p] | _ \<Rightarrow> [])"

definition log_out :: "pc \<Rightarrow> u64 list" where
  "log_out c = (case c of CCommit h p \<Rightarrow> [p] | _ \<Rightarrow> [])"

inductive queue_reach :: "nat \<Rightarrow> qstate \<Rightarrow> bool" for order where
  start: "queue_reach order (queue_start order)"
| call_enqueue: "queue_reach order s \<Longrightarrow> s_pc s t = Idle \<Longrightarrow> queue_reach order (s\<lparr>s_pc := (s_pc s)(t := PStart p)\<rparr>)"
| call_dequeue: "queue_reach order s \<Longrightarrow> s_pc s t = Idle \<Longrightarrow> queue_reach order (s\<lparr>s_pc := (s_pc s)(t := CStart)\<rparr>)"
| step: "queue_reach order s \<Longrightarrow> thread_step (s_q s) (s_pc s t) = Some (q', c') \<Longrightarrow>
    queue_reach order \<lparr>s_q = q', s_pc = (s_pc s)(t := c'), s_in = s_in s @ log_in (s_pc s t) c', s_out = s_out s @ log_out (s_pc s t)\<rparr>"

section \<open>Invariant\<close>

text \<open>The slots that producers and consumers have claimed and not yet committed.\<close>

fun p_ticket :: "pc \<Rightarrow> nat option" where
  "p_ticket (PClaimed h p) = Some (unat h)"
| "p_ticket (PWait h) = Some (unat h)"
| "p_ticket (PCommit h) = Some (unat h)"
| "p_ticket _ = None"

fun c_ticket :: "pc \<Rightarrow> nat option" where
  "c_ticket (CClaimed h) = Some (unat h)"
| "c_ticket (CWait h p) = Some (unat h)"
| "c_ticket (CCommit h p) = Some (unat h)"
| "c_ticket _ = None"

text \<open>The tickets that threads hold are distinct and are exactly the numbers from \<open>a\<close> to \<open>b\<close>.\<close>

definition tickets :: "(nat \<Rightarrow> nat option) \<Rightarrow> nat \<Rightarrow> nat \<Rightarrow> bool" where
  "tickets f a b \<longleftrightarrow>
     (\<forall>t i. f t = Some i \<longrightarrow> a \<le> i \<and> i < b) \<and> (\<forall>t u i. f t = Some i \<and> f u = Some i \<longrightarrow> t = u) \<and>
     (\<forall>i. a \<le> i \<and> i < b \<longrightarrow> (\<exists>t. f t = Some i))"

text \<open>What the position of one thread says.\<close>

definition pc_ok :: "qstate \<Rightarrow> pc \<Rightarrow> bool" where
  "pc_ok s c =
     (case c of
        PRead h p \<Rightarrow> unat h < unat (q_cons_tail (s_q s)) + 2 ^ q_order (s_q s)
      | PClaimed h p \<Rightarrow> s_in s ! unat h = p
      | PWait h \<Rightarrow> q_d (s_q s) ! (unat h mod 2 ^ q_order (s_q s)) = s_in s ! unat h
      | PCommit h \<Rightarrow> h = q_prod_tail (s_q s) \<and> q_d (s_q s) ! (unat h mod 2 ^ q_order (s_q s)) = s_in s ! unat h
      | CRead h \<Rightarrow> unat h < unat (q_prod_tail (s_q s))
      | CWait h p \<Rightarrow> p = s_in s ! unat h
      | CCommit h p \<Rightarrow> h = q_cons_tail (s_q s) \<and> p = s_in s ! unat h
      | _ \<Rightarrow> True)"

definition queue_inv :: "nat \<Rightarrow> qstate \<Rightarrow> bool" where
  "queue_inv order s \<longleftrightarrow>
     (let q = s_q s; ct = unat (q_cons_tail q); ch = unat (q_cons_head q); pt = unat (q_prod_tail q); ph = unat (q_prod_head q) in
      q_order q = order \<and> order < 32 \<and> length (q_d q) = 2 ^ order \<and> ct \<le> ch \<and> ch \<le> pt \<and> pt \<le> ph \<and> ph \<le> ct + 2 ^ order \<and>
      length (s_in s) = ph \<and> s_out s = take ct (s_in s) \<and>
      tickets (\<lambda>t. p_ticket (s_pc s t)) pt ph \<and> tickets (\<lambda>t. c_ticket (s_pc s t)) ct ch \<and>
      (\<forall>i. ct \<le> i \<and> i < pt \<longrightarrow> q_d q ! (i mod 2 ^ order) = s_in s ! i) \<and> (\<forall>t. pc_ok s (s_pc s t)))"

lemma ticketsD:
  assumes "tickets f a b"
  shows "f t = Some i \<Longrightarrow> a \<le> i \<and> i < b" "f t = Some i \<Longrightarrow> f u = Some i \<Longrightarrow> t = u" "a \<le> i \<Longrightarrow> i < b \<Longrightarrow> \<exists>t. f t = Some i"
  using assms unfolding tickets_def by blast+

lemma ticketsI:
  assumes "\<And>t i. f t = Some i \<Longrightarrow> a \<le> i \<and> i < b" "\<And>t u i. f t = Some i \<Longrightarrow> f u = Some i \<Longrightarrow> t = u"
    "\<And>i. a \<le> i \<Longrightarrow> i < b \<Longrightarrow> \<exists>t. f t = Some i"
  shows "tickets f a b"
  using assms unfolding tickets_def by blast

lemma tickets_claim:
  assumes k: "tickets f a b" and t: "f t = None" and le: "a \<le> b"
  shows "tickets (f(t := Some b)) a (Suc b)"
proof (rule ticketsI)
  show "a \<le> i \<and> i < Suc b" if "(f(t := Some b)) u = Some i" for u i
    using that ticketsD(1) [OF k, of u i] le by (cases "u = t") auto
  show "u = v" if "(f(t := Some b)) u = Some i" "(f(t := Some b)) v = Some i" for u v i
    using that ticketsD(1) [OF k, of u b] ticketsD(1) [OF k, of v b] ticketsD(2) [OF k, of u i v] by (auto split: if_splits)
  show "\<exists>u. (f(t := Some b)) u = Some i" if i: "a \<le> i" "i < Suc b" for i
  proof (cases "i = b")
    case False
    then obtain u where "f u = Some i" using ticketsD(3) [OF k, of i] i by auto
    then show ?thesis using t by (intro exI [of _ u]) auto
  qed auto
qed

lemma tickets_keep: "tickets f a b \<Longrightarrow> f t = x \<Longrightarrow> tickets (f(t := x)) a b"
  by (simp add: fun_upd_idem)

lemma tickets_commit:
  assumes k: "tickets f a b" and t: "f t = Some a"
  shows "tickets (f(t := None)) (Suc a) b"
proof (rule ticketsI)
  show "Suc a \<le> i \<and> i < b" if "(f(t := None)) u = Some i" for u i
    using that ticketsD(1) [OF k, of u i] ticketsD(2) [OF k, of u a t] t by (cases "u = t"; cases "i = a") auto
  show "u = v" if "(f(t := None)) u = Some i" "(f(t := None)) v = Some i" for u v i
    using that ticketsD(2) [OF k, of u i v] by (auto split: if_splits)
  show "\<exists>u. (f(t := None)) u = Some i" if i: "Suc a \<le> i" "i < b" for i
  proof -
    obtain u where "f u = Some i" using ticketsD(3) [OF k, of i] i by auto
    then show ?thesis using t i(1) by (intro exI [of _ u]) auto
  qed
qed

text \<open>The tickets of the threads after thread \<open>t\<close> has moved to \<open>c\<close>.\<close>

lemma ticket_update: "(\<lambda>u. g ((f(t := c)) u)) = (\<lambda>u. g (f u))(t := g c)"
  by (auto simp: fun_eq_iff)

lemma unat_Suc_u32: "unat (h :: u32) < 2 ^ 32 - 1 \<Longrightarrow> unat (h + 1) = Suc (unat h)"
  using unat_add_u32 [of h 1] by simp

lemma queue_invD:
  assumes "queue_inv order s"
  shows "q_order (s_q s) = order" "order < 32" "length (q_d (s_q s)) = 2 ^ order"
    "unat (q_cons_tail (s_q s)) \<le> unat (q_cons_head (s_q s))" "unat (q_cons_head (s_q s)) \<le> unat (q_prod_tail (s_q s))"
    "unat (q_prod_tail (s_q s)) \<le> unat (q_prod_head (s_q s))" "unat (q_prod_head (s_q s)) \<le> unat (q_cons_tail (s_q s)) + 2 ^ order"
    "length (s_in s) = unat (q_prod_head (s_q s))" "s_out s = take (unat (q_cons_tail (s_q s))) (s_in s)"
    "tickets (\<lambda>t. p_ticket (s_pc s t)) (unat (q_prod_tail (s_q s))) (unat (q_prod_head (s_q s)))"
    "tickets (\<lambda>t. c_ticket (s_pc s t)) (unat (q_cons_tail (s_q s))) (unat (q_cons_head (s_q s)))"
    "unat (q_cons_tail (s_q s)) \<le> i \<Longrightarrow> i < unat (q_prod_tail (s_q s)) \<Longrightarrow> q_d (s_q s) ! (i mod 2 ^ order) = s_in s ! i"
    "pc_ok s (s_pc s t)"
  using assms by (simp_all add: queue_inv_def Let_def)

text \<open>A step that changes only the position of a thread and leaves its tickets as they are.\<close>

lemma inv_local:
  assumes i: "queue_inv order s" and c: "p_ticket c = p_ticket (s_pc s t)" "c_ticket c = c_ticket (s_pc s t)" "pc_ok s c"
  shows "queue_inv order (s\<lparr>s_pc := (s_pc s)(t := c)\<rparr>)"
proof -
  note D = queue_invD [OF i]
  have "pc_ok (s\<lparr>s_pc := (s_pc s)(t := c)\<rparr>) x = pc_ok s x" for x by (simp add: pc_ok_def split: pc.splits)
  moreover have "(\<lambda>u. p_ticket (((s_pc s)(t := c)) u)) = (\<lambda>u. p_ticket (s_pc s u))" "(\<lambda>u. c_ticket (((s_pc s)(t := c)) u)) = (\<lambda>u. c_ticket (s_pc s u))"
    using c by (auto simp: fun_eq_iff)
  ultimately show ?thesis using i c(3) by (simp add: queue_inv_def Let_def)
qed

lemma other_ticket:
  assumes "queue_inv order s"
  shows "p_ticket (s_pc s u) = Some i \<Longrightarrow> unat (q_prod_tail (s_q s)) \<le> i \<and> i < length (s_in s)"
    "c_ticket (s_pc s u) = Some i \<Longrightarrow> unat (q_cons_tail (s_q s)) \<le> i \<and> i < length (s_in s)"
    "p_ticket (s_pc s u) = Some i \<Longrightarrow> p_ticket (s_pc s t) = Some i \<Longrightarrow> u = t"
    "c_ticket (s_pc s u) = Some i \<Longrightarrow> c_ticket (s_pc s t) = Some i \<Longrightarrow> u = t"
proof -
  note D = queue_invD [OF assms]
  show "p_ticket (s_pc s u) = Some i \<Longrightarrow> unat (q_prod_tail (s_q s)) \<le> i \<and> i < length (s_in s)"
    using ticketsD(1) [OF D(10), of u i] D(8) by simp
  show "c_ticket (s_pc s u) = Some i \<Longrightarrow> unat (q_cons_tail (s_q s)) \<le> i \<and> i < length (s_in s)"
    using ticketsD(1) [OF D(11), of u i] D(5,6,8) by simp
  show "p_ticket (s_pc s u) = Some i \<Longrightarrow> p_ticket (s_pc s t) = Some i \<Longrightarrow> u = t"
    using ticketsD(2) [OF D(10), of u i t] by blast
  show "c_ticket (s_pc s u) = Some i \<Longrightarrow> c_ticket (s_pc s t) = Some i \<Longrightarrow> u = t"
    using ticketsD(2) [OF D(11), of u i t] by blast
qed

lemma inv_produce_claim:
  assumes i: "queue_inv order s" and t: "s_pc s t = PRead h p" "q_prod_head (s_q s) = h" and b: "length (s_in s) < 2 ^ 32 - 1"
  shows "queue_inv order (s\<lparr>s_q := (s_q s)\<lparr>q_prod_head := h + 1\<rparr>, s_pc := (s_pc s)(t := PClaimed h p), s_in := s_in s @ [p]\<rparr>)"
    (is "queue_inv order ?s")
proof -
  note D = queue_invD [OF i] and O = other_ticket [OF i]
  have h: "unat (h + 1) = Suc (unat h)" "length (s_in s) = unat h" using unat_Suc_u32 [of h] b D(8) t(2) by simp_all
  have room: "unat h < unat (q_cons_tail (s_q s)) + 2 ^ order" using D(13) [of t] t(1) D(1) by (simp add: pc_ok_def)
  have other: "pc_ok ?s (s_pc s u)" if "u \<noteq> t" for u
    using D(13) [of u] O(1,2) [of u] D(1)
    by (cases "s_pc s u") (auto simp: pc_ok_def nth_append)
  then have "pc_ok ?s (((s_pc s)(t := PClaimed h p)) u)" for u
    using h(2) by (cases "u = t") (auto simp: pc_ok_def nth_append)
  moreover have "tickets (\<lambda>u. p_ticket (((s_pc s)(t := PClaimed h p)) u)) (unat (q_prod_tail (s_q s))) (Suc (unat h))"
    unfolding ticket_update using tickets_claim [OF D(10), of t] D(6) t by simp
  moreover have "tickets (\<lambda>u. c_ticket (((s_pc s)(t := PClaimed h p)) u)) (unat (q_cons_tail (s_q s))) (unat (q_cons_head (s_q s)))"
    unfolding ticket_update using tickets_keep [OF D(11), of t] t by simp
  ultimately show ?thesis using D(1-9,12) h room t(2) unfolding queue_inv_def Let_def by (auto simp: nth_append)
qed

lemma inv_produce_write:
  assumes i: "queue_inv order s" and t: "s_pc s t = PClaimed h p"
    and d: "poke (q_d (s_q s)) (unat h mod 2 ^ order) [p] = Some d"
  shows "queue_inv order (s\<lparr>s_q := (s_q s)\<lparr>q_d := d\<rparr>, s_pc := (s_pc s)(t := PWait h)\<rparr>)" (is "queue_inv order ?s")
proof -
  note D = queue_invD [OF i] and O = other_ticket [OF i]
  have h: "unat (q_prod_tail (s_q s)) \<le> unat h" "unat h < length (s_in s)" using O(1) [of t "unat h"] t by simp_all
  have p: "s_in s ! unat h = p" using D(13) [of t] t by (simp add: pc_ok_def)
  have nth: "d ! (k mod 2 ^ order) = (if k mod 2 ^ order = unat h mod 2 ^ order then p else q_d (s_q s) ! (k mod 2 ^ order))" for k
    using poke_nth [OF d, of "k mod 2 ^ order"] D(3) by auto
  have ne: "k mod 2 ^ order \<noteq> unat h mod 2 ^ order"
    if "unat (q_cons_tail (s_q s)) \<le> k" "k < length (s_in s)" "k \<noteq> unat h" for k
  proof (cases "k < unat h")
    case True
    then show ?thesis using mod_ring_distinct [OF True, of "2 ^ order"] that h D(7,8) by simp
  next
    case False
    then have "unat h < k" using that(3) by simp
    then show ?thesis using mod_ring_distinct [of "unat h" k "2 ^ order"] that h D(4,5,7,8) by simp
  qed
  have slot: "d ! (k mod 2 ^ order) = q_d (s_q s) ! (k mod 2 ^ order)"
    if "p_ticket (s_pc s u) = Some k" "u \<noteq> t" for u k
  proof -
    have "k \<noteq> unat h" using O(3) [of u k t] that t by auto
    then show ?thesis using ne [of k] O(1) [OF that(1)] D(4,5) nth [of k] by simp
  qed
  have "pc_ok ?s (s_pc s u)" if "u \<noteq> t" for u
    using D(13) [of u] slot [OF _ that] D(1) by (cases "s_pc s u") (simp_all add: pc_ok_def)
  moreover have "pc_ok ?s (PWait h)" using nth [of "unat h"] p D(1) by (simp add: pc_ok_def)
  ultimately have "pc_ok ?s (((s_pc s)(t := PWait h)) u)" for u by (cases "u = t") auto
  moreover have "tickets (\<lambda>u. p_ticket (((s_pc s)(t := PWait h)) u)) (unat (q_prod_tail (s_q s))) (unat (q_prod_head (s_q s)))"
    unfolding ticket_update using tickets_keep [OF D(10), of t] t by simp
  moreover have "tickets (\<lambda>u. c_ticket (((s_pc s)(t := PWait h)) u)) (unat (q_cons_tail (s_q s))) (unat (q_cons_head (s_q s)))"
    unfolding ticket_update using tickets_keep [OF D(11), of t] t by simp
  moreover have "d ! (k mod 2 ^ order) = s_in s ! k" if "unat (q_cons_tail (s_q s)) \<le> k" "k < unat (q_prod_tail (s_q s))" for k
    using D(12) [OF that] ne [of k] nth [of k] that h D(6,8) by simp
  ultimately show ?thesis using D(1-9) poke_length [OF d] unfolding queue_inv_def Let_def by simp
qed

lemma inv_produce_commit:
  assumes i: "queue_inv order s" and t: "s_pc s t = PCommit h" and b: "length (s_in s) < 2 ^ 32"
  shows "queue_inv order (s\<lparr>s_q := (s_q s)\<lparr>q_prod_tail := h + 1\<rparr>, s_pc := (s_pc s)(t := PDone True)\<rparr>)" (is "queue_inv order ?s")
proof -
  note D = queue_invD [OF i] and O = other_ticket [OF i]
  have h: "h = q_prod_tail (s_q s)" "q_d (s_q s) ! (unat h mod 2 ^ order) = s_in s ! unat h" "unat h < length (s_in s)"
    using D(13) [of t] t O(1) [of t "unat h"] D(1) by (auto simp: pc_ok_def)
  have u: "unat (h + 1) = Suc (unat h)" using unat_Suc_u32 [of h] h(3) b by simp
  have "pc_ok ?s (s_pc s v)" if v: "v \<noteq> t" for v
  proof -
    have "s_pc s v \<noteq> PCommit h" using O(3) [of v "unat h" t] t v by auto
    then show ?thesis using D(13) [of v] u h(1) by (cases "s_pc s v") (auto simp: pc_ok_def)
  qed
  then have "pc_ok ?s (((s_pc s)(t := PDone True)) v)" for v by (cases "v = t") (auto simp: pc_ok_def)
  moreover have "tickets (\<lambda>u. p_ticket (((s_pc s)(t := PDone True)) u)) (Suc (unat h)) (unat (q_prod_head (s_q s)))"
    unfolding ticket_update using tickets_commit [OF D(10), of t] t h(1) by simp
  moreover have "tickets (\<lambda>u. c_ticket (((s_pc s)(t := PDone True)) u)) (unat (q_cons_tail (s_q s))) (unat (q_cons_head (s_q s)))"
    unfolding ticket_update using tickets_keep [OF D(11), of t] t by simp
  moreover have "q_d (s_q s) ! (k mod 2 ^ order) = s_in s ! k" if "unat (q_cons_tail (s_q s)) \<le> k" "k < Suc (unat h)" for k
    using D(12) [of k] that h(1,2) by (cases "k = unat h") auto
  ultimately show ?thesis using D(1-9) u h(1,3) unfolding queue_inv_def Let_def by simp
qed

lemma inv_consume_claim:
  assumes i: "queue_inv order s" and t: "s_pc s t = CRead h" "q_cons_head (s_q s) = h" and b: "length (s_in s) < 2 ^ 32"
  shows "queue_inv order (s\<lparr>s_q := (s_q s)\<lparr>q_cons_head := h + 1\<rparr>, s_pc := (s_pc s)(t := CClaimed h)\<rparr>)" (is "queue_inv order ?s")
proof -
  note D = queue_invD [OF i]
  have lt: "unat h < unat (q_prod_tail (s_q s))" using D(13) [of t] t by (simp add: pc_ok_def)
  then have h: "unat (h + 1) = Suc (unat h)" using unat_Suc_u32 [of h] b D(6,8) by simp
  have "pc_ok ?s c = pc_ok s c" for c by (cases c) (simp_all add: pc_ok_def)
  then have "pc_ok ?s (((s_pc s)(t := CClaimed h)) v)" for v using D(13) [of v] by (cases "v = t") (auto simp: pc_ok_def)
  moreover have "tickets (\<lambda>u. c_ticket (((s_pc s)(t := CClaimed h)) u)) (unat (q_cons_tail (s_q s))) (Suc (unat h))"
    unfolding ticket_update using tickets_claim [OF D(11), of t] D(4) t by simp
  moreover have "tickets (\<lambda>u. p_ticket (((s_pc s)(t := CClaimed h)) u)) (unat (q_prod_tail (s_q s))) (unat (q_prod_head (s_q s)))"
    unfolding ticket_update using tickets_keep [OF D(10), of t] t by simp
  ultimately show ?thesis using D(1-9,12) h lt t(2) unfolding queue_inv_def Let_def by simp
qed

lemma inv_consume_commit:
  assumes i: "queue_inv order s" and t: "s_pc s t = CCommit h p" and b: "length (s_in s) < 2 ^ 32"
  shows "queue_inv order (s\<lparr>s_q := (s_q s)\<lparr>q_cons_tail := h + 1\<rparr>, s_pc := (s_pc s)(t := CDone p), s_out := s_out s @ [p]\<rparr>)"
    (is "queue_inv order ?s")
proof -
  note D = queue_invD [OF i] and O = other_ticket [OF i]
  have h: "h = q_cons_tail (s_q s)" "p = s_in s ! unat h" "unat h < length (s_in s)"
    using D(13) [of t] t O(2) [of t "unat h"] by (auto simp: pc_ok_def)
  have ch: "unat h < unat (q_cons_head (s_q s))" using ticketsD(1) [OF D(11), of t "unat h"] t by simp
  have u: "unat (h + 1) = Suc (unat h)" using unat_Suc_u32 [of h] h(3) b by simp
  have "pc_ok ?s (s_pc s v)" if v: "v \<noteq> t" for v
  proof -
    have "c_ticket (s_pc s v) \<noteq> Some (unat h)" using O(4) [of v "unat h" t] t v by auto
    then show ?thesis using D(13) [of v] u h(1) by (cases "s_pc s v") (auto simp: pc_ok_def)
  qed
  then have "pc_ok ?s (((s_pc s)(t := CDone p)) v)" for v by (cases "v = t") (auto simp: pc_ok_def)
  moreover have "tickets (\<lambda>u. c_ticket (((s_pc s)(t := CDone p)) u)) (Suc (unat h)) (unat (q_cons_head (s_q s)))"
    unfolding ticket_update using tickets_commit [OF D(11), of t] t h(1) by simp
  moreover have "tickets (\<lambda>u. p_ticket (((s_pc s)(t := CDone p)) u)) (unat (q_prod_tail (s_q s))) (unat (q_prod_head (s_q s)))"
    unfolding ticket_update using tickets_keep [OF D(10), of t] t by simp
  moreover have "take (unat h) (s_in s) @ [p] = take (Suc (unat h)) (s_in s)" using h(2,3) by (simp add: take_Suc_conv_app_nth)
  ultimately show ?thesis using D(1-9,12) u h(1) ch unfolding queue_inv_def Let_def by simp
qed

text \<open>The claims and accesses of a step that are always possible.\<close>

lemma step_enabled:
  assumes i: "queue_inv order s"
  shows "q_prod_head (s_q s) - q_cons_tail (s_q s) \<noteq> queue_size (s_q s) \<Longrightarrow> q_prod_head (s_q s) - q_cons_tail (s_q s) < queue_size (s_q s) \<and>
      unat (q_prod_head (s_q s)) < unat (q_cons_tail (s_q s)) + 2 ^ order"
    "q_prod_tail (s_q s) - q_cons_head (s_q s) \<le> queue_size (s_q s)"
    "\<exists>d. poke (q_d (s_q s)) (queue_idx (s_q s) h) [p] = Some d" "queue_idx (s_q s) h = unat h mod 2 ^ order"
    "peek (q_d (s_q s)) (queue_idx (s_q s) h) 1 = Some [q_d (s_q s) ! (unat h mod 2 ^ order)]"
proof -
  note D = queue_invD [OF i]
  have sz: "unat (queue_size (s_q s)) = 2 ^ order" using unat_queue_size [of "s_q s"] D(1,2) by simp
  have ph: "unat (q_prod_head (s_q s) - q_cons_tail (s_q s)) = unat (q_prod_head (s_q s)) - unat (q_cons_tail (s_q s))"
    using D(4-6) by (intro unat_sub) (simp add: word_le_nat_alt)
  have pt: "unat (q_prod_tail (s_q s) - q_cons_head (s_q s)) = unat (q_prod_tail (s_q s)) - unat (q_cons_head (s_q s))"
    using D(5) by (intro unat_sub) (simp add: word_le_nat_alt)
  show "q_prod_head (s_q s) - q_cons_tail (s_q s) < queue_size (s_q s) \<and> unat (q_prod_head (s_q s)) < unat (q_cons_tail (s_q s)) + 2 ^ order"
    if "q_prod_head (s_q s) - q_cons_tail (s_q s) \<noteq> queue_size (s_q s)"
  proof -
    have "unat (q_prod_head (s_q s)) - unat (q_cons_tail (s_q s)) \<noteq> 2 ^ order" using that ph sz by (simp add: word_unat_eq_iff)
    then show ?thesis using D(4-7) ph sz by (auto simp: word_less_nat_alt)
  qed
  show "q_prod_tail (s_q s) - q_cons_head (s_q s) \<le> queue_size (s_q s)"
    using D(4-7) pt sz by (simp add: word_le_nat_alt)
  show x: "queue_idx (s_q s) h = unat h mod 2 ^ order" using queue_idx_mod [of "s_q s" h] D(1,2) by simp
  have lt: "unat h mod 2 ^ order < length (q_d (s_q s))" using D(3) by simp
  then show "\<exists>d. poke (q_d (s_q s)) (queue_idx (s_q s) h) [p] = Some d" unfolding x by (simp add: poke_def)
  show "peek (q_d (s_q s)) (queue_idx (s_q s) h) 1 = Some [q_d (s_q s) ! (unat h mod 2 ^ order)]"
    unfolding x peek_def using lt by (simp add: take_Suc_conv_app_nth)
qed

lemma thread_step_total:
  assumes "queue_inv order s"
  shows "\<exists>q' c'. thread_step (s_q s) (s_pc s t) = Some (q', c')"
proof (cases "s_pc s t")
  case (PClaimed h p)
  then show ?thesis using step_enabled(3) [OF assms, of h p] by auto
qed (use step_enabled(1,2,5) [OF assms] in auto)

lemma thread_step_inv:
  assumes i: "queue_inv order s" and st: "thread_step (s_q s) (s_pc s t) = Some (q', c')"
    and b: "length (s_in s @ log_in (s_pc s t) c') < 2 ^ 32"
  shows "queue_inv order \<lparr>s_q = q', s_pc = (s_pc s)(t := c'), s_in = s_in s @ log_in (s_pc s t) c', s_out = s_out s @ log_out (s_pc s t)\<rparr>"
    (is "queue_inv order ?s")
proof -
  note D = queue_invD [OF i] and E = step_enabled [OF i]
  have local: "queue_inv order ?s"
    if "q' = s_q s" "log_in (s_pc s t) c' = []" "log_out (s_pc s t) = []" "p_ticket c' = p_ticket (s_pc s t)" "c_ticket c' = c_ticket (s_pc s t)"
      "pc_ok s c'"
    using inv_local [OF i that(4-6)] that(1-3) by (cases s) simp
  have b': "length (s_in s) < 2 ^ 32" using b by simp
  show ?thesis
  proof (cases "s_pc s t")
    case (PRead h p)
    then show ?thesis
    proof (cases "q_prod_head (s_q s) = h")
      case True
      then have "?s = s\<lparr>s_q := (s_q s)\<lparr>q_prod_head := h + 1\<rparr>, s_pc := (s_pc s)(t := PClaimed h p), s_in := s_in s @ [p]\<rparr>"
        using st PRead by (auto simp: log_in_def log_out_def)
      then show ?thesis using inv_produce_claim [OF i PRead True] b st PRead True by (auto simp: log_in_def)
    next
      case False
      then show ?thesis using st PRead by (intro local) (auto simp: log_in_def log_out_def pc_ok_def)
    qed
  next
    case (PClaimed h p)
    obtain d where d: "poke (q_d (s_q s)) (unat h mod 2 ^ order) [p] = Some d" using E(3,4) [of h] by auto
    then have "?s = s\<lparr>s_q := (s_q s)\<lparr>q_d := d\<rparr>, s_pc := (s_pc s)(t := PWait h)\<rparr>"
      using st PClaimed E(4) [of h] by (auto simp: log_in_def log_out_def)
    then show ?thesis using inv_produce_write [OF i PClaimed d] by simp
  next
    case (PCommit h)
    then have "?s = s\<lparr>s_q := (s_q s)\<lparr>q_prod_tail := h + 1\<rparr>, s_pc := (s_pc s)(t := PDone True)\<rparr>"
      using st by (auto simp: log_in_def log_out_def)
    then show ?thesis using inv_produce_commit [OF i PCommit b'] by simp
  next
    case (CRead h)
    then show ?thesis
    proof (cases "q_cons_head (s_q s) = h")
      case True
      then have "?s = s\<lparr>s_q := (s_q s)\<lparr>q_cons_head := h + 1\<rparr>, s_pc := (s_pc s)(t := CClaimed h)\<rparr>"
        using st CRead by (auto simp: log_in_def log_out_def)
      then show ?thesis using inv_consume_claim [OF i CRead True b'] by simp
    next
      case False
      then show ?thesis using st CRead by (intro local) (auto simp: log_in_def log_out_def pc_ok_def)
    qed
  next
    case (CClaimed h)
    have "unat (q_cons_tail (s_q s)) \<le> unat h" "unat h < unat (q_cons_head (s_q s))"
      using ticketsD(1) [OF D(11), of t "unat h"] CClaimed by simp_all
    then have "q_d (s_q s) ! (unat h mod 2 ^ order) = s_in s ! unat h" using D(12) [of "unat h"] D(5) by simp
    then show ?thesis using st CClaimed E(5) [of h] by (intro local) (auto simp: log_in_def log_out_def pc_ok_def)
  next
    case (CCommit h p)
    then have "?s = s\<lparr>s_q := (s_q s)\<lparr>q_cons_tail := h + 1\<rparr>, s_pc := (s_pc s)(t := CDone p), s_out := s_out s @ [p]\<rparr>"
      using st by (auto simp: log_in_def log_out_def)
    then show ?thesis using inv_consume_commit [OF i CCommit b'] by simp
  next
    case (PStart p)
    then show ?thesis using st E(1) D(1) by (intro local) (auto simp: log_in_def log_out_def pc_ok_def split: if_splits)
  next
    case CStart
    have "unat (q_cons_head (s_q s)) < unat (q_prod_tail (s_q s))" if "q_cons_head (s_q s) \<noteq> q_prod_tail (s_q s)"
      using that D(5) by (simp add: word_unat_eq_iff)
    then show ?thesis using st CStart by (intro local) (auto simp: log_in_def log_out_def pc_ok_def split: if_splits)
  next
    case (PWait h)
    have ok: "pc_ok s (PWait h)" using D(13) [of t] PWait by simp
    have "q' = s_q s" "c' = PWait h \<or> c' = PCommit h \<and> h = q_prod_tail (s_q s)" using st PWait by (auto split: if_splits)
    then show ?thesis using PWait ok by (intro local) (auto simp: log_in_def log_out_def pc_ok_def)
  next
    case (CWait h p)
    have ok: "pc_ok s (CWait h p)" using D(13) [of t] CWait by simp
    have "q' = s_q s" "c' = CWait h p \<or> c' = CCommit h p \<and> h = q_cons_tail (s_q s)" using st CWait by (auto split: if_splits)
    then show ?thesis using CWait ok by (intro local) (auto simp: log_in_def log_out_def pc_ok_def)
  next
    case Idle
    then show ?thesis using st by (intro local) (auto simp: log_in_def log_out_def pc_ok_def)
  next
    case (PDone b)
    then show ?thesis using st by (intro local) (auto simp: log_in_def log_out_def pc_ok_def)
  next
    case (CDone p)
    then show ?thesis using st by (intro local) (auto simp: log_in_def log_out_def pc_ok_def)
  qed
qed

lemma start_inv: "order < 32 \<Longrightarrow> queue_inv order (queue_start order)"
  by (simp add: queue_inv_def queue_start_def queue_init_def tickets_def pc_ok_def Let_def)

lemma reach_inv:
  "queue_reach order s \<Longrightarrow> order < 32 \<Longrightarrow> length (s_in s) < 2 ^ 32 \<Longrightarrow> queue_inv order s"
proof (induction rule: queue_reach.induct)
  case start
  then show ?case by (intro start_inv)
next
  case (call_enqueue s t p)
  then show ?case using inv_local [of order s "PStart p" t] by (simp add: pc_ok_def)
next
  case (call_dequeue s t)
  then show ?case using inv_local [of order s CStart t] by (simp add: pc_ok_def)
next
  case (step s t q' c')
  then show ?case using thread_step_inv [of order s t q' c'] by simp
qed

section \<open>Properties\<close>


lemma reach_enqueue_one:
  "queue_reach 0 \<lparr>s_q = (queue_init 0)\<lparr>q_prod_head := 1\<rparr>, s_pc = (\<lambda>_. Idle)(0 := PClaimed 0 5), s_in = [5], s_out = []\<rparr>"
proof -
  have 1: "queue_reach 0 (queue_start 0\<lparr>s_pc := (s_pc (queue_start 0))(0 := PStart 5)\<rparr>)"
    by (intro queue_reach.call_enqueue queue_reach.start) (simp add: queue_start_def)
  have 2: "queue_reach 0 \<lparr>s_q = queue_init 0, s_pc = (\<lambda>_. Idle)(0 := PRead 0 5), s_in = [], s_out = []\<rparr>"
    using queue_reach.step [OF 1, of 0 "queue_init 0" "PRead 0 5"]
    by (simp add: queue_start_def queue_init_def queue_size_def log_in_def log_out_def)
  show ?thesis
    using queue_reach.step [OF 2, of 0 "(queue_init 0)\<lparr>q_prod_head := 1\<rparr>" "PClaimed 0 5"]
    by (simp add: queue_init_def log_in_def log_out_def)
qed


text \<open>A step of a thread that is not just another round of a waiting loop.\<close>

definition moves :: "qstate \<Rightarrow> nat \<Rightarrow> bool" where
  "moves s t \<longleftrightarrow> s_pc s t \<noteq> Idle \<and> (\<exists>q' c'. thread_step (s_q s) (s_pc s t) = Some (q', c') \<and> c' \<noteq> s_pc s t)"

lemma stuck_waits:
  assumes i: "queue_inv order s" and t: "s_pc s t \<noteq> Idle" "\<not> moves s t"
  shows "(\<exists>h. s_pc s t = PWait h \<and> h \<noteq> q_prod_tail (s_q s)) \<or> (\<exists>h p. s_pc s t = CWait h p \<and> h \<noteq> q_cons_tail (s_q s))"
proof -
  obtain q' c' where st: "thread_step (s_q s) (s_pc s t) = Some (q', c')" using thread_step_total [OF i, of t] by blast
  then have "c' = s_pc s t" using t by (auto simp: moves_def)
  then show ?thesis using st t(1)
    by (cases "s_pc s t") (auto split: if_splits Option.bind_splits)
qed

text \<open>The thread that holds the oldest uncommitted ticket is not waiting.\<close>

lemma oldest_moves:
  assumes i: "queue_inv order s"
  shows "p_ticket (s_pc s u) = Some (unat (q_prod_tail (s_q s))) \<Longrightarrow> moves s u"
    and "c_ticket (s_pc s u) = Some (unat (q_cons_tail (s_q s))) \<Longrightarrow> moves s u"
proof -
  show "moves s u" if u: "p_ticket (s_pc s u) = Some (unat (q_prod_tail (s_q s)))"
  proof (rule ccontr)
    assume "\<not> moves s u"
    moreover have "s_pc s u \<noteq> Idle" using u by auto
    ultimately show False using stuck_waits [OF i, of u] u by (auto simp: word_unat_eq_iff)
  qed
  show "moves s u" if u: "c_ticket (s_pc s u) = Some (unat (q_cons_tail (s_q s)))"
  proof (rule ccontr)
    assume "\<not> moves s u"
    moreover have "s_pc s u \<noteq> Idle" using u by auto
    ultimately show False using stuck_waits [OF i, of u] u by (auto simp: word_unat_eq_iff)
  qed
qed



end
