(* ===== verification/Text.thy ===== *)
theory Text
  imports Buffer_Search
begin

text \<open>
  The text functions of \<^verbatim>\<open>kernel/src/runtime/text.h\<close>: hexadecimal digits, UTF-8 and the
  reading of numbers, and the printing of numbers by \<^verbatim>\<open>runtime_init.c\<close>. A \<^verbatim>\<open>character\<close> is a
  32-bit word; a \<^verbatim>\<open>char\<close> is signed, as on x86-64. A string is a pointer with a length, here the
  bytes from the pointer on and the length. The last section shows that what is printed is what is
  read back, for characters and for signed and unsigned numbers in every base up to 16.
\<close>

section \<open>Characters\<close>

definition CHARACTER_INVALID :: u32 where
  "CHARACTER_INVALID = 0xffffffff"

definition digit_of :: "u32 \<Rightarrow> int" where
  "digit_of x =
     (if x \<le> 0x66 \<and> x \<ge> 0x61 then uint (x - 0x61 + 10)
      else if x \<le> 0x46 \<and> x \<ge> 0x41 then uint (x - 0x41 + 10)
      else if x \<le> 0x39 \<and> x \<ge> 0x30 then uint (x - 0x30)
      else - 1)"

definition byte_from_hex :: "u32 \<Rightarrow> u32 \<Rightarrow> int" where
  "byte_from_hex msn lsn =
     (let n1 = digit_of msn; n2 = digit_of lsn in
      if n1 < 0 \<or> n2 < 0 then - 1 else push_bit 4 n1 OR n2)"

text \<open>The loop over \<open>i\<close> with \<open>n - i\<close> rounds to go; a \<^verbatim>\<open>char\<close> is extended with its sign.\<close>

fun hex_cmp_from :: "u8 list \<Rightarrow> u8 list \<Rightarrow> nat \<Rightarrow> nat \<Rightarrow> int option" where
  "hex_cmp_from buf hex i 0 = Some 0"
| "hex_cmp_from buf hex i (Suc n) =
     do { h1 \<leftarrow> load_byte hex (2 * i);
          h2 \<leftarrow> load_byte hex (2 * i + 1);
          let b = byte_from_hex (scast h1) (scast h2);
          if b < 0 then Some b
          else do {
            x \<leftarrow> load_byte buf i;
            if (word_of_int b :: u8) \<noteq> x then Some (uint x - b) else hex_cmp_from buf hex (Suc i) n } }"

definition buf_hex_cmp :: "u8 list \<Rightarrow> u8 list \<Rightarrow> nat \<Rightarrow> int option" where
  "buf_hex_cmp buf hex n = hex_cmp_from buf hex 0 n"

definition utf8_length :: "u8 \<Rightarrow> nat" where
  "utf8_length x =
     (if NOT x AND 0x80 \<noteq> 0 then 1
      else if x AND 0xe0 = 0xc0 then 2
      else if x AND 0xf0 = 0xe0 then 3
      else if x AND 0xf8 = 0xf0 then 4
      else 1)"

text \<open>A string ends at its first zero byte; without one the loop leaves the area.\<close>

fun string_character_length :: "u8 list \<Rightarrow> nat option" where
  "string_character_length [] = None"
| "string_character_length (x # xs) =
     (if x = 0 then Some 0
      else do {
        j \<leftarrow> string_character_length xs;
        Some (if x AND 0xc0 \<noteq> 0x80 then j + 1 else j) })"

fun continue_character :: "u8 list \<Rightarrow> u32 \<Rightarrow> nat \<Rightarrow> nat \<Rightarrow> u32 option" where
  "continue_character p c i 0 = Some c"
| "continue_character p c i (Suc n) =
     do { x \<leftarrow> load_byte p i; continue_character p (push_bit 6 c OR (scast x AND 0x3f)) (Suc i) n }"

definition utf8_decode :: "u8 list \<times> u64 \<Rightarrow> (u32 \<times> nat) option" where
  "utf8_decode x =
     (case x of (p, l) \<Rightarrow>
       if l = 0 then Some (CHARACTER_INVALID, 0)
       else do {
         x0 \<leftarrow> load_byte p 0;
         let len = utf8_length x0;
         if l < of_nat len then Some (CHARACTER_INVALID, 0)
         else do {
           let c = (if len = 1 then scast x0
                    else if len = 2 then scast x0 AND 0x3f
                    else if len = 3 then scast x0 AND 0x1f
                    else scast x0 AND 0xf);
           c' \<leftarrow> continue_character p c 1 (len - 1);
           Some (c', len) } })"

text \<open>\<^verbatim>\<open>a && b\<close> on writes that may fail: the second write runs only if the first succeeded.\<close>

fun write_all :: "buffer \<Rightarrow> u8 list \<Rightarrow> (bool \<times> buffer) option" where
  "write_all s [] = Some (True, s)"
| "write_all s (x # xs) =
     do { (ok, s') \<leftarrow> buffer_write_byte s x; if ok then write_all s' xs else Some (False, s') }"

definition push_character :: "buffer \<Rightarrow> u32 \<Rightarrow> (bool \<times> buffer) option" where
  "push_character s c =
     (if c < 0x80 then write_all s [ucast c]
      else if c < 0x800 then
        write_all s [ucast (0xc0 OR drop_bit 6 c), ucast (0x80 OR (c AND 0x3f))]
      else if c < 0x10000 then
        write_all s [ucast (0xe0 OR drop_bit 12 c), ucast (0x80 OR (drop_bit 6 c AND 0x3f)),
                     ucast (0x80 OR (c AND 0x3f))]
      else if c < 0x110000 then
        write_all s [ucast (0xf0 OR drop_bit 18 c), ucast (0x80 OR (drop_bit 12 c AND 0x3f)),
                     ucast (0x80 OR (drop_bit 6 c AND 0x3f)), ucast (0x80 OR (c AND 0x3f))]
      else Some (False, s))"

definition pop_character :: "buffer \<Rightarrow> (u32 \<times> buffer) option" where
  "pop_character b =
     do { s \<leftarrow> buffer_to_sstring b;
          (c, z) \<leftarrow> utf8_decode s;
          Some (c, b\<lparr>b_start := b_start b + of_nat z\<rparr>) }"

text \<open>The bytes stored at the destination are returned with the result.\<close>

partial_function (option) read_cstring_loop ::
  "buffer \<Rightarrow> u8 list \<Rightarrow> u64 \<Rightarrow> u64 \<Rightarrow> (bool \<times> u8 list \<times> buffer) option" where
  "read_cstring_loop b dest maxlen cnt =
     (if buffer_length b = 0 then Some (False, dest, b)
      else do {
        p \<leftarrow> buffer_ref b 0;
        c \<leftarrow> load_byte (b_contents b) (unat p);
        let len = of_nat (utf8_length c);
        if len > maxlen - cnt then Some (False, dest, b)
        else do {
          r \<leftarrow> buffer_read b len;
          case r of
            Inl b' \<Rightarrow> Some (False, dest, b')
          | Inr (bs, b') \<Rightarrow>
              (if c \<noteq> 0 then read_cstring_loop b' (dest @ bs) maxlen (cnt + len)
               else Some (True, dest @ bs, b')) } })"

definition read_cstring :: "buffer \<Rightarrow> u64 \<Rightarrow> (bool \<times> u8 list \<times> buffer) option" where
  "read_cstring b maxlen = read_cstring_loop b [] maxlen 0"

text \<open>The last position at which the character is decoded; decoding stops at the first failure.\<close>

partial_function (option) find_r_loop ::
  "u8 list \<times> u64 \<Rightarrow> u32 \<Rightarrow> u64 \<Rightarrow> u64 option \<Rightarrow> u64 option option" where
  "find_r_loop x c offset found =
     do { (decoded, nbytes) \<leftarrow> utf8_decode (drop (unat offset) (fst x), snd x - offset);
          if decoded = CHARACTER_INVALID then Some found
          else find_r_loop x c (offset + of_nat nbytes) (if decoded = c then Some offset else found) }"

definition utf8_find_r :: "u8 list \<times> u64 \<Rightarrow> u32 \<Rightarrow> u64 option option" where
  "utf8_find_r x c = find_r_loop x c 0 None"

section \<open>Numbers\<close>

partial_function (option) parse_int_loop ::
  "buffer \<Rightarrow> u32 \<Rightarrow> bool \<Rightarrow> u64 \<Rightarrow> (bool \<times> u64 \<times> buffer) option" where
  "parse_int_loop b base st result =
     (if buffer_length b = 0 then Some (st, result, b)
      else do {
        p \<leftarrow> buffer_ref b 0;
        x \<leftarrow> load_byte (b_contents b) (unat p);
        let v = digit_of (ucast x);
        if v \<ge> 0 \<and> (word_of_int v :: u32) < base then do {
          (_, b') \<leftarrow> pop_u8 b;
          parse_int_loop b' base True (result * ucast base + word_of_int v) }
        else Some (st, result, b) })"

definition parse_int :: "buffer \<Rightarrow> u32 \<Rightarrow> (bool \<times> u64 \<times> buffer) option" where
  "parse_int b base = parse_int_loop b base False 0"

definition is_signed_int_string :: "buffer \<Rightarrow> bool option" where
  "is_signed_int_string b =
     (if buffer_length b > 0 then do {
        p \<leftarrow> buffer_ref b 0; x \<leftarrow> load_byte (b_contents b) (unat p); Some (x = 0x2d) }
      else Some False)"

definition parse_signed_int :: "buffer \<Rightarrow> u32 \<Rightarrow> (bool \<times> u64 \<times> buffer) option" where
  "parse_signed_int b base =
     do { neg \<leftarrow> is_signed_int_string b;
          b1 \<leftarrow> (if neg then do { (_, b') \<leftarrow> pop_u8 b; Some b' } else Some b);
          (ok, result, b2) \<leftarrow> parse_int b1 base;
          if \<not> ok then Some (False, result, b2)
          else Some (True, result * (if neg then - 1 else 1), b2) }"

definition hex_digits :: "u8 list" where
  "hex_digits = [0x30, 0x31, 0x32, 0x33, 0x34, 0x35, 0x36, 0x37, 0x38, 0x39,
     0x61, 0x62, 0x63, 0x64, 0x65, 0x66]"

definition hex_digits_upper :: "u8 list" where
  "hex_digits_upper = [0x30, 0x31, 0x32, 0x33, 0x34, 0x35, 0x36, 0x37, 0x38, 0x39,
     0x41, 0x42, 0x43, 0x44, 0x45, 0x46]"

fun push_nibbles :: "buffer \<Rightarrow> u64 \<Rightarrow> nat \<Rightarrow> buffer option" where
  "push_nibbles b s 0 = Some b"
| "push_nibbles b s (Suc n) =
     do { d \<leftarrow> load_byte hex_digits (unat (drop_bit (4 * n) s AND 0xf));
          b' \<leftarrow> push_u8 b d;
          push_nibbles b' s n }"

text \<open>The bytes that \<^verbatim>\<open>print_u64\<close> sends to the console; \<open>stack\<close> is the area of the local buffer.\<close>

definition print_u64 :: "heap \<Rightarrow> u8 list \<Rightarrow> u64 \<Rightarrow> buffer option" where
  "print_u64 h stack s = push_nibbles (little_stack_buffer h stack) s 16"

text \<open>\<^verbatim>\<open>base\<close> is a positive \<^verbatim>\<open>int\<close>; a division by zero traps.\<close>

partial_function (option) print_number :: "buffer \<Rightarrow> u64 \<Rightarrow> u64 \<Rightarrow> int \<Rightarrow> bool \<Rightarrow> buffer option" where
  "print_number s x base pad upper =
     do { assert_ok (base \<noteq> 0);
          let q = x div base;
          let r = x mod base;
          s' \<leftarrow> (if q > 0 \<or> pad > 1 then print_number s q base (pad - 1) upper else Some s);
          d \<leftarrow> load_byte (if upper then hex_digits_upper else hex_digits) (unat r);
          push_u8 s' d }"

text \<open>\<open>x\<close> is the bit pattern of the \<^verbatim>\<open>s64\<close> argument.\<close>

definition print_signed_number :: "buffer \<Rightarrow> u64 \<Rightarrow> u64 \<Rightarrow> int \<Rightarrow> bool \<Rightarrow> buffer option" where
  "print_signed_number s x base pad upper =
     do { s' \<leftarrow> (if x <s 0 then push_u8 s 0x2d else Some s);
          print_number s' (if x <s 0 then - x else x) base pad upper }"

section \<open>Reading and writing of buffers\<close>

lemma first_byte:
  assumes "wf_buffer b" "bytes_of b = x # rest"
  shows "buffer_ref b 0 = Some (b_start b)" "load_byte (b_contents b) (unat (b_start b)) = Some x"
    "buffer_length b \<noteq> 0"
proof -
  show "buffer_ref b 0 = Some (b_start b)" by (rule ref_start [OF assms(1)])
  show "load_byte (b_contents b) (unat (b_start b)) = Some x"
    using byte_bytes [OF assms(1), of 0] assms(2) by (simp add: byte_def)
  show "buffer_length b \<noteq> 0"
    using unat_buffer_length [OF assms(1)] assms(2) by (auto simp: unat_eq_0)
qed

lemma no_bytes: "wf_buffer b \<Longrightarrow> bytes_of b = [] \<Longrightarrow> buffer_length b = 0"
  using unat_buffer_length [of b] by (simp add: unat_eq_0)

lemma write_all_correct:
  "\<lbrakk>wf_buffer b; roomy b (length xs + n)\<rbrakk> \<Longrightarrow>
   \<exists>b'. write_all b xs = Some (True, b') \<and> written b xs b' \<and> roomy b' n"
proof (induction xs arbitrary: b)
  case (Cons x xs)
  then obtain b1 where b1: "push_u8 b x = Some b1" "written b [x] b1" "roomy b1 (length xs + n)"
    using push_u8_correct [of b "length xs + n" x] by auto
  moreover have "buffer_write_byte b x = Some (True, b1)"
    using buffer_write_byte_push [of b "length xs + n" x] Cons.prems b1(1) by simp
  moreover obtain b2 where "write_all b1 xs = Some (True, b2)" "written b1 xs b2" "roomy b2 n"
    using Cons.IH [OF written_wf [OF b1(2)] b1(3)] by blast
  ultimately show ?case using written_trans [OF b1(2)] by fastforce
qed simp

section \<open>Bytes as signed characters\<close>

lemma scast_byte_eq: "(scast (x :: u8) :: u64) = scast y \<longleftrightarrow> x = y"
proof
  assume eq: "(scast x :: u64) = scast y"
  show "x = y"
  proof (rule bit_word_eqI)
    fix n assume "n < LENGTH(8)"
    then show "bit x n = bit y n"
      using arg_cong [OF eq, of "\<lambda>w. bit w n"] by (cases "n = 7") (auto simp: bit_simps min_def split: if_splits)
  qed
qed simp

section \<open>UTF-8\<close>

text \<open>The encoding of a character as a list of bytes.\<close>

definition utf8_bytes :: "u32 \<Rightarrow> u8 list" where
  "utf8_bytes c =
     (if c < 0x80 then [ucast c]
      else if c < 0x800 then [ucast (0xc0 OR drop_bit 6 c), ucast (0x80 OR (c AND 0x3f))]
      else if c < 0x10000 then
        [ucast (0xe0 OR drop_bit 12 c), ucast (0x80 OR (drop_bit 6 c AND 0x3f)), ucast (0x80 OR (c AND 0x3f))]
      else [ucast (0xf0 OR drop_bit 18 c), ucast (0x80 OR (drop_bit 12 c AND 0x3f)),
            ucast (0x80 OR (drop_bit 6 c AND 0x3f)), ucast (0x80 OR (c AND 0x3f))])"

lemma push_character_bytes: "c < 0x110000 \<Longrightarrow> push_character s c = write_all s (utf8_bytes c)"
  by (simp add: push_character_def utf8_bytes_def)

lemma bits_below:
  assumes "(c :: u32) < w" "unat w = 2 ^ n" "n \<le> m"
  shows "\<not> bit c m"
proof
  assume bit: "bit c m"
  have "(2::nat) ^ n \<le> 2 ^ m" using assms(3) by simp
  then have "unat c < 2 ^ m" using assms(1,2) unfolding word_less_nat_alt by linarith
  then have "\<not> bit (unat c) m" by (simp add: bit_iff_odd)
  then show False using bit bit_imp_le_length [OF bit] by (simp add: bit_unsigned_iff)
qed

lemma byte_eqI:
  assumes "\<And>m. m \<in> {0, 1, 2, 3, 4, 5, 6, 7} \<Longrightarrow> bit (x :: u8) m = bit y m"
  shows "x = y"
proof (rule bit_word_eqI)
  fix m assume "m < LENGTH(8)"
  then have "m = 0 \<or> m = 1 \<or> m = 2 \<or> m = 3 \<or> m = 4 \<or> m = 5 \<or> m = 6 \<or> m = 7"
    by (simp, arith)
  then show "bit x m = bit y m" using assms by blast
qed

lemma lead_bytes:
  "c < 0x800 \<Longrightarrow> (ucast (0xc0 OR drop_bit 6 c) :: u8) AND 0xe0 = 0xc0"
  "c < 0x10000 \<Longrightarrow> (ucast (0xe0 OR drop_bit 12 c) :: u8) AND 0xf0 = 0xe0"
  "c < 0x110000 \<Longrightarrow> (ucast (0xf0 OR drop_bit 18 c) :: u8) AND 0xf8 = 0xf0" for c :: u32
proof -
  show "(ucast (0xc0 OR drop_bit 6 c) :: u8) AND 0xe0 = 0xc0" if "c < 0x800"
    using bits_below [of c "0x800" 11] that
    by (intro byte_eqI) (auto simp: bit_simps)
  show "(ucast (0xe0 OR drop_bit 12 c) :: u8) AND 0xf0 = 0xe0" if "c < 0x10000"
    using bits_below [of c "0x10000" 16] that
    by (intro byte_eqI) (auto simp: bit_simps)
  show "(ucast (0xf0 OR drop_bit 18 c) :: u8) AND 0xf8 = 0xf0" if "c < 0x110000"
    using bits_below [of c "0x200000" 21] order.strict_trans [OF that, of "0x200000"]
    by (intro byte_eqI) (auto simp: bit_simps)
qed

text \<open>The payload of a byte is what its lower bits say, whatever marks the upper ones carry.\<close>

lemma payload:
  assumes "k AND mask j = 0" "j \<le> 7"
  shows "scast (ucast (k OR d :: u32) :: u8) AND mask j = (d AND mask j :: u32)"
proof (rule bit_word_eqI)
  fix n assume "n < LENGTH(32)"
  moreover have "\<not> bit k n" if "n < j"
    using arg_cong [OF assms(1), of "\<lambda>w. bit w n"] that calculation by (auto simp: bit_simps)
  ultimately show "bit (scast (ucast (k OR d) :: u8) AND mask j :: u32) n = bit (d AND mask j) n"
    using assms(2) by (cases "n < j") (auto simp: bit_simps min_def)
qed

lemma payloads:
  "scast (ucast (0x80 OR (d AND 0x3f) :: u32) :: u8) AND 0x3f = (d AND 0x3f :: u32)"
  "scast (ucast (0xc0 OR d :: u32) :: u8) AND 0x3f = (d AND 0x3f :: u32)"
  "scast (ucast (0xe0 OR d :: u32) :: u8) AND 0x1f = (d AND 0x1f :: u32)"
  "scast (ucast (0xf0 OR d :: u32) :: u8) AND 0xf = (d AND 0xf :: u32)"
  using payload [of "0x80" 6 "d AND 0x3f"] payload [of "0xc0" 6 d] payload [of "0xe0" 5 d] payload [of "0xf0" 4 d]
  by (simp_all add: mask_eq_exp_minus_1 and.assoc)

lemma joined:
  "c < 0x800 \<Longrightarrow> push_bit 6 (drop_bit 6 c AND 0x3f) OR (c AND 0x3f) = c"
  "c < 0x10000 \<Longrightarrow>
     push_bit 6 (push_bit 6 (drop_bit 12 c AND 0x1f) OR (drop_bit 6 c AND 0x3f)) OR (c AND 0x3f) = c"
  "c < 0x200000 \<Longrightarrow>
     push_bit 6 (push_bit 6 (push_bit 6 (drop_bit 18 c AND 0xf) OR (drop_bit 12 c AND 0x3f)) OR
       (drop_bit 6 c AND 0x3f)) OR (c AND 0x3f) = c" for c :: u32
proof -
  have masks: "(0x3f :: u32) = mask 6" "(0x1f :: u32) = mask 5" "(0xf :: u32) = mask 4"
    by (simp_all add: mask_eq_exp_minus_1)
  have top_bit: "m < n" if "c < w" "unat w = 2 ^ n" "bit c m" for w m n
    using bits_below [OF that(1,2), of m] that(3) by (meson not_le_imp_less)
  show "push_bit 6 (drop_bit 6 c AND 0x3f) OR (c AND 0x3f) = c" if "c < 0x800"
    unfolding masks
    apply (intro bit_word_eqI)
    subgoal for n
      by (cases "n < 6"; cases "n < 12"; cases "n < 18") (auto simp: bit_simps not_less dest: top_bit [OF that, of 11, simplified])
    done
  show "push_bit 6 (push_bit 6 (drop_bit 12 c AND 0x1f) OR (drop_bit 6 c AND 0x3f)) OR (c AND 0x3f) = c"
    if "c < 0x10000"
    unfolding masks
    apply (intro bit_word_eqI)
    subgoal for n
      by (cases "n < 6"; cases "n < 12"; cases "n < 18") (auto simp: bit_simps not_less dest: top_bit [OF that, of 16, simplified])
    done
  show "push_bit 6 (push_bit 6 (push_bit 6 (drop_bit 18 c AND 0xf) OR (drop_bit 12 c AND 0x3f)) OR
       (drop_bit 6 c AND 0x3f)) OR (c AND 0x3f) = c" if "c < 0x200000"
    unfolding masks
    apply (intro bit_word_eqI)
    subgoal for n
      by (cases "n < 6"; cases "n < 12"; cases "n < 18") (auto simp: bit_simps not_less dest: top_bit [OF that, of 21, simplified])
    done
qed

lemma clear_top: "NOT x AND 0x80 = 0 \<longleftrightarrow> bit (x :: u8) 7"
  using bit_iff_and_push_bit_not_eq_0 [of "NOT x" 7] by (simp add: bit_not_iff)

lemma utf8_length_lead:
  "x AND 0xe0 = 0xc0 \<Longrightarrow> utf8_length x = 2"
  "x AND 0xf0 = 0xe0 \<Longrightarrow> utf8_length x = 3"
  "x AND 0xf8 = 0xf0 \<Longrightarrow> utf8_length x = 4"
proof -
  have bits: "bit (x AND m) j = (bit x j \<and> bit m j)" for m j by (simp add: bit_and_iff)
  show "utf8_length x = 2" if "x AND 0xe0 = 0xc0"
    using bits [of "0xe0" 7] that by (simp add: utf8_length_def clear_top)
  show "utf8_length x = 3" if "x AND 0xf0 = 0xe0"
    using bits [of "0xf0" 7] bits [of "0xf0" 5] bits [of "0xe0" 5] that
    by (auto simp: utf8_length_def clear_top)
  show "utf8_length x = 4" if "x AND 0xf8 = 0xf0"
    using bits [of "0xf8" 7] bits [of "0xf8" 5] bits [of "0xe0" 5] bits [of "0xf8" 4] bits [of "0xf0" 4] that
    by (auto simp: utf8_length_def clear_top)
qed

lemma utf8_length_ascii: "c < 0x80 \<Longrightarrow> utf8_length (ucast (c :: u32)) = 1"
  using bits_below [of c "0x80" 7 7] clear_top [of "ucast c"] by (simp add: utf8_length_def bit_simps)

lemma ascii_signed: "c < 0x80 \<Longrightarrow> scast (ucast (c :: u32) :: u8) = c"
  using bits_below [of c "0x80" 7]
  by (intro bit_word_eqI) (auto simp: bit_simps min_def not_le split: if_splits)

lemma load_byte_simps [simp]:
  "load_byte (x # xs) 0 = Some x" "load_byte (x # xs) (Suc i) = load_byte xs i"
  "load_byte (x # xs) (numeral k) = load_byte xs (pred_numeral k)"
  by (simp_all add: load_byte_def numeral_eq_Suc)

lemma continue_character_numeral [simp]:
  "continue_character p c i (numeral k) =
     do { x \<leftarrow> load_byte p i; continue_character p (push_bit 6 c OR (scast x AND 0x3f)) (Suc i) (pred_numeral k) }"
  by (simp add: numeral_eq_Suc)

lemma utf8_decode_lead:
  assumes "0 < utf8_length x0" "utf8_length x0 \<le> unat l"
  shows "utf8_decode (x0 # xs, l) =
    map_option (\<lambda>c. (c, utf8_length x0))
      (continue_character (x0 # xs)
        (if utf8_length x0 = 1 then scast x0 else if utf8_length x0 = 2 then scast x0 AND 0x3f
         else if utf8_length x0 = 3 then scast x0 AND 0x1f else scast x0 AND 0xf) 1 (utf8_length x0 - 1))"
proof -
  have "l \<noteq> 0" using assms unat_gt_0 [of l] by auto
  moreover have "\<not> l < of_nat (utf8_length x0)"
    using assms(2) unat_of_nat_u64 [of "utf8_length x0"] unat_u64_less [of l] by (simp add: word_less_nat_alt)
  ultimately show ?thesis
    by (simp add: utf8_decode_def map_conv_bind_option comp_def Let_def)
qed

lemma utf8_decode_bytes:
  assumes "c < 0x110000" "length (utf8_bytes c) \<le> unat l"
  shows "utf8_decode (utf8_bytes c @ rest, l) = Some (c, length (utf8_bytes c))"
proof -
  have "c < 0x200000" using order.strict_trans [OF assms(1), of "0x200000"] by simp
  note facts = this assms utf8_length_lead(1) [OF lead_bytes(1)] utf8_length_lead(2) [OF lead_bytes(2)]
    utf8_length_lead(3) [OF lead_bytes(3)] utf8_decode_lead payloads joined utf8_length_ascii ascii_signed
  consider "c < 0x80" | "\<not> c < 0x80" "c < 0x800" | "\<not> c < 0x80" "\<not> c < 0x800" "c < 0x10000"
    | "\<not> c < 0x80" "\<not> c < 0x800" "\<not> c < 0x10000" by blast
  then show ?thesis
    by cases (use facts in \<open>simp_all add: utf8_bytes_def del: push_bit_and push_bit_or\<close>)
qed

lemma sstring_bytes:
  assumes "wf_buffer b"
  shows "\<exists>more. buffer_to_sstring b = Some (bytes_of b @ more, buffer_length b)"
proof -
  have "drop (unat (b_start b)) (b_contents b) =
      bytes_of b @ drop (unat (b_end b) - unat (b_start b)) (drop (unat (b_start b)) (b_contents b))"
    unfolding bytes_of_def by (rule append_take_drop_id [symmetric])
  then show ?thesis using ref_start [OF assms] by (auto simp: buffer_to_sstring_def)
qed

lemma pop_character_bytes:
  assumes "wf_buffer b" "bytes_of b = utf8_bytes c @ rest" "c < 0x110000"
  shows "\<exists>b'. pop_character b = Some (c, b') \<and> wf_buffer b' \<and> bytes_of b' = rest"
proof -
  obtain more where more: "buffer_to_sstring b = Some (utf8_bytes c @ rest @ more, buffer_length b)"
    using sstring_bytes [OF assms(1)] assms(2) by auto
  have "length (utf8_bytes c) \<le> unat (buffer_length b)" using unat_buffer_length [OF assms(1)] assms(2) by simp
  from utf8_decode_bytes [OF assms(3) this, of "rest @ more"] show ?thesis
    using more consume_correct(2,3) [OF assms(1), of "length (utf8_bytes c)"] assms(2)
    by (simp add: pop_character_def)
qed

lemma push_character_correct:
  assumes "wf_buffer b" "roomy b (length (utf8_bytes c) + n)" "c < 0x110000"
  shows "\<exists>b'. push_character b c = Some (True, b') \<and> written b (utf8_bytes c) b' \<and> roomy b' n"
  using write_all_correct [OF assms(1,2)] assms(3) by (simp add: push_character_bytes)

lemma roomy_mono: "roomy b n \<Longrightarrow> k \<le> n \<Longrightarrow> roomy b k"
  by (auto simp: roomy_def)

lemma utf8_bytes_length: "length (utf8_bytes c) \<le> 4"
  by (simp add: utf8_bytes_def)

text \<open>A text as a sequence of characters, pushed one by one and popped one by one.\<close>

fun push_text :: "buffer \<Rightarrow> u32 list \<Rightarrow> buffer option" where
  "push_text b [] = Some b"
| "push_text b (c # cs) = do { (ok, b') \<leftarrow> push_character b c; assert_ok ok; push_text b' cs }"

fun pop_text :: "buffer \<Rightarrow> nat \<Rightarrow> (u32 list \<times> buffer) option" where
  "pop_text b 0 = Some ([], b)"
| "pop_text b (Suc n) = do { (c, b') \<leftarrow> pop_character b; (cs, b'') \<leftarrow> pop_text b' n; Some (c # cs, b'') }"

lemma push_text_correct:
  "\<lbrakk>wf_buffer b; roomy b (4 * length cs); \<forall>c\<in>set cs. c < 0x110000\<rbrakk> \<Longrightarrow>
   \<exists>b'. push_text b cs = Some b' \<and> written b (concat (map utf8_bytes cs)) b'"
proof (induction cs arbitrary: b)
  case (Cons c cs)
  have "roomy b (length (utf8_bytes c) + 4 * length cs)"
    using roomy_mono [OF Cons.prems(2)] utf8_bytes_length [of c] by simp
  then obtain b1 where b1: "push_character b c = Some (True, b1)" "written b (utf8_bytes c) b1" "roomy b1 (4 * length cs)"
    using push_character_correct [OF Cons.prems(1), of c "4 * length cs"] Cons.prems(3) by auto
  then obtain b2 where "push_text b1 cs = Some b2" "written b1 (concat (map utf8_bytes cs)) b2"
    using Cons.IH [OF written_wf [OF b1(2)] b1(3)] Cons.prems(3) by auto
  then show ?case using b1 written_trans [OF b1(2)] by fastforce
qed simp

lemma pop_text_correct:
  "\<lbrakk>wf_buffer b; bytes_of b = concat (map utf8_bytes cs) @ rest; \<forall>c\<in>set cs. c < 0x110000\<rbrakk> \<Longrightarrow>
   \<exists>b'. pop_text b (length cs) = Some (cs, b') \<and> wf_buffer b' \<and> bytes_of b' = rest"
proof (induction cs arbitrary: b)
  case (Cons c cs)
  then obtain b1 where b1: "pop_character b = Some (c, b1)" "wf_buffer b1"
      "bytes_of b1 = concat (map utf8_bytes cs) @ rest"
    using pop_character_bytes [of b c "concat (map utf8_bytes cs) @ rest"] by auto
  then show ?case using Cons.IH [OF b1(2,3)] Cons.prems(3) by auto
qed simp

section \<open>Digits\<close>

text \<open>The digits of \<open>x\<close>, most significant first, padded with zeros to \<open>pad\<close> places.\<close>

function number_digits :: "nat \<Rightarrow> nat \<Rightarrow> nat \<Rightarrow> nat list" where
  "number_digits base pad x =
     (if base < 2 then []
      else (if x div base > 0 \<or> pad > 1 then number_digits base (pad - 1) (x div base) else []) @ [x mod base])"
  by auto
termination
proof (relation "measure (\<lambda>(base, pad, x). pad + x)", goal_cases)
  case (2 base pad x)
  have "x div base \<le> x" by simp
  moreover have "x div base < x" if "0 < x" using 2 that by (simp add: div_less_dividend)
  moreover have "0 < x" if "0 < x div base" using that by (cases x) simp_all
  ultimately have "pad - 1 + x div base < pad + x" using 2(2) by (metis add_le_less_mono add_less_le_mono diff_le_self diff_less less_trans zero_less_one)
  then show ?case by simp
qed simp

declare number_digits.simps [simp del]

definition digit_char :: "bool \<Rightarrow> nat \<Rightarrow> u8" where
  "digit_char upper d = (if upper then hex_digits_upper else hex_digits) ! d"

lemma number_digits_below: "2 \<le> base \<Longrightarrow> d \<in> set (number_digits base pad x) \<Longrightarrow> d < base"
  by (induction base pad x rule: number_digits.induct)
    (subst (asm) (2) number_digits.simps, auto split: if_splits)

lemma number_digits_value:
  "2 \<le> base \<Longrightarrow> foldl (\<lambda>a d. a * base + d) 0 (number_digits base pad x) = x"
proof (induction base pad x rule: number_digits.induct)
  case (1 base pad x)
  then show ?case by (subst number_digits.simps) (auto simp: div_mult_mod_eq div_eq_0_iff)
qed

lemma number_digits_length:
  "\<lbrakk>2 \<le> base; x < base ^ k; 0 < k\<rbrakk> \<Longrightarrow> length (number_digits base pad x) \<le> max pad k"
proof (induction base pad x arbitrary: k rule: number_digits.induct)
  case (1 base pad x)
  show ?case
  proof (cases "x div base > 0 \<or> pad > 1")
    case True
    have le: "length (number_digits base (pad - 1) (x div base)) < max pad k"
    proof (cases "k = 1")
      case one: True
      then have "x div base = 0" using 1(3) by simp
      then show ?thesis using 1(1) [OF _ True, of 1] 1(2) True one by auto
    next
      case False
      have "x div base < base ^ (k - 1)"
        using 1(3,4) by (cases k) (auto simp: less_mult_imp_div_less mult.commute)
      then show ?thesis using 1(1) [OF _ True, of "k - 1"] 1(2,4) False by auto
    qed
    then show ?thesis using 1(2) True by (subst number_digits.simps) auto
  next
    case False
    then show ?thesis using 1(4) by (subst number_digits.simps) auto
  qed
qed

section \<open>Printing\<close>

lemma load_digit: "d < 16 \<Longrightarrow> load_byte (if upper then hex_digits_upper else hex_digits) d = Some (digit_char upper d)"
  by (simp add: load_byte_def digit_char_def hex_digits_def hex_digits_upper_def)

lemma print_number_correct:
  assumes "2 \<le> unat base" "unat base \<le> 16"
  shows "\<lbrakk>wf_buffer s; roomy s (length (number_digits (unat base) (nat pad) (unat x)) + n)\<rbrakk> \<Longrightarrow>
    \<exists>s'. print_number s x base pad upper = Some s' \<and>
      written s (map (digit_char upper) (number_digits (unat base) (nat pad) (unat x))) s' \<and> roomy s' n"
proof (induction "unat base" "nat pad" "unat x" arbitrary: s pad x n rule: number_digits.induct)
  case (1 pad x)
  let ?more = "unat x div unat base > 0 \<or> nat pad > 1"
  let ?init = "if ?more then number_digits (unat base) (nat pad - 1) (unat x div unat base) else []"
  have digits: "number_digits (unat base) (nat pad) (unat x) = ?init @ [unat x mod unat base]"
    using assms(1) by (subst number_digits.simps) simp
  have "0 < unat base" using assms(1) by linarith
  then have nz: "base \<noteq> 0" by (simp add: unat_gt_0)
  have q: "unat (x div base) = unat x div unat base" and r: "unat (x mod base) = unat x mod unat base"
    by (simp_all add: unat_div unat_mod)
  have cond: "(x div base > 0 \<or> pad > 1) = ?more"
    using q by (auto simp: word_less_nat_alt)
  have pad: "nat (pad - 1) = nat pad - 1" by simp
  have "\<exists>s1. (if x div base > 0 \<or> pad > 1 then print_number s (x div base) base (pad - 1) upper else Some s) = Some s1 \<and>
      written s (map (digit_char upper) ?init) s1 \<and> roomy s1 (Suc n)"
  proof (cases ?more)
    case True
    have "roomy s (length (number_digits (unat base) (nat pad - 1) (unat x div unat base)) + Suc n)"
      using 1(3) True digits by simp
    then show ?thesis
      unfolding cond
      using True assms(1) 1(1) [OF _ True pad [symmetric] q [symmetric] 1(2), of "Suc n", unfolded q pad] by simp
  next
    case False
    then show ?thesis using 1(2,3) digits cond by auto
  qed
  then obtain s1 where s1: "(if x div base > 0 \<or> pad > 1 then print_number s (x div base) base (pad - 1) upper else Some s) = Some s1"
      "written s (map (digit_char upper) ?init) s1" "roomy s1 (Suc n)" by blast
  have "unat x mod unat base < 16" using assms mod_less_divisor [of "unat base" "unat x"] by linarith
  then have "load_byte (if upper then hex_digits_upper else hex_digits) (unat (x mod base)) = Some (digit_char upper (unat x mod unat base))"
    unfolding r by (rule load_digit)
  moreover obtain s2 where "push_u8 s1 (digit_char upper (unat x mod unat base)) = Some s2"
      "written s1 [digit_char upper (unat x mod unat base)] s2" "roomy s2 n"
    using push_u8_correct [OF written_wf [OF s1(2)] s1(3)] by blast
  ultimately show ?case
    using written_trans [OF s1(2)] s1(1) nz
    by (subst print_number.simps) (auto simp: digits Let_def)
qed

section \<open>Reading\<close>

lemma digit_of_char: "d < 16 \<Longrightarrow> digit_of (ucast (digit_char upper d)) = int d"
proof -
  assume "d < 16"
  then have "d = 0 \<or> d = 1 \<or> d = 2 \<or> d = 3 \<or> d = 4 \<or> d = 5 \<or> d = 6 \<or> d = 7 \<or> d = 8 \<or> d = 9 \<or>
      d = 10 \<or> d = 11 \<or> d = 12 \<or> d = 13 \<or> d = 14 \<or> d = 15" by arith
  then show ?thesis
    by (elim disjE; simp add: digit_char_def hex_digits_def hex_digits_upper_def digit_of_def)
qed

definition is_digit :: "u32 \<Rightarrow> u8 \<Rightarrow> bool" where
  "is_digit base x \<longleftrightarrow> digit_of (ucast x) \<ge> 0 \<and> (word_of_int (digit_of (ucast x)) :: u32) < base"

lemma is_digit_char:
  assumes "d < unat base" "unat base \<le> 16"
  shows "is_digit base (digit_char upper d)"
proof -
  have "d < 16" using assms by simp
  moreover have "unat (of_nat d :: u32) = d" using \<open>d < 16\<close> by (simp add: unat_of_nat take_bit_nat_eq_self)
  ultimately show ?thesis using assms(1) by (simp add: is_digit_def digit_of_char word_less_nat_alt)
qed

lemma parse_int_loop_digits:
  assumes "unat base \<le> 16" "rest = [] \<or> \<not> is_digit base (hd rest)"
  shows "\<lbrakk>wf_buffer b; bytes_of b = map (digit_char upper) ds @ rest; \<forall>d\<in>set ds. d < unat base\<rbrakk> \<Longrightarrow>
    \<exists>b'. parse_int_loop b base st acc =
        Some (st \<or> ds \<noteq> [], foldl (\<lambda>a d. a * ucast base + of_nat d) acc ds, b') \<and>
      wf_buffer b' \<and> bytes_of b' = rest"
proof (induction ds arbitrary: b st acc)
  case Nil
  then show ?case
  proof (cases rest)
    case Nil
    then show ?thesis using Nil.prems no_bytes [of b] by (simp add: parse_int_loop.simps)
  next
    case (Cons x xs)
    then have "\<not> is_digit base x" using assms(2) by simp
    then show ?thesis using first_byte [of b x xs] Nil.prems Cons
      by (auto simp: parse_int_loop.simps is_digit_def Let_def)
  qed
next
  case (Cons d ds)
  have d: "is_digit base (digit_char upper d)" "digit_of (ucast (digit_char upper d)) = int d"
    using is_digit_char [of d base upper] digit_of_char [of d upper] Cons.prems(3) assms(1) by simp_all
  have bytes: "bytes_of b = digit_char upper d # map (digit_char upper) ds @ rest" using Cons.prems(2) by simp
  obtain b1 where b1: "pop_u8 b = Some (digit_char upper d, b1)" "wf_buffer b1"
      "bytes_of b1 = map (digit_char upper) ds @ rest"
    using pop_u8_correct [OF Cons.prems(1) bytes] by blast
  have "parse_int_loop b base st acc = parse_int_loop b1 base True (acc * ucast base + of_nat d)"
    using first_byte [OF Cons.prems(1) bytes] d b1(1) by (subst parse_int_loop.simps) (simp add: is_digit_def)
  then show ?case using Cons.IH [OF b1(2,3), of True] Cons.prems(3) by simp
qed

lemma foldl_digits_word:
  "foldl (\<lambda>a d. a * of_nat base + of_nat d) (of_nat acc :: u64) ds = of_nat (foldl (\<lambda>a d. a * base + d) acc ds)"
proof (induction ds arbitrary: acc)
  case (Cons d ds)
  show ?case using Cons [of "acc * base + d"] by simp
qed simp

lemma parse_int_correct:
  assumes "wf_buffer b" "2 \<le> unat base" "unat base \<le> 16" "rest = [] \<or> \<not> is_digit base (hd rest)"
    "bytes_of b = map (digit_char upper) (number_digits (unat base) pad (unat (x :: u64))) @ rest"
  shows "\<exists>b'. parse_int b base = Some (True, x, b') \<and> wf_buffer b' \<and> bytes_of b' = rest"
proof -
  let ?ds = "number_digits (unat base) pad (unat x)"
  have below: "\<forall>d\<in>set ?ds. d < unat base" using number_digits_below [OF assms(2)] by blast
  have "(ucast base :: u64) = of_nat (unat base)" by simp
  then have "foldl (\<lambda>a d. a * ucast base + of_nat d) (0 :: u64) ?ds = x"
    using foldl_digits_word [of "unat base" 0 ?ds] number_digits_value [OF assms(2), of pad "unat x"] by simp
  moreover have "?ds \<noteq> []" using assms(2) by (subst number_digits.simps) simp
  ultimately show ?thesis
    using parse_int_loop_digits [OF assms(3,4,1,5) below, of False 0] by (simp add: parse_int_def)
qed

lemma digits_fit:
  assumes "2 \<le> base"
  shows "length (number_digits base pad (unat (x :: u64))) \<le> max pad 64"
proof -
  have "(2::nat) ^ 64 \<le> base ^ 64" using assms by (rule power_mono) simp
  then have "unat x < base ^ 64" using unat_u64_less [of x] by linarith
  then show ?thesis using number_digits_length [OF assms, of "unat x" 64 pad] by simp
qed

lemma print_number_fits:
  assumes "wf_buffer s" "2 \<le> unat base" "unat base \<le> 16" "roomy s (max (nat pad) 64)"
  shows "\<exists>s'. print_number s x base pad upper = Some s' \<and>
    written s (map (digit_char upper) (number_digits (unat base) (nat pad) (unat x))) s'"
  using print_number_correct [OF assms(2,3,1), of pad x 0 upper]
    roomy_mono [OF assms(4), of "length (number_digits (unat base) (nat pad) (unat x))"]
    digits_fit [OF assms(2), of "nat pad" x] by auto

lemma first_digit_not_minus:
  assumes "2 \<le> base" "base \<le> 16"
  shows "\<exists>d ds. number_digits base pad x = d # ds \<and> digit_char upper d \<noteq> 0x2d"
proof -
  have "number_digits base pad x \<noteq> []" using assms(1) by (subst number_digits.simps) simp
  then obtain d ds where ds: "number_digits base pad x = d # ds" by (meson list.exhaust)
  then have "d < 16" using number_digits_below [OF assms(1), of d pad x] assms(2) by simp
  then have "digit_of (ucast (digit_char upper d)) \<ge> 0" by (simp add: digit_of_char)
  moreover have "digit_of (ucast (0x2d :: u8)) = - 1" by (simp add: digit_of_def)
  ultimately show ?thesis using ds by fastforce
qed

section \<open>Round trips\<close>

definition empty_buffer :: buffer where
  "empty_buffer = \<lparr>b_start = 0, b_end = 0, b_length = 0, b_wrapped = False, b_h = sample_heap, b_contents = []\<rparr>"

lemma empty_buffer_ok: "wf_buffer empty_buffer" "bytes_of empty_buffer = []" "n < 1000 \<Longrightarrow> roomy empty_buffer n"
  by (simp_all add: wf_buffer_def heap_ok_def empty_buffer_def sample_heap_def bytes_of_def roomy_def)

text \<open>
  Property C33. Text survives UTF-8. Pushing any sequence of characters below \<^verbatim>\<open>0x110000\<close> with
  \<^verbatim>\<open>push_character\<close> succeeds when there is room, and popping as many characters with
  \<^verbatim>\<open>pop_character\<close> gives exactly that sequence and leaves the buffer empty; no byte outside of the
  buffer is read. A character that is too large is refused and nothing is written.
\<close>

theorem utf8_round_trip:
  assumes "wf_buffer b" "bytes_of b = []" "roomy b (4 * length cs)" "\<forall>c\<in>set cs. c < 0x110000" "0x110000 \<le> big"
  shows "(\<exists>b' b''. push_text b cs = Some b' \<and> pop_text b' (length cs) = Some (cs, b'') \<and> bytes_of b'' = []) \<and>
    push_character b big = Some (False, b)"
proof -
  obtain b' where b': "push_text b cs = Some b'" "written b (concat (map utf8_bytes cs)) b'"
    using push_text_correct [OF assms(1,3,4)] by blast
  then have "bytes_of b' = concat (map utf8_bytes cs) @ []" using assms(2) by (simp add: written_def)
  from pop_text_correct [OF written_wf [OF b'(2)] this assms(4)]
  have "\<exists>b''. pop_text b' (length cs) = Some (cs, b'') \<and> bytes_of b'' = []" by blast
  moreover have "\<not> big < k" if "k \<le> 0x110000" for k
    using order.trans [OF that assms(5)] by (simp add: not_less)
  ultimately show ?thesis using b'(1) by (simp add: push_character_def)
qed

theorem utf8_round_trip_witness:
  "\<exists>b' b''. push_text empty_buffer [0x41, 0xe9, 0x20ac, 0x1f600] = Some b' \<and>
     pop_text b' 4 = Some ([0x41, 0xe9, 0x20ac, 0x1f600], b'') \<and> bytes_of b'' = [] \<and>
     push_character empty_buffer 0x110000 = Some (False, empty_buffer)"
proof -
  define cs where "cs = [0x41, 0xe9, 0x20ac, 0x1f600 :: u32]"
  have "length cs = 4" "\<forall>c\<in>set cs. c < 0x110000" by (simp_all add: cs_def)
  then show ?thesis
    using utf8_round_trip [OF empty_buffer_ok(1,2), of cs "0x110000"] empty_buffer_ok(3) [of 16]
    unfolding cs_def [symmetric] by auto
qed

text \<open>
  Property C34. Numbers survive printing. For every base from 2 to 16, every padding and both cases of
  digits, \<^verbatim>\<open>print_number\<close> returns and \<^verbatim>\<open>parse_int\<close> reads back the same 64-bit value and
  consumes exactly the printed digits; \<^verbatim>\<open>print_signed_number\<close> and \<^verbatim>\<open>parse_signed_int\<close> do so
  for every signed value, the most negative one included.
\<close>

theorem number_round_trip:
  assumes "wf_buffer b" "bytes_of b = []" "roomy b (Suc (max (nat pad) 64))" "2 \<le> base" "base \<le> 16"
  shows "(\<exists>b' b''. print_number b x (ucast base) pad upper = Some b' \<and>
        parse_int b' base = Some (True, x, b'') \<and> bytes_of b'' = []) \<and>
    (\<exists>b' b''. print_signed_number b x (ucast base) pad upper = Some b' \<and>
        parse_signed_int b' base = Some (True, x, b'') \<and> bytes_of b'' = [])"
proof
  have base: "2 \<le> unat base" "unat base \<le> 16" "2 \<le> unat (ucast base :: u64)" "unat (ucast base :: u64) \<le> 16"
    "unat (ucast base :: u64) = unat base"
    using assms(4,5) by (simp_all add: word_le_nat_alt unsigned_ucast_eq take_bit_nat_eq_self)
  have room: "roomy b (max (nat pad) 64)" by (rule roomy_mono [OF assms(3)]) (rule le_SucI, rule order.refl)
  let ?text = "\<lambda>x. map (digit_char upper) (number_digits (unat base) (nat pad) (unat x))"
  have parse: "\<exists>b''. parse_int b' base = Some (True, y, b'') \<and> bytes_of b'' = []"
    if "wf_buffer b'" "bytes_of b' = ?text y" for b' y
    using parse_int_correct [OF that(1) base(1,2), of "[]" upper "nat pad" y] that(2) by auto
  obtain b1 where b1: "print_number b x (ucast base) pad upper = Some b1" "wf_buffer b1" "bytes_of b1 = ?text x"
    using print_number_fits [OF assms(1) base(3,4) room] assms(2) base(5) by (auto simp: written_def)
  show "\<exists>b' b''. print_number b x (ucast base) pad upper = Some b' \<and>
        parse_int b' base = Some (True, x, b'') \<and> bytes_of b'' = []"
    using b1(1) parse [OF b1(2,3)] by blast
  show "\<exists>b' b''. print_signed_number b x (ucast base) pad upper = Some b' \<and>
        parse_signed_int b' base = Some (True, x, b'') \<and> bytes_of b'' = []"
  proof (cases "x <s 0")
    case True
    obtain m where m: "push_u8 b 0x2d = Some m" "written b [0x2d] m" "roomy m (max (nat pad) 64)"
      using push_u8_correct [OF assms(1,3)] by blast
    then obtain b2 where b2: "print_number m (- x) (ucast base) pad upper = Some b2" "wf_buffer b2"
        "bytes_of b2 = 0x2d # ?text (- x)"
      using print_number_fits [OF written_wf [OF m(2)] base(3,4) m(3)] assms(2) base(5) by (auto simp: written_def)
    obtain b3 where b3: "pop_u8 b2 = Some (0x2d, b3)" "wf_buffer b3" "bytes_of b3 = ?text (- x)"
      using pop_u8_correct [OF b2(2,3)] by blast
    have "is_signed_int_string b2 = Some True"
      using first_byte [OF b2(2,3)] by (simp add: is_signed_int_string_def word_gt_0)
    then show ?thesis using True m(1) b2(1) b3(1) parse [OF b3(2,3)]
      by (auto simp: print_signed_number_def parse_signed_int_def)
  next
    case False
    obtain d ds where d: "number_digits (unat base) (nat pad) (unat x) = d # ds" "digit_char upper d \<noteq> 0x2d"
      using first_digit_not_minus [OF base(1,2)] by blast
    have "is_signed_int_string b1 = Some False"
      using first_byte [OF b1(2), of "digit_char upper d"] b1(3) d by (simp add: is_signed_int_string_def)
    then show ?thesis using False b1(1) parse [OF b1(2,3)]
      by (auto simp: print_signed_number_def parse_signed_int_def)
  qed
qed

theorem number_round_trip_witness:
  "\<exists>b' b''. print_signed_number empty_buffer (- 42) (ucast (10 :: u32)) 0 False = Some b' \<and>
     parse_signed_int b' 10 = Some (True, - 42, b'') \<and> bytes_of b'' = []"
  using number_round_trip [OF empty_buffer_ok(1,2), of 0 10 "- 42" False] empty_buffer_ok(3) [of 65] by simp

end
