(* ===== verification/Format.thy ===== *)
theory Format
  imports Text
begin

text \<open>
  Formatted output: \<^verbatim>\<open>vbprintf\<close> and the table of conversions of
  \<^verbatim>\<open>kernel/src/runtime/format.c\<close>, with the conversions that \<^verbatim>\<open>init_runtime\<close> of
  \<^verbatim>\<open>runtime_init.c\<close> registers. The variable arguments are a list of values; taking one of another
  kind than the conversion expects is undefined in C and \<open>None\<close> here. Fields of type \<^verbatim>\<open>int\<close>
  are integers reduced to 32 bits where they are computed. A \<^verbatim>\<open>char\<close> of the format is extended
  with its sign to the 64 bits of the loop variable of \<^verbatim>\<open>sstring_foreach\<close>.
\<close>

section \<open>State\<close>

record formatter_state =
  fs_state :: int
  fs_format :: int
  fs_modifier :: int
  fs_width :: int
  fs_align :: int
  fs_fill :: int
  fs_precision :: int

datatype arg = Arg_word u64 | Arg_buffer buffer | Arg_sstring "u8 list"

type_synonym formatter = "buffer \<Rightarrow> formatter_state \<Rightarrow> arg list \<Rightarrow> (buffer \<times> arg list) option"

text \<open>\<^verbatim>\<open>formatters[96]\<close>: the function with \<^verbatim>\<open>accepts_long\<close>, or no entry.\<close>

type_synonym formatters = "nat \<Rightarrow> (formatter \<times> bool) option"

definition to_int :: "int \<Rightarrow> int" where
  "to_int v = signed_take_bit 31 v"

definition FORMATTER :: "formatters \<Rightarrow> u64 \<Rightarrow> (formatter \<times> bool) option" where
  "FORMATTER tab c = tab (unat c - 32)"

definition register_format :: "formatters \<Rightarrow> u32 \<Rightarrow> formatter \<Rightarrow> bool \<Rightarrow> formatters option" where
  "register_format tab c f accepts_long =
     do { assert_ok (c \<noteq> 0x6c);
          Some (if c > 32 \<and> c < 128 then tab(unat c - 32 := Some (f, accepts_long)) else tab) }"

definition reset_formatter_state :: formatter_state where
  "reset_formatter_state =
     \<lparr>fs_state = 0, fs_format = 0, fs_modifier = 0, fs_width = 0, fs_align = 0, fs_fill = 0, fs_precision = - 1\<rparr>"

section \<open>Arguments\<close>

fun varg_word :: "arg list \<Rightarrow> (u64 \<times> arg list) option" where
  "varg_word (Arg_word w # a) = Some (w, a)"
| "varg_word _ = None"

fun varg_buffer :: "arg list \<Rightarrow> (buffer \<times> arg list) option" where
  "varg_buffer (Arg_buffer b # a) = Some (b, a)"
| "varg_buffer _ = None"

fun varg_sstring :: "arg list \<Rightarrow> (u8 list \<times> arg list) option" where
  "varg_sstring (Arg_sstring s # a) = Some (s, a)"
| "varg_sstring _ = None"

definition varg_int :: "arg list \<Rightarrow> (int \<times> arg list) option" where
  "varg_int a = do { (w, a') \<leftarrow> varg_word a; Some (sint (ucast w :: u32), a') }"

section \<open>Conversions\<close>

text \<open>\<open>fill b len c\<close> with a negative \<open>len\<close> writes nothing.\<close>

definition fill :: "buffer \<Rightarrow> int \<Rightarrow> u8 \<Rightarrow> buffer option" where
  "fill b len c = push_bytes b (replicate (nat len) c)"

definition format_pointer :: formatter where
  "format_pointer dest s a =
     do { d1 \<leftarrow> push_u8 dest 0x30;
          d2 \<leftarrow> push_u8 d1 0x78;
          (x, a') \<leftarrow> varg_word a;
          d3 \<leftarrow> print_number d2 x 16 16 False;
          Some (d3, a') }"

text \<open>The 64-bit pattern of the argument, after the widening from \<^verbatim>\<open>int\<close> or \<^verbatim>\<open>unsigned\<close>.\<close>

definition number_arg :: "formatter_state \<Rightarrow> arg list \<Rightarrow> (u64 \<times> arg list) option" where
  "number_arg s a =
     do { (w, a') \<leftarrow> varg_word a;
          Some (if fs_modifier s = 0x6c then w
                else if fs_format s = 0x64 then scast (ucast w :: u32)
                else ucast (ucast w :: u32), a') }"

text \<open>\<open>buf\<close> is the local array of 64 bytes.\<close>

definition format_number :: "heap \<Rightarrow> u8 list \<Rightarrow> formatter" where
  "format_number h buf dest s a =
     do { let base = (if fs_format s = 0x78 \<or> fs_format s = 0x58 then 16 else 10);
          let tmp = buffer_clear (alloca_wrap_buffer h buf (of_nat (length buf)));
          (x0, a') \<leftarrow> number_arg s a;
          let sign = (fs_format s = 0x64 \<and> x0 <s 0);
          let x = (if sign then - x0 else x0);
          tmp \<leftarrow> print_number tmp x base (fs_precision s) (fs_format s = 0x58);
          let len = int_of (buffer_length tmp + (if sign then 1 else 0));
          let len = (if fs_precision s = 0 \<and> x = 0 then 0 else len);
          dest \<leftarrow> (if sign \<and> fs_fill s = 0x30 then push_u8 dest 0x2d else Some dest);
          dest \<leftarrow> (if len < fs_width s \<and> fs_align s = 0
                   then fill dest (fs_width s - len) (word_of_int (fs_fill s)) else Some dest);
          dest \<leftarrow> (if sign \<and> fs_fill s \<noteq> 0x30 then push_u8 dest 0x2d else Some dest);
          dest \<leftarrow> (if \<not> (fs_precision s = 0 \<and> x = 0)
                   then do { (_, d) \<leftarrow> push_buffer dest tmp; Some d } else Some dest);
          dest \<leftarrow> (if len < fs_width s \<and> fs_align s = 0x2d
                   then fill dest (fs_width s - len) 0x20 else Some dest);
          Some (dest, a') }"

definition format_buffer :: formatter where
  "format_buffer dest s a =
     do { (b, a') \<leftarrow> varg_buffer a;
          (ok, d) \<leftarrow> push_buffer dest b;
          assert_ok ok;
          Some (d, a') }"

definition format_character :: formatter where
  "format_character dest s a =
     do { (x, a') \<leftarrow> varg_int a;
          (_, d) \<leftarrow> push_character dest (word_of_int x);
          Some (d, a') }"

definition format_sstring :: formatter where
  "format_sstring dest s a =
     do { (ss, a') \<leftarrow> varg_sstring a;
          let len = to_int (int (length ss));
          let len = (if fs_precision s > 0 \<and> fs_precision s < len then fs_precision s else len);
          dest \<leftarrow> (if len < fs_width s \<and> fs_align s = 0 then fill dest (fs_width s - len) 0x20 else Some dest);
          src \<leftarrow> peek ss 0 (nat len);
          (ok, dest) \<leftarrow> buffer_write dest src;
          assert_ok ok;
          dest \<leftarrow> (if len < fs_width s \<and> fs_align s = 0x2d then fill dest (fs_width s - len) 0x20 else Some dest);
          Some (dest, a') }"

definition format_spaces :: formatter where
  "format_spaces dest s a =
     do { (n, a') \<leftarrow> varg_int a; d \<leftarrow> fill dest n 0x20; Some (d, a') }"

text \<open>The registrations of \<^verbatim>\<open>init_runtime\<close>, on the empty table.\<close>

definition init_runtime :: "heap \<Rightarrow> u8 list \<Rightarrow> formatters option" where
  "init_runtime h buf =
     do { t \<leftarrow> register_format (\<lambda>_. None) 0x70 format_pointer False;
          t \<leftarrow> register_format t 0x78 (format_number h buf) True;
          t \<leftarrow> register_format t 0x58 (format_number h buf) True;
          t \<leftarrow> register_format t 0x64 (format_number h buf) True;
          t \<leftarrow> register_format t 0x75 (format_number h buf) True;
          t \<leftarrow> register_format t 0x73 format_sstring False;
          t \<leftarrow> register_format t 0x62 format_buffer False;
          t \<leftarrow> register_format t 0x6e format_spaces False;
          register_format t 0x63 format_character False }"

section \<open>The format string\<close>

record format_run =
  fr_dest :: buffer
  fr_s :: formatter_state
  fr_start_idx :: nat
  fr_ap :: "arg list"

definition invalid_header :: "u8 list" where
  "invalid_header = [0x5b, 0x69, 0x6e, 0x76, 0x61, 0x6c, 0x69, 0x64, 0x20, 0x66, 0x6f, 0x72, 0x6d, 0x61, 0x74, 0x20]"

definition invalid_format :: "buffer \<Rightarrow> u8 list \<Rightarrow> nat \<Rightarrow> nat \<Rightarrow> buffer option" where
  "invalid_format d fmt start_idx idx =
     do { (ok, d) \<leftarrow> buffer_write d invalid_header;
          assert_ok ok;
          src \<leftarrow> peek fmt start_idx (idx - start_idx + 1);
          d \<leftarrow> push_bytes d src;
          push_u8 d 0x5d }"

text \<open>What the loop does inside a conversion, that is with \<^verbatim>\<open>s.state == 1\<close>.\<close>

definition conversion_step :: "formatters \<Rightarrow> u8 list \<Rightarrow> nat \<Rightarrow> u64 \<Rightarrow> format_run \<Rightarrow> format_run option" where
  "conversion_step tab fmt idx c r =
     (let s = fr_s r; d = fr_dest r; start_idx = fr_start_idx r in
      if idx - start_idx = 1 \<and> (c = 0x30 \<or> c = 0x2d) then
        Some (r\<lparr>fr_s := (if c = 0x30 then s\<lparr>fs_fill := 0x30\<rparr> else s\<lparr>fs_align := 0x2d\<rparr>)\<rparr>)
      else if c \<ge> 0x30 \<and> c \<le> 0x39 then
        Some (r\<lparr>fr_s :=
          (if fs_precision s = - 1 then
             s\<lparr>fs_fill := (if fs_fill s = 0 then 0x20 else fs_fill s),
               fs_width := to_int (fs_width s * 10 + uint c - 0x30)\<rparr>
           else s\<lparr>fs_precision := to_int (fs_precision s * 10 + uint c - 0x30)\<rparr>)\<rparr>)
      else if c = 0x6c then
        (if fs_modifier s \<noteq> 0 then do { d \<leftarrow> invalid_format d fmt start_idx idx; Some (r\<lparr>fr_dest := d\<rparr>) }
         else Some (r\<lparr>fr_s := s\<lparr>fs_modifier := 0x6c\<rparr>\<rparr>))
      else if c = 0x25 then
        do { (_, d) \<leftarrow> push_character d (ucast c); Some (r\<lparr>fr_dest := d, fr_s := s\<lparr>fs_state := 0\<rparr>\<rparr>) }
      else if c = 0x2e then
        (if fs_precision s \<noteq> - 1 then do { d \<leftarrow> invalid_format d fmt start_idx idx; Some (r\<lparr>fr_dest := d\<rparr>) }
         else Some (r\<lparr>fr_s := s\<lparr>fs_precision := 0\<rparr>\<rparr>))
      else
        (case (if c > 32 \<and> c < 128 then FORMATTER tab c else None) of
           Some (f, accepts_long) \<Rightarrow>
             if fs_modifier s \<noteq> 0x6c \<or> accepts_long then do {
               (d, ap) \<leftarrow> f d (s\<lparr>fs_format := uint c\<rparr>) (fr_ap r);
               Some (r\<lparr>fr_dest := d, fr_ap := ap, fr_s := reset_formatter_state\<rparr>) }
             else do { d \<leftarrow> invalid_format d fmt start_idx idx;
                       Some (r\<lparr>fr_dest := d, fr_s := reset_formatter_state\<rparr>) }
         | None \<Rightarrow> do { d \<leftarrow> invalid_format d fmt start_idx idx;
                        Some (r\<lparr>fr_dest := d, fr_s := reset_formatter_state\<rparr>) }))"

fun vbprintf_loop :: "formatters \<Rightarrow> u8 list \<Rightarrow> nat \<Rightarrow> u8 list \<Rightarrow> format_run \<Rightarrow> format_run option" where
  "vbprintf_loop tab fmt idx [] r = Some r"
| "vbprintf_loop tab fmt idx (x # xs) r =
     do { let c = (scast x :: u64);
          r' \<leftarrow> (if fs_state (fr_s r) = 1 then conversion_step tab fmt idx c r
                else if fs_state (fr_s r) = 0 \<and> c = 0x25 then
                  Some (r\<lparr>fr_s := (fr_s r)\<lparr>fs_state := 1\<rparr>, fr_start_idx := idx\<rparr>)
                else do { (_, d) \<leftarrow> push_character (fr_dest r) (ucast c); Some (r\<lparr>fr_dest := d\<rparr>) });
          vbprintf_loop tab fmt (Suc idx) xs r' }"

definition vbprintf :: "formatters \<Rightarrow> buffer \<Rightarrow> u8 list \<Rightarrow> arg list \<Rightarrow> (buffer \<times> arg list) option" where
  "vbprintf tab d fmt ap =
     do { r \<leftarrow> vbprintf_loop tab fmt 0 fmt
                 \<lparr>fr_dest = d, fr_s = reset_formatter_state, fr_start_idx = 0, fr_ap = ap\<rparr>;
          Some (fr_dest r, fr_ap r) }"

text \<open>\<^verbatim>\<open>INVALID_ADDRESS\<close> from \<^verbatim>\<open>allocate_buffer\<close> is dereferenced by \<^verbatim>\<open>vbprintf\<close>.\<close>

definition aprintf_sstring :: "formatters \<Rightarrow> heap \<Rightarrow> u8 list \<Rightarrow> arg list \<Rightarrow> buffer option" where
  "aprintf_sstring tab h fmt ap =
     do { b \<leftarrow> allocate_buffer h 80; (b, _) \<leftarrow> vbprintf tab b fmt ap; Some b }"

definition bprintf_sstring :: "formatters \<Rightarrow> buffer \<Rightarrow> u8 list \<Rightarrow> arg list \<Rightarrow> buffer option" where
  "bprintf_sstring tab b fmt ap = do { (b, _) \<leftarrow> vbprintf tab b fmt ap; Some b }"

text \<open>The area behind \<open>str\<close> after the call, with the returned count.\<close>

definition rsnprintf_sstring ::
  "formatters \<Rightarrow> heap \<Rightarrow> u8 list \<Rightarrow> u64 \<Rightarrow> u8 list \<Rightarrow> arg list \<Rightarrow> (int \<times> u8 list) option" where
  "rsnprintf_sstring tab transient str sz fmt ap =
     (case allocate_buffer transient sz of
        None \<Rightarrow> do { str \<leftarrow> (if sz > 0 then poke str 0 [0] else Some str); Some (0, str) }
      | Some b \<Rightarrow> do {
          (b, _) \<leftarrow> vbprintf tab b fmt ap;
          str \<leftarrow> (if sz > 0 then do {
                    let n = int_of (min (buffer_length b) (sz - 1));
                    let n = (word_of_int n :: u64);
                    p \<leftarrow> buffer_ref b 0;
                    src \<leftarrow> peek (b_contents b) (unat p) (unat n);
                    str \<leftarrow> poke str 0 src;
                    poke str (unat n) [0] }
                  else Some str);
          Some (int_of (buffer_length b), str) })"

text \<open>The text sent to the console; \<open>stack\<close> is the area of the local buffer of 16 KB.\<close>

definition rprintf_sstring :: "formatters \<Rightarrow> heap \<Rightarrow> u8 list \<Rightarrow> u8 list \<Rightarrow> arg list \<Rightarrow> buffer option" where
  "rprintf_sstring tab h stack format a =
     do { (b, _) \<leftarrow> vbprintf tab (little_stack_buffer h stack) format a; Some b }"

section \<open>Output of a step\<close>

text \<open>A step that appends \<open>xs\<close> to every buffer with room for it and leaves the rest of the room.\<close>

definition emits :: "(buffer \<Rightarrow> buffer option) \<Rightarrow> u8 list \<Rightarrow> bool" where
  "emits f xs \<longleftrightarrow>
     (\<forall>b n. wf_buffer b \<longrightarrow> roomy b (length xs + n) \<longrightarrow> (\<exists>b'. f b = Some b' \<and> written b xs b' \<and> roomy b' n))"

lemma emits_Some [intro]: "emits Some []"
  by (simp add: emits_def)

lemma emits_bind [intro]:
  assumes "emits f xs" "emits g ys"
  shows "emits (\<lambda>b. f b \<bind> g) (xs @ ys)"
  unfolding emits_def
proof (intro allI impI)
  fix b n assume b: "wf_buffer b" "roomy b (length (xs @ ys) + n)"
  then have "roomy b (length xs + (length ys + n))" by (simp add: add.assoc)
  then obtain b1 where b1: "f b = Some b1" "written b xs b1" "roomy b1 (length ys + n)"
    using assms(1) b(1) unfolding emits_def by blast
  then obtain b2 where "g b1 = Some b2" "written b1 ys b2" "roomy b2 n"
    using assms(2) written_wf unfolding emits_def by blast
  then show "\<exists>b'. (f b \<bind> g) = Some b' \<and> written b (xs @ ys) b' \<and> roomy b' n"
    using b1 written_trans by fastforce
qed

lemma emits_if: "(c \<Longrightarrow> emits f xs) \<Longrightarrow> emits (\<lambda>b. if c then f b else Some b) (if c then xs else [])"
  by (cases c) (simp_all add: emits_def)

lemma emits_push_u8: "emits (\<lambda>b. push_u8 b x) [x]"
  using push_u8_correct by (fastforce simp: emits_def)

lemma emits_fill: "emits (\<lambda>b. fill b len c) (replicate (nat len) c)"
  using push_bytes_correct by (fastforce simp: emits_def fill_def)

lemma buffer_write_roomy:
  assumes "wf_buffer b" "roomy b (length xs + n)"
  shows "\<exists>b'. buffer_write b xs = Some (True, b') \<and> written b xs b' \<and> roomy b' n"
proof -
  obtain b1 c where b1: "buffer_extend b (of_nat (length xs)) = Some (True, b1)" "wf_buffer b1"
    "poke (b_contents b1) (unat (b_end b1)) xs = Some c"
    "written b xs (b1\<lparr>b_contents := c, b_end := b_end b1 + of_nat (length xs)\<rparr>)"
    "roomy (b1\<lparr>b_contents := c, b_end := b_end b1 + of_nat (length xs)\<rparr>) n"
    "b_end b1 + of_nat (length xs) \<le> b_length b1"
    using append_repr [OF assms] by blast
  have "b_start b1 \<le> b_end b1" using b1(2) by (simp add: wf_buffer_def)
  then show ?thesis using b1 by (simp add: buffer_write_def ref_end buffer_produce_def Let_def)
qed

lemma emits_push_buffer:
  assumes "wf_buffer t"
  shows "emits (\<lambda>b. do { (_, d) \<leftarrow> push_buffer b t; Some d }) (bytes_of t)"
proof -
  have "peek (b_contents t) (unat (b_start t)) (unat (buffer_length t)) = Some (bytes_of t)"
    using consume_correct(4) [OF assms, of "length (bytes_of t)"] unat_buffer_length [OF assms] by simp
  then have "push_buffer b t = buffer_write b (bytes_of t)" for b
    using ref_start [OF assms] by (simp add: push_buffer_def)
  then show ?thesis using buffer_write_roomy by (fastforce simp: emits_def)
qed

lemma emits_push_character:
  assumes "x < 0x80"
  shows "emits (\<lambda>b. do { (_, d) \<leftarrow> push_character b (ucast (scast x :: u64)); Some d }) [x]"
proof -
  have "unat x < 0x80" using assms by (simp add: word_less_nat_alt)
  then have "unat (ucast x :: u32) = unat x" by (simp add: unsigned_ucast_eq take_bit_nat_eq_self)
  then have small: "(ucast x :: u32) < 0x80" using assms by (simp add: word_less_nat_alt)
  moreover from small have "\<not> bit x 7" using bits_below [of "ucast x" "0x80" 7 7] by (simp add: bit_simps)
  have c: "(ucast (scast x :: u64) :: u32) = ucast x"
  proof (rule bit_word_eqI)
    fix n assume "n < LENGTH(32)"
    then show "bit (ucast (scast x :: u64) :: u32) n = bit (ucast x :: u32) n"
      using \<open>\<not> bit x 7\<close> bit_imp_le_length [of x n]
      by (cases "n \<le> 7") (auto simp: bit_simps min_def le_less)
  qed
  moreover have "(ucast (ucast x :: u32) :: u8) = x" by (rule bit_word_eqI) (auto simp: bit_simps)
  ultimately have "push_character b (ucast (scast x :: u64)) = write_all b [x]" for b
    using c by (simp add: push_character_def)
  then show ?thesis using write_all_correct [of _ "[x]"] unfolding emits_def by (fastforce simp del: write_all.simps)
qed

section \<open>Numbers\<close>

definition number_base :: "formatter_state \<Rightarrow> u64" where
  "number_base s = (if fs_format s = 0x78 \<or> fs_format s = 0x58 then 16 else 10)"

definition negative :: "formatter_state \<Rightarrow> u64 \<Rightarrow> bool" where
  "negative s x0 \<longleftrightarrow> fs_format s = 0x64 \<and> x0 <s 0"

definition number_text_digits :: "formatter_state \<Rightarrow> u64 \<Rightarrow> u8 list" where
  "number_text_digits s x0 =
     (let x = (if negative s x0 then - x0 else x0) in
      if fs_precision s = 0 \<and> x = 0 then []
      else map (digit_char (fs_format s = 0x58)) (number_digits (unat (number_base s)) (nat (fs_precision s)) (unat x)))"

text \<open>The text that a conversion of a number should give.\<close>

definition number_text :: "formatter_state \<Rightarrow> u64 \<Rightarrow> u8 list" where
  "number_text s x0 =
     (let digits = number_text_digits s x0;
          sign = (if negative s x0 then [0x2d] else []);
          gap = nat (fs_width s - int (length digits + length sign))
      in if fs_align s = 0x2d then sign @ digits @ replicate gap 0x20
         else if fs_fill s = 0x30 then sign @ replicate gap 0x30 @ digits
         else replicate gap (word_of_int (fs_fill s)) @ sign @ digits)"

lemma local_buffer:
  assumes "heap_ok h" "length buf = 64"
  shows "wf_buffer (buffer_clear (alloca_wrap_buffer h buf (of_nat (length buf))))"
    "bytes_of (buffer_clear (alloca_wrap_buffer h buf (of_nat (length buf)))) = []"
    "roomy (buffer_clear (alloca_wrap_buffer h buf (of_nat (length buf)))) 64"
  using assms by (simp_all add: wf_buffer_def roomy_def bytes_of_def buffer_clear_def alloca_wrap_buffer_def)

lemma number_base: "2 \<le> unat (number_base s)" "unat (number_base s) \<le> 16"
  by (simp_all add: number_base_def)

lemma local_number:
  assumes "heap_ok h" "length buf = 64" "fs_precision s \<le> 64"
  shows "\<exists>tmp. print_number (buffer_clear (alloca_wrap_buffer h buf (of_nat (length buf)))) x (number_base s)
      (fs_precision s) upper = Some tmp \<and> wf_buffer tmp \<and>
    bytes_of tmp = map (digit_char upper) (number_digits (unat (number_base s)) (nat (fs_precision s)) (unat x)) \<and>
    length (bytes_of tmp) \<le> 64"
proof -
  have "max (nat (fs_precision s)) 64 = 64" using assms(3) by simp
  then show ?thesis
    using print_number_fits [OF local_buffer(1) [OF assms(1,2)] number_base [of s], of "fs_precision s" x upper]
      local_buffer(2,3) [OF assms(1,2)] digits_fit [OF number_base(1) [of s], of "nat (fs_precision s)" x]
    by (auto simp: written_def)
qed

lemma format_number_emits:
  assumes "heap_ok h" "length buf = 64" "fs_precision s \<le> 64" "fs_align s = 0 \<or> fs_align s = 0x2d"
    and arg: "number_arg s a = Some (x0, a')"
  shows "emits (\<lambda>d. map_option fst (format_number h buf d s a)) (number_text s x0)"
proof -
  define x where "x = (if negative s x0 then - x0 else x0)"
  obtain tmp where tmp: "print_number (buffer_clear (alloca_wrap_buffer h buf (of_nat (length buf)))) x (number_base s)
      (fs_precision s) (fs_format s = 0x58) = Some tmp" "wf_buffer tmp"
    "bytes_of tmp = map (digit_char (fs_format s = 0x58))
       (number_digits (unat (number_base s)) (nat (fs_precision s)) (unat x))" "length (bytes_of tmp) \<le> 64"
    using local_number [OF assms(1-3)] by blast
  define none where "none \<longleftrightarrow> fs_precision s = 0 \<and> x = 0"
  define len where "len = (if none then 0 else int_of (buffer_length tmp + (if negative s x0 then 1 else 0)))"
  define f where "f = (\<lambda>d. (if negative s x0 \<and> fs_fill s = 0x30 then push_u8 d 0x2d else Some d) \<bind> (\<lambda>d.
      (if len < fs_width s \<and> fs_align s = 0 then fill d (fs_width s - len) (word_of_int (fs_fill s)) else Some d) \<bind> (\<lambda>d.
      (if negative s x0 \<and> fs_fill s \<noteq> 0x30 then push_u8 d 0x2d else Some d) \<bind> (\<lambda>d.
      (if \<not> none then do { (_, d) \<leftarrow> push_buffer d tmp; Some d } else Some d) \<bind> (\<lambda>d.
      if len < fs_width s \<and> fs_align s = 0x2d then fill d (fs_width s - len) 0x20 else Some d)))))"
  have "format_number h buf d s a = f d \<bind> (\<lambda>d. Some (d, a'))" for d
    using arg tmp(1) unfolding format_number_def f_def len_def none_def x_def number_base_def negative_def
    by (simp add: Let_def cong: if_cong)
  then have "map_option fst (format_number h buf d s a) = f d" for d by (cases "f d") simp_all
  moreover have emits: "emits f
      ((if negative s x0 \<and> fs_fill s = 0x30 then [0x2d] else []) @
       (if len < fs_width s \<and> fs_align s = 0 then replicate (nat (fs_width s - len)) (word_of_int (fs_fill s)) else []) @
       (if negative s x0 \<and> fs_fill s \<noteq> 0x30 then [0x2d] else []) @
       (if \<not> none then bytes_of tmp else []) @
       (if len < fs_width s \<and> fs_align s = 0x2d then replicate (nat (fs_width s - len)) 0x20 else []))"
    unfolding f_def by (intro emits_bind emits_if emits_push_u8 emits_fill emits_push_buffer [OF tmp(2)])
  have digits: "number_text_digits s x0 = (if \<not> none then bytes_of tmp else [])"
    using tmp(3) by (simp add: number_text_digits_def x_def none_def Let_def)
  have len: "len = int (length (number_text_digits s x0) + (if negative s x0 then 1 else 0))"
  proof (cases none)
    case True
    then have "x = 0" by (simp add: none_def)
    then have "\<not> negative s x0" by (auto simp: x_def negative_def split: if_splits)
    then show ?thesis using True digits by (simp add: len_def)
  next
    case False
    have "buffer_length tmp + (if negative s x0 then 1 else 0) =
        of_nat (length (bytes_of tmp) + (if negative s x0 then 1 else 0))"
      using buffer_length_of_nat [OF tmp(2)] by simp
    then show ?thesis using False digits int_of_small [of "length (bytes_of tmp) + (if negative s x0 then 1 else 0)"] tmp(4)
      by (cases "negative s x0") (simp_all add: len_def add.commute)
  qed
  have gap: "(if len < fs_width s \<and> A then replicate (nat (fs_width s - len)) c else []) =
      (if A then replicate (nat (fs_width s - len)) c else [])" for A and c :: u8 by simp
  have txt_eq: "number_text s x0 =
      (if fs_align s = 0x2d then (if negative s x0 then [0x2d] else []) @ number_text_digits s x0 @ replicate (nat (fs_width s - len)) 0x20
       else if fs_fill s = 0x30 then (if negative s x0 then [0x2d] else []) @ replicate (nat (fs_width s - len)) 0x30 @ number_text_digits s x0
       else replicate (nat (fs_width s - len)) (word_of_int (fs_fill s)) @ (if negative s x0 then [0x2d] else []) @ number_text_digits s x0)"
    unfolding len number_text_def Let_def by (cases "negative s x0") simp_all
  have "emits f (number_text s x0)"
    using emits [unfolded gap digits [symmetric]] assms(4) unfolding txt_eq
    by (cases "fs_align s = 0"; cases "fs_fill s = 0x30"; cases "negative s x0") simp_all
  ultimately show ?thesis by simp
qed

section \<open>Directives\<close>

definition plain :: "u8 list \<Rightarrow> bool" where
  "plain p \<longleftrightarrow> (\<forall>x\<in>set p. x < 0x80 \<and> x \<noteq> 0x25)"

lemma vbprintf_plain:
  "\<lbrakk>plain p; fs_state (fr_s r) = 0; wf_buffer (fr_dest r); roomy (fr_dest r) (length p + n)\<rbrakk> \<Longrightarrow>
   \<exists>d'. vbprintf_loop tab fmt idx (p @ ys) r = vbprintf_loop tab fmt (idx + length p) ys (r\<lparr>fr_dest := d'\<rparr>) \<and>
     written (fr_dest r) p d' \<and> roomy d' n"
proof (induction p arbitrary: r idx)
  case Nil
  then show ?case by (intro exI [of _ "fr_dest r"]) simp
next
  case (Cons x p)
  then have x: "x < 0x80" "x \<noteq> 0x25" "plain p" by (simp_all add: plain_def)
  have "(scast x :: u64) \<noteq> 0x25" using scast_byte_eq [of x "0x25"] x(2) by simp
  obtain d where d: "(do { (_, d) \<leftarrow> push_character (fr_dest r) (ucast (scast x :: u64)); Some d }) = Some d"
      "written (fr_dest r) [x] d" "roomy d (length p + n)"
    using emits_push_character [OF x(1)] Cons.prems(3,4) unfolding emits_def by fastforce
  then have step: "vbprintf_loop tab fmt idx ((x # p) @ ys) r = vbprintf_loop tab fmt (Suc idx) (p @ ys) (r\<lparr>fr_dest := d\<rparr>)"
    using \<open>scast x \<noteq> 0x25\<close> Cons.prems(2) by (auto simp: Let_def split: Option.bind_splits)
  obtain d' where "vbprintf_loop tab fmt (Suc idx) (p @ ys) (r\<lparr>fr_dest := d\<rparr>) =
      vbprintf_loop tab fmt (Suc idx + length p) ys (r\<lparr>fr_dest := d\<rparr>\<lparr>fr_dest := d'\<rparr>)" "written d p d'" "roomy d' n"
    using Cons.IH [OF x(3), of "r\<lparr>fr_dest := d\<rparr>" "Suc idx"] Cons.prems(2) written_wf [OF d(2)] d(3) by auto
  then show ?case using step written_trans [OF d(2)] by fastforce
qed

definition decimal :: "int \<Rightarrow> nat list \<Rightarrow> int" where
  "decimal = foldl (\<lambda>a d. a * 10 + int d)"

lemma decimal_simps [simp]: "decimal a [] = a" "decimal a (d # ds) = decimal (a * 10 + int d) ds"
  by (simp_all add: decimal_def)

lemma decimal_mono: "0 \<le> a \<Longrightarrow> a \<le> decimal a ds"
proof (induction ds arbitrary: a)
  case (Cons d ds)
  show ?case using Cons.IH [of "a * 10 + int d"] Cons.prems by simp
qed simp

lemma to_int_small: "0 \<le> v \<Longrightarrow> v < 2 ^ 31 \<Longrightarrow> to_int v = v"
  unfolding to_int_def by (rule signed_take_bit_int_eq_self) simp_all

lemma decimal_char:
  assumes "d < 10"
  shows "uint (scast (digit_char False d) :: u64) = 48 + int d"
    "(scast (digit_char False d) :: u64) \<ge> 0x30" "(scast (digit_char False d) :: u64) \<le> 0x39"
    "(scast (digit_char False d) :: u64) = 0x30 \<longleftrightarrow> d = 0" "(scast (digit_char False d) :: u64) \<noteq> 0x2d"
proof -
  have "d = 0 \<or> d = 1 \<or> d = 2 \<or> d = 3 \<or> d = 4 \<or> d = 5 \<or> d = 6 \<or> d = 7 \<or> d = 8 \<or> d = 9"
    using assms by arith
  then show "uint (scast (digit_char False d) :: u64) = 48 + int d"
    "(scast (digit_char False d) :: u64) \<ge> 0x30" "(scast (digit_char False d) :: u64) \<le> 0x39"
    "(scast (digit_char False d) :: u64) = 0x30 \<longleftrightarrow> d = 0" "(scast (digit_char False d) :: u64) \<noteq> 0x2d"
    by (elim disjE; simp add: digit_char_def hex_digits_def)+
qed

lemma vbprintf_width:
  "\<lbrakk>\<forall>d\<in>set ws. d < 10; fs_state (fr_s r) = 1; fs_precision (fr_s r) = - 1; 0 \<le> fs_width (fr_s r);
    decimal (fs_width (fr_s r)) ws < 2 ^ 31; idx - fr_start_idx r \<noteq> 1 \<and> fr_start_idx r < idx \<or>
    idx - fr_start_idx r = 1 \<and> (ws \<noteq> [] \<longrightarrow> hd ws \<noteq> 0)\<rbrakk> \<Longrightarrow>
   vbprintf_loop tab fmt idx (map (digit_char False) ws @ ys) r =
   vbprintf_loop tab fmt (idx + length ws) ys
     (r\<lparr>fr_s := (fr_s r)\<lparr>fs_width := decimal (fs_width (fr_s r)) ws,
        fs_fill := (if ws \<noteq> [] \<and> fs_fill (fr_s r) = 0 then 0x20 else fs_fill (fr_s r))\<rparr>\<rparr>)"
proof (induction ws arbitrary: r idx)
  case (Cons d ws)
  have d: "d < 10" "\<not> (idx - fr_start_idx r = 1 \<and> d = 0)" using Cons.prems by auto
  let ?w = "fs_width (fr_s r) * 10 + int d"
  have "?w < 2 ^ 31" "0 \<le> ?w" using decimal_mono [of ?w ws] Cons.prems(4,5) by simp_all
  then have w: "to_int (fs_width (fr_s r) * 10 + (48 + int d) - 48) = ?w" using to_int_small [of ?w] by simp
  let ?r = "r\<lparr>fr_s := (fr_s r)\<lparr>fs_fill := (if fs_fill (fr_s r) = 0 then 0x20 else fs_fill (fr_s r)), fs_width := ?w\<rparr>\<rparr>"
  have "vbprintf_loop tab fmt idx (map (digit_char False) (d # ws) @ ys) r =
      vbprintf_loop tab fmt (Suc idx) (map (digit_char False) ws @ ys) ?r"
    using d Cons.prems(2,3) w decimal_char [OF d(1)] by (auto simp: conversion_step_def Let_def)
  also have "\<dots> = vbprintf_loop tab fmt (Suc idx + length ws) ys
     (?r\<lparr>fr_s := (fr_s ?r)\<lparr>fs_width := decimal (fs_width (fr_s ?r)) ws,
        fs_fill := (if ws \<noteq> [] \<and> fs_fill (fr_s ?r) = 0 then 0x20 else fs_fill (fr_s ?r))\<rparr>\<rparr>)"
    by (rule Cons.IH) (use Cons.prems \<open>0 \<le> ?w\<close> in auto)
  finally show ?case by (auto simp: fun_eq_iff)
qed simp

lemma vbprintf_precision:
  "\<lbrakk>\<forall>d\<in>set ps. d < 10; fs_state (fr_s r) = 1; 0 \<le> fs_precision (fr_s r);
    decimal (fs_precision (fr_s r)) ps < 2 ^ 31; fr_start_idx r + 1 < idx\<rbrakk> \<Longrightarrow>
   vbprintf_loop tab fmt idx (map (digit_char False) ps @ ys) r =
   vbprintf_loop tab fmt (idx + length ps) ys
     (r\<lparr>fr_s := (fr_s r)\<lparr>fs_precision := decimal (fs_precision (fr_s r)) ps\<rparr>\<rparr>)"
proof (induction ps arbitrary: r idx)
  case (Cons d ps)
  have d: "d < 10" "idx - fr_start_idx r \<noteq> 1" using Cons.prems by auto
  let ?w = "fs_precision (fr_s r) * 10 + int d"
  have "?w < 2 ^ 31" "0 \<le> ?w" using decimal_mono [of ?w ps] Cons.prems(3,4) by simp_all
  then have w: "to_int (fs_precision (fr_s r) * 10 + (48 + int d) - 48) = ?w" using to_int_small [of ?w] by simp
  let ?r = "r\<lparr>fr_s := (fr_s r)\<lparr>fs_precision := ?w\<rparr>\<rparr>"
  have "vbprintf_loop tab fmt idx (map (digit_char False) (d # ps) @ ys) r =
      vbprintf_loop tab fmt (Suc idx) (map (digit_char False) ps @ ys) ?r"
    using d Cons.prems(2,3) w decimal_char [OF d(1)] by (auto simp: conversion_step_def Let_def)
  also have "\<dots> = vbprintf_loop tab fmt (Suc idx + length ps) ys
     (?r\<lparr>fr_s := (fr_s ?r)\<lparr>fs_precision := decimal (fs_precision (fr_s ?r)) ps\<rparr>\<rparr>)"
    by (rule Cons.IH) (use Cons.prems \<open>0 \<le> ?w\<close> in auto)
  finally show ?case by simp
qed simp

text \<open>A conversion of a number: optional flag, width, precision and length modifier.\<close>

record directive =
  dv_flag :: "u8 option"
  dv_width :: "nat list"
  dv_precision :: "nat list option"
  dv_long :: bool
  dv_conv :: u8

definition wf_directive :: "directive \<Rightarrow> bool" where
  "wf_directive v \<longleftrightarrow>
     dv_flag v \<in> {None, Some 0x30, Some 0x2d} \<and> dv_conv v \<in> {0x64, 0x75, 0x78, 0x58} \<and>
     (\<forall>d\<in>set (dv_width v). d < 10) \<and> decimal 0 (dv_width v) < 2 ^ 31 \<and>
     (dv_flag v = None \<and> dv_width v \<noteq> [] \<longrightarrow> hd (dv_width v) \<noteq> 0) \<and>
     (\<forall>ps. dv_precision v = Some ps \<longrightarrow> (\<forall>d\<in>set ps. d < 10) \<and> decimal 0 ps \<le> 64)"

definition directive_text :: "directive \<Rightarrow> u8 list" where
  "directive_text v =
     0x25 # (case dv_flag v of None \<Rightarrow> [] | Some f \<Rightarrow> [f]) @ map (digit_char False) (dv_width v) @
     (case dv_precision v of None \<Rightarrow> [] | Some ps \<Rightarrow> 0x2e # map (digit_char False) ps) @
     (if dv_long v then [0x6c] else []) @ [dv_conv v]"

definition directive_state :: "directive \<Rightarrow> formatter_state" where
  "directive_state v =
     \<lparr>fs_state = 1, fs_format = uint (dv_conv v), fs_modifier = (if dv_long v then 0x6c else 0),
      fs_width = decimal 0 (dv_width v), fs_align = (if dv_flag v = Some 0x2d then 0x2d else 0),
      fs_fill = (if dv_flag v = Some 0x30 then 0x30 else if dv_width v = [] then 0 else 0x20),
      fs_precision = (case dv_precision v of None \<Rightarrow> - 1 | Some ps \<Rightarrow> decimal 0 ps)\<rparr>"

lemma init_runtime_numbers:
  assumes "init_runtime h buf = Some tab" "c \<in> {0x64, 0x75, 0x78, 0x58}"
  shows "FORMATTER tab (scast (c :: u8)) = Some (format_number h buf, True)"
  using assms by (auto simp: init_runtime_def register_format_def FORMATTER_def)

lemma conversion_char:
  assumes "c \<in> {0x64, 0x75, 0x78, 0x58 :: u8}"
  shows "(scast c :: u64) > 32" "(scast c :: u64) < 128" "\<not> (scast c :: u64) \<le> 0x39" "(scast c :: u64) \<noteq> 0x6c"
    "(scast c :: u64) \<noteq> 0x25" "(scast c :: u64) \<noteq> 0x2e" "(scast c :: u64) \<noteq> 0x30" "(scast c :: u64) \<noteq> 0x2d"
    "uint (scast c :: u64) = uint c"
  using assms by auto

lemma vbprintf_directive_parse:
  assumes v: "wf_directive v" and tab: "init_runtime h buf = Some tab"
    and r: "fr_s r = reset_formatter_state"
  shows "vbprintf_loop tab fmt idx (directive_text v @ ys) r =
     (case format_number h buf (fr_dest r) (directive_state v) (fr_ap r) of
        None \<Rightarrow> None
      | Some (d, ap) \<Rightarrow> vbprintf_loop tab fmt (idx + length (directive_text v)) ys
          (r\<lparr>fr_dest := d, fr_ap := ap, fr_start_idx := idx\<rparr>))"
proof -
  obtain d0 s0 i0 a0 where rr: "r = \<lparr>fr_dest = d0, fr_s = s0, fr_start_idx = i0, fr_ap = a0\<rparr>"
    by (cases r) auto
  then have s0: "s0 = reset_formatter_state" using r by simp
  define r1 where "r1 = r\<lparr>fr_s := (fr_s r)\<lparr>fs_state := 1\<rparr>, fr_start_idx := idx\<rparr>"
  define nf where "nf = (case dv_flag v of None \<Rightarrow> 0 | Some f \<Rightarrow> (1 :: nat))"
  define r2 where "r2 = r1\<lparr>fr_s := (fr_s r1)\<lparr>fs_fill := (if dv_flag v = Some 0x30 then 0x30 else 0),
      fs_align := (if dv_flag v = Some 0x2d then 0x2d else 0)\<rparr>\<rparr>"
  define r3 where "r3 = r2\<lparr>fr_s := (fr_s r2)\<lparr>fs_width := decimal 0 (dv_width v),
      fs_fill := (if dv_flag v = Some 0x30 then 0x30 else if dv_width v = [] then 0 else 0x20)\<rparr>\<rparr>"
  define i3 where "i3 = Suc idx + nf + length (dv_width v)"
  define r4 where "r4 = r3\<lparr>fr_s := (fr_s r3)\<lparr>fs_precision := (case dv_precision v of None \<Rightarrow> - 1 | Some ps \<Rightarrow> decimal 0 ps)\<rparr>\<rparr>"
  define i4 where "i4 = i3 + (case dv_precision v of None \<Rightarrow> 0 | Some ps \<Rightarrow> Suc (length ps))"
  define r5 where "r5 = r4\<lparr>fr_s := (fr_s r4)\<lparr>fs_modifier := (if dv_long v then 0x6c else 0)\<rparr>\<rparr>"
  define i5 where "i5 = i4 + (if dv_long v then 1 else 0)"
  note rs = r1_def r2_def r3_def r4_def r5_def rr s0 reset_formatter_state_def
  let ?loop = "vbprintf_loop tab fmt"
  have s2: "?loop (Suc idx) ((case dv_flag v of None \<Rightarrow> [] | Some f \<Rightarrow> [f]) @ zs) r1 = ?loop (Suc idx + nf) zs r2" for zs
    using v by (auto simp: wf_directive_def nf_def rs conversion_step_def)
  have s3: "?loop (Suc idx + nf) (map (digit_char False) (dv_width v) @ zs) r2 = ?loop i3 zs r3" for zs
  proof -
    have "nf = 0 \<longleftrightarrow> dv_flag v = None" by (simp add: nf_def split: option.splits)
    then show ?thesis
      using v vbprintf_width [of "dv_width v" r2 "Suc idx + nf" tab fmt zs]
      by (auto simp: wf_directive_def rs i3_def)
  qed
  have s4: "?loop i3 ((case dv_precision v of None \<Rightarrow> [] | Some ps \<Rightarrow> 0x2e # map (digit_char False) ps) @ zs) r3 = ?loop i4 zs r4" for zs
  proof (cases "dv_precision v")
    case None
    then show ?thesis by (simp add: i4_def rs)
  next
    case (Some ps)
    let ?r = "r3\<lparr>fr_s := (fr_s r3)\<lparr>fs_precision := 0\<rparr>\<rparr>"
    have "?loop i3 ((0x2e # map (digit_char False) ps) @ zs) r3 = ?loop (Suc i3) (map (digit_char False) ps @ zs) ?r"
      by (simp add: rs conversion_step_def)
    then show ?thesis
      using v Some vbprintf_precision [of ps ?r "Suc i3" tab fmt zs]
      by (auto simp: wf_directive_def rs i3_def i4_def)
  qed
  have s5: "?loop i4 ((if dv_long v then [0x6c] else []) @ zs) r4 = ?loop i5 zs r5" for zs
    by (simp add: i5_def rs conversion_step_def)
  have s6: "?loop i5 (dv_conv v # ys) r5 =
     (case format_number h buf (fr_dest r) (directive_state v) (fr_ap r) of
        None \<Rightarrow> None
      | Some (d, ap) \<Rightarrow> ?loop (Suc i5) ys (r\<lparr>fr_dest := d, fr_ap := ap, fr_start_idx := idx\<rparr>))"
  proof -
    have c: "dv_conv v \<in> {0x64, 0x75, 0x78, 0x58}" using v by (simp add: wf_directive_def)
    have dir: "(fr_s r5)\<lparr>fs_format := uint (dv_conv v)\<rparr> = directive_state v"
      by (simp add: rs directive_state_def)
    have upd: "r5\<lparr>fr_dest := d, fr_ap := ap, fr_s := reset_formatter_state\<rparr> = r\<lparr>fr_dest := d, fr_ap := ap, fr_start_idx := idx\<rparr>" for d ap
      by (simp add: rs)
    have f: "fs_state (fr_s r5) = 1" "fr_dest r5 = fr_dest r" "fr_ap r5 = fr_ap r"
      by (simp_all add: rs)
    have "conversion_step tab fmt i5 (scast (dv_conv v)) r5 =
        do { (d, ap) \<leftarrow> format_number h buf (fr_dest r) (directive_state v) (fr_ap r);
             Some (r\<lparr>fr_dest := d, fr_ap := ap, fr_start_idx := idx\<rparr>) }"
      using conversion_char [OF c] init_runtime_numbers [OF tab c]
      by (simp add: conversion_step_def f dir upd Let_def)
    then show ?thesis
      using f(1) by (cases "format_number h buf (fr_dest r) (directive_state v) (fr_ap r)") auto
  qed
  have len: "idx + length (directive_text v) = Suc i5"
    by (simp add: i5_def i4_def i3_def nf_def directive_text_def split: option.splits)
  have s1: "?loop idx (0x25 # zs) r = ?loop (Suc idx) zs r1" for zs
    by (simp add: rs)
  show ?thesis
    unfolding len unfolding directive_text_def append.simps append_assoc s1 s2 s3 s4 s5 by (rule s6)
qed

text \<open>
  Property C35. Formatted numbers. For every conversion \<^verbatim>\<open>%d\<close>, \<^verbatim>\<open>%u\<close>, \<^verbatim>\<open>%x\<close> and
  \<^verbatim>\<open>%X\<close> with any flag, width below \<open>2 ^ 31\<close>, precision up to 64 and length modifier, between any two
  pieces of plain text, \<^verbatim>\<open>vbprintf\<close> with the registered conversions writes the first piece, the
  number in the base, sign, precision and alignment that the directive asks for, and the second piece,
  consumes exactly one argument, and never fails an assertion or leaves its local buffer.
\<close>

theorem vbprintf_number_correct:
  assumes "init_runtime h buf = Some tab" "heap_ok h" "length buf = 64" "wf_directive v" "plain p" "plain q"
    and "wf_buffer d"
    and x: "x = (if dv_long v then w else if dv_conv v = 0x64 then scast (ucast w :: u32) else ucast (ucast w :: u32))"
    and "roomy d (length (p @ number_text (directive_state v) x @ q))"
  shows "\<exists>d'. vbprintf tab d (p @ directive_text v @ q) (Arg_word w # ap) = Some (d', ap) \<and>
    wf_buffer d' \<and> bytes_of d' = bytes_of d @ p @ number_text (directive_state v) x @ q"
proof -
  let ?s = "directive_state v" and ?fmt = "p @ directive_text v @ q"
  let ?r = "\<lambda>d i a. \<lparr>fr_dest = d, fr_s = reset_formatter_state, fr_start_idx = i, fr_ap = a\<rparr>"
  have dv: "dv_conv v \<in> {0x64, 0x75, 0x78, 0x58}" using assms(4) by (simp add: wf_directive_def)
  have arg: "number_arg ?s (Arg_word w # ap) = Some (x, ap)"
    using dv by (auto simp: number_arg_def directive_state_def x)
  have "fs_precision ?s \<le> 64" "fs_align ?s = 0 \<or> fs_align ?s = 0x2d"
    using assms(4) by (auto simp: directive_state_def wf_directive_def split: option.splits)
  from format_number_emits [OF assms(2,3) this arg]
  have num: "emits (\<lambda>d. map_option fst (format_number h buf d ?s (Arg_word w # ap))) (number_text ?s x)" .
  have rest: "snd y = ap" if "format_number h buf d ?s (Arg_word w # ap) = Some y" for d y
    using that arg by (auto simp: format_number_def Let_def split: Option.bind_splits if_splits)
  obtain d1 where d1: "vbprintf_loop tab ?fmt 0 ?fmt (?r d 0 (Arg_word w # ap)) =
      vbprintf_loop tab ?fmt (length p) (directive_text v @ q) (?r d1 0 (Arg_word w # ap))"
      "written d p d1" "roomy d1 (length (number_text ?s x) + length q)"
    using vbprintf_plain [OF assms(5), of "?r d 0 (Arg_word w # ap)" "length (number_text ?s x) + length q"
        tab ?fmt 0 "directive_text v @ q"] assms(7,9)
    by (auto simp: reset_formatter_state_def)
  obtain d2 where d2: "format_number h buf d1 ?s (Arg_word w # ap) = Some (d2, ap)"
      "written d1 (number_text ?s x) d2" "roomy d2 (length q)"
    using num written_wf [OF d1(2)] d1(3) rest unfolding emits_def by fastforce
  let ?n = "length p + length (directive_text v)"
  obtain d3 where d3: "vbprintf_loop tab ?fmt ?n (q @ []) (?r d2 (length p) ap) =
      vbprintf_loop tab ?fmt (?n + length q) [] (?r d3 (length p) ap)" "written d2 q d3"
    using vbprintf_plain [OF assms(6), of "?r d2 (length p) ap" 0 tab ?fmt ?n "[]"] written_wf [OF d2(2)] d2(3)
    by (auto simp: reset_formatter_state_def)
  have "vbprintf_loop tab ?fmt 0 ?fmt (?r d 0 (Arg_word w # ap)) = Some (?r d3 (length p) ap)"
    using d1(1) d2(1) d3(1)
      vbprintf_directive_parse [OF assms(4,1), of "?r d1 0 (Arg_word w # ap)" ?fmt "length p" q] by simp
  moreover have "written d (p @ number_text ?s x @ q) d3"
    using written_trans [OF d1(2) written_trans [OF d2(2) d3(2)]] .
  ultimately show ?thesis by (auto simp: vbprintf_def written_def)
qed

theorem vbprintf_number_correct_witness:
  "\<exists>tab d'. init_runtime sample_heap (replicate 64 0) = Some tab \<and>
     vbprintf tab empty_buffer [0x61, 0x25, 0x2d, 0x36, 0x64, 0x7c] [Arg_word (- 42)] = Some (d', []) \<and>
     bytes_of d' = [0x61, 0x2d, 0x34, 0x32, 0x20, 0x20, 0x20, 0x7c]"
proof -
  let ?v = "\<lparr>dv_flag = Some 0x2d, dv_width = [6], dv_precision = None, dv_long = False, dv_conv = 0x64\<rparr>"
  obtain tab where tab: "init_runtime sample_heap (replicate 64 0) = Some tab"
    by (simp add: init_runtime_def register_format_def)
  have v: "wf_directive ?v" by (simp add: wf_directive_def)
  have t: "directive_text ?v = [0x25, 0x2d, 0x36, 0x64]" by (simp add: directive_text_def digit_char_def hex_digits_def)
  have x: "scast (ucast (- 42 :: u64) :: u32) = (- 42 :: u64)" by simp
  have gap: "replicate 3 (0x20 :: u8) = [0x20, 0x20, 0x20]" by (simp add: numeral_3_eq_3)
  have neg: "(- 42 :: u64) <s 0" by (simp add: word_sless_alt)
  have n: "number_digits 10 0 42 = [4, 2]" by (simp add: number_digits.simps)
  have shown: "number_text (directive_state ?v) (- 42) = [0x2d, 0x34, 0x32, 0x20, 0x20, 0x20]"
    using n neg by (simp add: number_text_def number_text_digits_def negative_def number_base_def directive_state_def
        digit_char_def hex_digits_def Let_def gap)
  have "heap_ok sample_heap" by (simp add: heap_ok_def sample_heap_def)
  from vbprintf_number_correct [OF tab this _ v, of "[0x61]" "[0x7c]" empty_buffer "- 42" "- 42" "[]"]
  show ?thesis using tab empty_buffer_ok t x shown by (auto simp: plain_def)
qed

end
