(* ===== verification/Strings.thy ===== *)
theory Strings
  imports Text
begin

text \<open>
  The string functions of \<^verbatim>\<open>kernel/src/runtime/string.c\<close>. An \<^verbatim>\<open>sstring\<close> is a pointer with a
  length, here the list of its bytes; a pointer into it is an offset, the null pointer is \<open>None\<close>. A
  \<^verbatim>\<open>char\<close> is compared after its extension with sign.
\<close>

section \<open>Search\<close>

fun strchr_at :: "u8 list \<Rightarrow> int \<Rightarrow> nat \<Rightarrow> nat option" where
  "strchr_at [] c i = None"
| "strchr_at (x # xs) c i = (if (scast x :: u64) = word_of_int c then Some i else strchr_at xs c (Suc i))"

definition runtime_strchr :: "u8 list \<Rightarrow> int \<Rightarrow> nat option" where
  "runtime_strchr s c = strchr_at s c 0"

fun strrchr_below :: "u8 list \<Rightarrow> int \<Rightarrow> nat \<Rightarrow> nat option" where
  "strrchr_below s c 0 = None"
| "strrchr_below s c (Suc i) = (if sint (s ! i) = c then Some i else strrchr_below s c i)"

definition runtime_strrchr :: "u8 list \<Rightarrow> int \<Rightarrow> nat option" where
  "runtime_strrchr s c = strrchr_below s c (length s)"

text \<open>
  \<^verbatim>\<open>runtime_memcmp\<close> is zero exactly on equal areas; the comparison of the two areas is the
  comparison of the lists.
\<close>

fun strstr_at :: "u8 list \<Rightarrow> u8 list \<Rightarrow> nat \<Rightarrow> nat \<Rightarrow> nat option" where
  "strstr_at haystack needle i 0 = None"
| "strstr_at haystack needle i (Suc n) =
     (if take (length needle) (drop i haystack) = needle then Some i else strstr_at haystack needle (Suc i) n)"

definition runtime_strstr :: "u8 list \<Rightarrow> u8 list \<Rightarrow> nat option" where
  "runtime_strstr haystack needle =
     (if length needle > length haystack then None
      else strstr_at haystack needle 0 (length haystack - length needle + 1))"

section \<open>Tokens\<close>

definition delimiter :: "u8 list \<Rightarrow> u8 \<Rightarrow> bool" where
  "delimiter delim x \<longleftrightarrow> runtime_strchr delim (sint x) \<noteq> None"

text \<open>\<open>str\<close> is \<open>None\<close> for the null pointer; the results are the token and the new \<^verbatim>\<open>saveptr\<close>.\<close>

definition runtime_strtok_r :: "u8 list option \<Rightarrow> u8 list \<Rightarrow> u8 list \<Rightarrow> u8 list option \<times> u8 list" where
  "runtime_strtok_r str delim saveptr =
     (let save = (case str of Some s \<Rightarrow> s | None \<Rightarrow> saveptr);
          rest = dropWhile (delimiter delim) save
      in if rest = [] then (None, save)
         else (Some (takeWhile (\<lambda>x. \<not> delimiter delim x) rest), dropWhile (\<lambda>x. \<not> delimiter delim x) rest))"

text \<open>The difference of the lengths is converted to \<^verbatim>\<open>int\<close>; the areas lie at the given addresses.\<close>

definition runtime_strcmp :: "nat \<Rightarrow> nat \<Rightarrow> u8 list \<Rightarrow> u8 list \<Rightarrow> int option" where
  "runtime_strcmp a1 a2 string1 string2 =
     (if length string1 \<noteq> length string2 then
        Some (int_of (of_nat (length string1) - of_nat (length string2)))
      else memcmp_at a1 string1 0 a2 string2 (length string1))"

definition wrap_string :: "heap \<Rightarrow> u8 list \<Rightarrow> buffer option" where
  "wrap_string stringheap body =
     do { _ \<leftarrow> stringheap sizeof_buffer;
          Some \<lparr>b_start = 0, b_end = of_nat (length body), b_length = of_nat (length body), b_wrapped = True,
                b_h = stringheap, b_contents = body\<rparr> }"

definition allocate_string :: "heap \<Rightarrow> u64 \<Rightarrow> buffer option" where
  "allocate_string stringheap size0 = allocate_buffer stringheap size0"

section \<open>Correctness\<close>

lemma word_of_sint_byte: "(word_of_int (sint (y :: u8)) :: u64) = scast y"
  by (simp add: of_int_sint)

lemma sint_byte_eq: "sint (x :: u8) = sint y \<longleftrightarrow> x = y"
  using signed_word_eqI [of x y] by blast

lemma strchr_at_correct:
  "strchr_at s (sint y) i = (if y \<in> set s then Some (i + length (takeWhile (\<lambda>x. x \<noteq> y) s)) else None)"
  by (induction s arbitrary: i) (auto simp: scast_byte_eq word_of_sint_byte)

lemma runtime_strchr_correct:
  "runtime_strchr s (sint y) = (if y \<in> set s then Some (length (takeWhile (\<lambda>x. x \<noteq> y) s)) else None)"
  by (simp add: runtime_strchr_def strchr_at_correct)

lemma delimiter_iff: "delimiter delim x \<longleftrightarrow> x \<in> set delim"
  by (simp add: delimiter_def runtime_strchr_correct)

lemma strrchr_below_correct:
  "n \<le> length s \<Longrightarrow>
   (case strrchr_below s (sint y) n of
      None \<Rightarrow> \<forall>j<n. s ! j \<noteq> y
    | Some i \<Rightarrow> i < n \<and> s ! i = y \<and> (\<forall>j. i < j \<and> j < n \<longrightarrow> s ! j \<noteq> y))"
proof (induction n)
  case (Suc n)
  then show ?case
    by (auto simp: less_Suc_eq sint_byte_eq split: option.splits)
qed simp

lemma strstr_at_correct:
  "case strstr_at hay needle i n of
     None \<Rightarrow> \<forall>j<n. take (length needle) (drop (i + j) hay) \<noteq> needle
   | Some k \<Rightarrow> i \<le> k \<and> k < i + n \<and> take (length needle) (drop k hay) = needle \<and>
       (\<forall>j. i \<le> j \<and> j < k \<longrightarrow> take (length needle) (drop j hay) \<noteq> needle)"
proof (induction n arbitrary: i)
  case (Suc n)
  let ?at = "\<lambda>j. take (length needle) (drop j hay) = needle"
  show ?case
  proof (cases "?at i")
    case False
    show ?thesis
    proof (cases "strstr_at hay needle (Suc i) n")
      case None
      then have "\<forall>j<n. \<not> ?at (Suc (i + j))" using Suc.IH [of "Suc i"] by simp
      then show ?thesis using False None by (simp add: All_less_Suc2)
    next
      case (Some k)
      then have k: "Suc i \<le> k" "k < Suc i + n" "?at k" "\<And>j. Suc i \<le> j \<Longrightarrow> j < k \<Longrightarrow> \<not> ?at j"
        using Suc.IH [of "Suc i"] by simp_all
      have "\<not> ?at j" if "i \<le> j" "j < k" for j using False k(4) [of j] that by (cases "j = i") simp_all
      then show ?thesis using False Some k(1-3) by simp
    qed
  qed auto
qed simp

end
