(* ===== verification/Firewall.thy ===== *)
theory Firewall
  imports Strings
begin

text \<open>
  The packet filter of \<^verbatim>\<open>kernel/klib/firewall.c\<close>: the matching of packets against rules and the
  construction of the rules from the configuration. The protocol headers belong to lwIP, which is not
  part of the repository: their layout, their constants and the parsing of addresses are the fields of
  the record \<open>lwip\<close>, an argument of every definition that uses them. A packet is the list of its
  bytes, a pointer into it an offset; a read behind its end is \<open>None\<close>, and so is the use of a
  constraint whose body has not the form its type asks for.
\<close>

section \<open>The interface of lwIP\<close>

text \<open>Size, offset of the length byte and offset of the next-header byte of an extension header.\<close>

record ext_layout =
  xl_size :: nat
  xl_hlen :: nat
  xl_nexth :: nat

record lwip =
  lw_version :: "u8 list \<Rightarrow> u8 option"
  lw_iph_hl_bytes :: "u8 list \<Rightarrow> nat option"
  lw_iph_offset :: "u8 list \<Rightarrow> u16 option"
  lw_iph_proto :: "u8 list \<Rightarrow> u8 option"
  lw_ip_offmask :: u16
  lw_ip4_src :: nat
  lw_ip6_src :: nat
  lw_ip6_hlen :: nat
  lw_ip6_nexth :: nat
  lw_nexth_none :: u8
  lw_nexth_hopbyhop :: u8
  lw_nexth_destopts :: u8
  lw_nexth_routing :: u8
  lw_nexth_fragment :: u8
  lw_hbh :: ext_layout
  lw_dest :: ext_layout
  lw_rout :: ext_layout
  lw_frag_nexth :: nat
  lw_frag_offset :: "u8 list \<Rightarrow> u16 option"
  lw_frag_offset_mask :: u16
  lw_tcp_size :: nat
  lw_tcp_dest :: "u8 list \<Rightarrow> u16 option"
  lw_udp_size :: nat
  lw_udp_dest :: "u8 list \<Rightarrow> u16 option"
  lw_proto_tcp :: u8
  lw_proto_udp :: u8
  lw_htons :: "u16 \<Rightarrow> u16"
  lw_htonl :: "u32 \<Rightarrow> u32"
  lw_ip4addr_aton :: "u8 list \<Rightarrow> u8 list option"
  lw_ip6addr_aton :: "u8 list \<Rightarrow> u8 list option"

section \<open>Rules\<close>

definition FW_L3_SRC :: int where "FW_L3_SRC = 0"

definition FW_L3_FRAG :: int where "FW_L3_FRAG = 1"

definition FW_L3_PROTO :: int where "FW_L3_PROTO = 2"

definition FW_L4_DEST :: int where "FW_L4_DEST = 0"

text \<open>The tails of \<^verbatim>\<open>firewall_constraint_val\<close> and \<^verbatim>\<open>firewall_constraint_buf\<close>.\<close>

datatype constraint_body = C_val u64 | C_buf u64 "u8 list"

record firewall_constraint =
  fc_type :: int
  fc_equals :: bool
  fc_body :: constraint_body

text \<open>A null vector is \<open>None\<close>; \<open>fw_drop\<close> is \<open>None\<close> until the field is written.\<close>

record firewall_rule =
  fw_ip_version :: u8
  fw_l4_proto :: u8
  fw_l3_match :: "firewall_constraint list option"
  fw_l4_match :: "firewall_constraint list option"
  fw_drop :: "bool option"

section \<open>Matching\<close>

definition firewall_match_val :: "u64 \<Rightarrow> firewall_constraint \<Rightarrow> bool option" where
  "firewall_match_val val c =
     (case fc_body c of C_val v \<Rightarrow> Some ((val = v) = fc_equals c) | C_buf _ _ \<Rightarrow> None)"

definition firewall_match_buf :: "u8 list \<Rightarrow> nat \<Rightarrow> firewall_constraint \<Rightarrow> bool option" where
  "firewall_match_buf pkt buf c =
     (case fc_body c of
        C_val _ \<Rightarrow> None
      | C_buf len cbuf \<Rightarrow> do {
          let byte_count = unat (len div 8);
          match \<leftarrow> (if byte_count \<noteq> 0 then do {
                      a \<leftarrow> peek pkt buf byte_count;
                      b \<leftarrow> peek cbuf 0 byte_count;
                      Some (a = b) }
                    else Some True);
          if \<not> match then Some (if fc_equals c then False else True)
          else do {
            let bit_count = unat (len AND 7);
            if bit_count = 0 then Some True
            else do {
              let bit_mask = NOT (mask (8 - bit_count) :: u8);
              x \<leftarrow> load_byte pkt (buf + byte_count);
              y \<leftarrow> load_byte cbuf byte_count;
              Some (((x AND bit_mask) = (y AND bit_mask)) = fc_equals c) } } })"

text \<open>A loop over constraints that stops at the first one that does not hold.\<close>

fun all_match :: "(firewall_constraint \<Rightarrow> bool option) \<Rightarrow> firewall_constraint list \<Rightarrow> bool option" where
  "all_match f [] = Some True"
| "all_match f (c # cs) = do { ok \<leftarrow> f c; if ok then all_match f cs else Some False }"

definition ip4_is_fragment :: "lwip \<Rightarrow> u8 list \<Rightarrow> bool option" where
  "ip4_is_fragment L hdr =
     do { off \<leftarrow> lw_iph_offset L hdr; Some (off AND lw_ip_offmask L \<noteq> 0) }"

definition ip4_constraint :: "lwip \<Rightarrow> u8 list \<Rightarrow> firewall_constraint \<Rightarrow> bool option" where
  "ip4_constraint L hdr c =
     (if fc_type c = FW_L3_SRC then firewall_match_buf hdr (lw_ip4_src L) c
      else if fc_type c = FW_L3_FRAG then do {
        frag \<leftarrow> ip4_is_fragment L hdr; firewall_match_val (if frag then 1 else 0) c }
      else if fc_type c = FW_L3_PROTO then do {
        proto \<leftarrow> lw_iph_proto L hdr; firewall_match_val (ucast proto) c }
      else Some True)"

text \<open>The result with the pointer stored through \<^verbatim>\<open>l4_hdr\<close>; \<open>l4\<close> is what it held before.\<close>

definition firewall_ip4_match ::
  "lwip \<Rightarrow> firewall_constraint list \<Rightarrow> u8 list \<Rightarrow> nat option \<Rightarrow> (bool \<times> nat option) option" where
  "firewall_ip4_match L constraints buf l4 =
     do { hdr_len \<leftarrow> lw_iph_hl_bytes L buf;
          if length buf < hdr_len then Some (False, l4)
          else do {
            ok \<leftarrow> all_match (ip4_constraint L buf) constraints;
            if \<not> ok then Some (False, l4)
            else do {
              frag \<leftarrow> ip4_is_fragment L buf;
              Some (True, if \<not> frag then Some hdr_len else None) } } }"

text \<open>
  What one round of the loop of \<^verbatim>\<open>firewall_ip6_get_hdr\<close> finds at \<open>off\<close> with \<open>len\<close> bytes left:
  a header that is cut off, a known extension header with its length and the offset of its
  next-header byte, or any other header.
\<close>

datatype ext_header = Ext_short | Ext nat nat | Ext_other

definition known_ext :: "u8 list \<Rightarrow> nat \<Rightarrow> nat \<Rightarrow> ext_layout \<Rightarrow> ext_header option" where
  "known_ext pkt off len x =
     (if len < xl_size x then Some Ext_short
      else do {
        h \<leftarrow> load_byte pkt (off + xl_hlen x);
        Some (Ext (8 * (1 + unat h)) (off + xl_nexth x)) })"

definition ext_at :: "lwip \<Rightarrow> u8 list \<Rightarrow> nat \<Rightarrow> nat \<Rightarrow> u8 \<Rightarrow> ext_header option" where
  "ext_at L pkt off len hdr =
     (if hdr = lw_nexth_hopbyhop L then known_ext pkt off len (lw_hbh L)
      else if hdr = lw_nexth_destopts L then known_ext pkt off len (lw_dest L)
      else if hdr = lw_nexth_routing L then known_ext pkt off len (lw_rout L)
      else if hdr = lw_nexth_fragment L then Some (Ext 8 (off + lw_frag_nexth L))
      else Some Ext_other)"

text \<open>
  The loop; the second component of the result is what is stored through \<^verbatim>\<open>hdr_ptr\<close>, or \<open>None\<close>
  when the function returns before it stores anything.
\<close>

function ip6_hdr_walk :: "lwip \<Rightarrow> u8 list \<Rightarrow> u8 \<Rightarrow> u8 \<Rightarrow> nat \<Rightarrow> nat \<Rightarrow> (u8 \<times> nat option option) option" where
  "ip6_hdr_walk L pkt hdr_type hdr off len =
     (if hdr = lw_nexth_none L then Some (hdr, Some (Some off))
      else
        (case ext_at L pkt off len hdr of
           None \<Rightarrow> None
         | Some Ext_short \<Rightarrow> Some (0, None)
         | Some Ext_other \<Rightarrow> Some (hdr, Some (Some off))
         | Some (Ext hlen nexth) \<Rightarrow>
             if len < hlen then Some (hdr, Some None)
             else if hdr = hdr_type \<or> hlen = 0 then Some (hdr, Some (Some off))
             else
               (case load_byte pkt nexth of
                  None \<Rightarrow> None
                | Some hdr' \<Rightarrow> ip6_hdr_walk L pkt hdr_type hdr' (off + hlen) (len - hlen))))"
  by auto
termination by (relation "measure (\<lambda>(L, pkt, hdr_type, hdr, off, len). len)") auto

definition firewall_ip6_get_hdr :: "lwip \<Rightarrow> u8 list \<Rightarrow> u8 \<Rightarrow> (u8 \<times> nat option option) option" where
  "firewall_ip6_get_hdr L pkt hdr_type =
     do { hdr \<leftarrow> load_byte pkt (lw_ip6_nexth L);
          ip6_hdr_walk L pkt hdr_type hdr (lw_ip6_hlen L) (length pkt - lw_ip6_hlen L) }"

definition firewall_ip6_is_fragment :: "lwip \<Rightarrow> u8 list \<Rightarrow> nat option \<Rightarrow> bool option" where
  "firewall_ip6_is_fragment L pkt frag0 =
     do { (hdr_type, stored) \<leftarrow> firewall_ip6_get_hdr L pkt (lw_nexth_fragment L);
          let frag_hdr = (case stored of None \<Rightarrow> frag0 | Some p \<Rightarrow> p);
          if hdr_type = lw_nexth_fragment L then
            (case frag_hdr of
               None \<Rightarrow> Some False
             | Some p \<Rightarrow> do {
                 v \<leftarrow> lw_frag_offset L (drop p pkt);
                 Some (v AND lw_frag_offset_mask L \<noteq> 0) })
          else Some False }"

text \<open>
  \<^verbatim>\<open>frag_parsed\<close> is never set, so the fragment header is looked up again for every constraint.
  \<open>frag0\<close> is the initial content of the local variable of \<^verbatim>\<open>firewall_ip6_is_fragment\<close>.
\<close>

fun ip6_constraints ::
  "lwip \<Rightarrow> u8 list \<Rightarrow> nat option \<Rightarrow> firewall_constraint list \<Rightarrow> nat option \<Rightarrow> (bool \<times> nat option) option" where
  "ip6_constraints L pkt frag0 [] l4 = Some (True, l4)"
| "ip6_constraints L pkt frag0 (c # cs) l4 =
     (if fc_type c = FW_L3_SRC then do {
        ok \<leftarrow> firewall_match_buf pkt (lw_ip6_src L) c;
        if ok then ip6_constraints L pkt frag0 cs l4 else Some (False, l4) }
      else if fc_type c = FW_L3_FRAG then do {
        frag \<leftarrow> firewall_ip6_is_fragment L pkt frag0;
        ok \<leftarrow> firewall_match_val (if frag then 1 else 0) c;
        if ok then ip6_constraints L pkt frag0 cs l4 else Some (False, l4) }
      else if fc_type c = FW_L3_PROTO then do {
        (proto, stored) \<leftarrow> firewall_ip6_get_hdr L pkt (lw_nexth_none L);
        let l4 = (case stored of None \<Rightarrow> l4 | Some p \<Rightarrow> p);
        if l4 = None then Some (False, l4)
        else do {
          ok \<leftarrow> firewall_match_val (ucast proto) c;
          if \<not> ok then Some (False, l4)
          else do {
            frag \<leftarrow> firewall_ip6_is_fragment L pkt frag0;
            ip6_constraints L pkt frag0 cs (if frag then None else l4) } } }
      else ip6_constraints L pkt frag0 cs l4)"

definition firewall_ip6_match ::
  "lwip \<Rightarrow> nat option \<Rightarrow> firewall_constraint list \<Rightarrow> u8 list \<Rightarrow> nat option \<Rightarrow> (bool \<times> nat option) option" where
  "firewall_ip6_match L frag0 constraints buf l4 =
     (if length buf < lw_ip6_hlen L then Some (False, l4) else ip6_constraints L buf frag0 constraints l4)"

definition l4_constraint :: "(u8 list \<Rightarrow> u16 option) \<Rightarrow> u8 list \<Rightarrow> firewall_constraint \<Rightarrow> bool option" where
  "l4_constraint dest hdr c =
     (if fc_type c = FW_L4_DEST then do { d \<leftarrow> dest hdr; firewall_match_val (ucast d) c } else Some True)"

definition firewall_tcp_match :: "lwip \<Rightarrow> firewall_constraint list \<Rightarrow> u8 list \<Rightarrow> bool option" where
  "firewall_tcp_match L constraints buf =
     (if length buf < lw_tcp_size L then Some False
      else all_match (l4_constraint (lw_tcp_dest L) buf) constraints)"

definition firewall_udp_match :: "lwip \<Rightarrow> firewall_constraint list \<Rightarrow> u8 list \<Rightarrow> bool option" where
  "firewall_udp_match L constraints buf =
     (if length buf < lw_udp_size L then Some False
      else all_match (l4_constraint (lw_udp_dest L) buf) constraints)"

text \<open>\<open>l4_0\<close> and \<open>frag0\<close> are what the uninitialised locals of the functions hold.\<close>

definition firewall_match :: "lwip \<Rightarrow> nat option \<Rightarrow> nat option \<Rightarrow> u8 list \<Rightarrow> firewall_rule \<Rightarrow> bool option" where
  "firewall_match L l4_0 frag0 payload rule =
     do { ip_version \<leftarrow> lw_version L payload;
          if fw_ip_version rule \<noteq> 0 \<and> fw_ip_version rule \<noteq> ip_version then Some False
          else
            (case fw_l3_match rule of
               None \<Rightarrow> Some True
             | Some l3 \<Rightarrow> do {
                 (ok, l4_hdr) \<leftarrow>
                   (if ip_version = 4 then firewall_ip4_match L l3 payload l4_0
                    else firewall_ip6_match L frag0 l3 payload l4_0);
                 if \<not> ok then Some False
                 else
                   (case fw_l4_match rule of
                      None \<Rightarrow> Some True
                    | Some l4 \<Rightarrow>
                        (case l4_hdr of
                           None \<Rightarrow> Some False
                         | Some p \<Rightarrow>
                             if fw_l4_proto rule = lw_proto_tcp L then firewall_tcp_match L l4 (drop p payload)
                             else if fw_l4_proto rule = lw_proto_udp L then firewall_udp_match L l4 (drop p payload)
                             else Some False)) }) }"

text \<open>The result 1 lets the packet pass, the result 0 frees it.\<close>

fun firewall_filter :: "lwip \<Rightarrow> nat option \<Rightarrow> nat option \<Rightarrow> firewall_rule list \<Rightarrow> u8 list \<Rightarrow> int option" where
  "firewall_filter L l4_0 frag0 [] pbuf = Some 1"
| "firewall_filter L l4_0 frag0 (rule # rules) pbuf =
     do { m \<leftarrow> firewall_match L l4_0 frag0 pbuf rule;
          if m then do { d \<leftarrow> fw_drop rule; Some (if d then 0 else 1) }
          else firewall_filter L l4_0 frag0 rules pbuf }"

end
