(* ===== verification/Firewall_Config.thy ===== *)
theory Firewall_Config
  imports Firewall Bits
begin

text \<open>
  How \<^verbatim>\<open>kernel/klib/firewall.c\<close> builds its rules from the configuration tuple and installs them. A
  configuration value is a tuple, a vector, a string or something else; \<open>cget\<close> and \<open>cget_at\<close> are the
  lookups of \<^verbatim>\<open>tuple.c\<close>. Allocations do not fail (\<^verbatim>\<open>MEM_NOFAIL\<close>); vectors of pointers are lists.
  The strings of the configuration are not read again after they are parsed, so that parsing consumes
  them is not recorded. Released memory is recorded by its size.
\<close>

section \<open>Configuration values\<close>

datatype cvalue = V_tuple "(string \<times> cvalue) list" | V_vector "cvalue list" | V_string buffer | V_other

definition is_tuple :: "cvalue \<Rightarrow> bool" where
  "is_tuple v = (case v of V_tuple _ \<Rightarrow> True | _ \<Rightarrow> False)"

definition is_string :: "cvalue \<Rightarrow> bool" where
  "is_string v = (case v of V_string _ \<Rightarrow> True | _ \<Rightarrow> False)"

definition is_composite :: "cvalue \<Rightarrow> bool" where
  "is_composite v = (case v of V_tuple _ \<Rightarrow> True | V_vector _ \<Rightarrow> True | _ \<Rightarrow> False)"

text \<open>\<^verbatim>\<open>get\<close> with a symbol that is no number, and with \<^verbatim>\<open>integer_key(i)\<close>; other values halt.\<close>

definition cget :: "cvalue \<Rightarrow> string \<Rightarrow> cvalue option option" where
  "cget e a = (case e of V_tuple fs \<Rightarrow> Some (map_of fs a) | V_vector _ \<Rightarrow> Some None | _ \<Rightarrow> None)"

definition decimal_string :: "nat \<Rightarrow> string" where
  "decimal_string i = map (\<lambda>d. char_of (48 + d)) (number_digits 10 0 i)"

definition cget_at :: "cvalue \<Rightarrow> nat \<Rightarrow> cvalue option option" where
  "cget_at e i =
     (case e of
        V_tuple fs \<Rightarrow> Some (map_of fs (decimal_string i))
      | V_vector vs \<Rightarrow> Some (if i < length vs then Some (vs ! i) else None)
      | _ \<Rightarrow> None)"

definition get_string :: "cvalue \<Rightarrow> string \<Rightarrow> buffer option option" where
  "get_string e a =
     do { v \<leftarrow> cget e a; Some (case v of Some (V_string b) \<Rightarrow> Some b | _ \<Rightarrow> None) }"

text \<open>
  The environment of the parser: lwIP, the heap of wrapped buffers, and where the strings of the
  configuration and of the code lie in memory, as \<^verbatim>\<open>runtime_memcmp\<close> depends on alignment.
\<close>

record config_env =
  ce_lwip :: lwip
  ce_heap :: heap
  ce_buf :: nat
  ce_lit :: nat

definition buffer_streq :: "config_env \<Rightarrow> buffer \<Rightarrow> u8 list \<Rightarrow> bool option" where
  "buffer_streq E b str =
     do { r \<leftarrow> buffer_compare_with_sstring (ce_buf E) (ce_lit E) b str; Some (r = 0) }"

section \<open>Constraints\<close>

text \<open>The fields \<^verbatim>\<open>equals\<close> and \<^verbatim>\<open>val\<close> of the new constraint, or \<open>None\<close> for a null result.\<close>

definition firewall_create_constraint_val :: "lwip \<Rightarrow> cvalue \<Rightarrow> nat \<Rightarrow> (bool \<times> u64) option option" where
  "firewall_create_constraint_val L v val_size =
     (case v of
        V_string b \<Rightarrow>
          if buffer_length b = 0 then Some None
          else do {
            ch \<leftarrow> peek_char b;
            let neq = (ch = 0x21);
            b \<leftarrow> (if neq then buffer_consume b 1 else Some b);
            (ok, val, _) \<leftarrow> parse_int b 10;
            if \<not> ok then Some None
            else Some (Some (\<not> neq,
              if val_size = 1 then val
              else if val_size = 2 then ucast (lw_htons L (ucast val))
              else if val_size = 4 then ucast (lw_htonl L (ucast val))
              else push_bit 32 (ucast (lw_htonl L (ucast val))) OR ucast (lw_htonl L (ucast (drop_bit 32 val))))) }
      | _ \<Rightarrow> Some None)"

definition sizeof_constraint_val :: u64 where "sizeof_constraint_val = 16"

definition sizeof_constraint_buf :: u64 where "sizeof_constraint_buf = 16"

definition sizeof_rule :: u64 where "sizeof_rule = 48"

text \<open>The sizes of the blocks that are released.\<close>

definition firewall_dealloc_l3_constraint :: "firewall_constraint \<Rightarrow> u64 list option" where
  "firewall_dealloc_l3_constraint c =
     (if fc_type c = FW_L3_SRC then
        (case fc_body c of
           C_buf len _ \<Rightarrow> Some [sizeof_constraint_buf + pad len 8 div 8]
         | C_val _ \<Rightarrow> None)
      else if fc_type c = FW_L3_FRAG \<or> fc_type c = FW_L3_PROTO then Some [sizeof_constraint_val]
      else Some [])"

definition firewall_dealloc_l4_constraint :: "firewall_constraint \<Rightarrow> u64 list option" where
  "firewall_dealloc_l4_constraint c =
     (if fc_type c = FW_L4_DEST then Some [sizeof_constraint_val] else Some [])"

definition firewall_dealloc_ip4_constraint :: "firewall_constraint \<Rightarrow> u64 list option" where
  "firewall_dealloc_ip4_constraint c = firewall_dealloc_l3_constraint c"

definition firewall_dealloc_ip6_constraint :: "firewall_constraint \<Rightarrow> u64 list option" where
  "firewall_dealloc_ip6_constraint c = firewall_dealloc_l3_constraint c"

definition firewall_dealloc_tcp_constraint :: "firewall_constraint \<Rightarrow> u64 list option" where
  "firewall_dealloc_tcp_constraint c = firewall_dealloc_l4_constraint c"

definition firewall_dealloc_udp_constraint :: "firewall_constraint \<Rightarrow> u64 list option" where
  "firewall_dealloc_udp_constraint c = firewall_dealloc_l4_constraint c"

section \<open>Layer 3\<close>

text \<open>The network mask behind the slash at \<open>i\<close>, or the length of the whole address.\<close>

definition parse_netmask :: "config_env \<Rightarrow> u8 list \<Rightarrow> nat option \<Rightarrow> bool \<Rightarrow> u64 option option" where
  "parse_netmask E str slash ipv6 =
     (case slash of
        None \<Rightarrow> Some (Some (if ipv6 then 128 else 32))
      | Some i \<Rightarrow> do {
          let netmask_str = drop (i + 1) str;
          (ok, netmask, rest) \<leftarrow>
            parse_int (alloca_wrap_buffer (ce_heap E) netmask_str (of_nat (length netmask_str))) 10;
          if \<not> ok \<or> buffer_length rest \<noteq> 0 \<or> netmask = 0 \<or> netmask > (if ipv6 then 128 else 32)
          then Some None else Some (Some netmask) })"

text \<open>The constraint for the source address; the inner \<open>None\<close> is an error in the configuration.\<close>

definition parse_src :: "config_env \<Rightarrow> cvalue \<Rightarrow> bool \<Rightarrow> firewall_constraint option option" where
  "parse_src E src ipv6 =
     (case src of
        V_string b \<Rightarrow>
          if buffer_length b = 0 then Some None
          else do {
            (p, l) \<leftarrow> buffer_to_sstring b;
            let str = take (unat l) p;
            first \<leftarrow> load_byte str 0;
            let neq = (first = 0x21);
            let str = (if neq then drop 1 str else str);
            let slash = runtime_strchr str 0x2f;
            let addr_str = (case slash of Some i \<Rightarrow> take i str | None \<Rightarrow> str);
            case (if ipv6 then lw_ip6addr_aton (ce_lwip E) addr_str else lw_ip4addr_aton (ce_lwip E) addr_str) of
              None \<Rightarrow> Some None
            | Some addr \<Rightarrow> do {
                nm \<leftarrow> parse_netmask E str slash ipv6;
                case nm of
                  None \<Rightarrow> Some None
                | Some netmask \<Rightarrow> do {
                    buf \<leftarrow> peek addr 0 (unat (pad netmask 8 div 8));
                    Some (Some \<lparr>fc_type = FW_L3_SRC, fc_equals = (\<not> neq), fc_body = C_buf netmask buf\<rparr>) } } }
      | _ \<Rightarrow> Some None)"

definition parse_fragment :: "config_env \<Rightarrow> buffer \<Rightarrow> firewall_constraint option option" where
  "parse_fragment E fragment =
     do { y \<leftarrow> buffer_streq E fragment [0x79];
          if y then Some (Some \<lparr>fc_type = FW_L3_FRAG, fc_equals = True, fc_body = C_val 1\<rparr>)
          else do {
            n \<leftarrow> buffer_streq E fragment [0x6e];
            Some (if n then Some \<lparr>fc_type = FW_L3_FRAG, fc_equals = True, fc_body = C_val 0\<rparr> else None) } }"

text \<open>\<^verbatim>\<open>vector_push(rule->l3_match, c)\<close> and its counterpart for layer 4.\<close>

definition push_l3 :: "firewall_constraint \<Rightarrow> firewall_rule \<Rightarrow> firewall_rule" where
  "push_l3 c rule = rule\<lparr>fw_l3_match := map_option (\<lambda>v. v @ [c]) (fw_l3_match rule)\<rparr>"

definition push_l4 :: "firewall_constraint \<Rightarrow> firewall_rule \<Rightarrow> firewall_rule" where
  "push_l4 c rule = rule\<lparr>fw_l4_match := map_option (\<lambda>v. v @ [c]) (fw_l4_match rule)\<rparr>"

definition firewall_rule_parse_l3 ::
  "config_env \<Rightarrow> firewall_rule \<Rightarrow> cvalue \<Rightarrow> bool \<Rightarrow> (bool \<times> firewall_rule) option" where
  "firewall_rule_parse_l3 E rule spec ipv6 =
     (if \<not> is_tuple spec then Some (False, rule)
      else do {
        let rule = rule\<lparr>fw_l3_match := Some []\<rparr>;
        src \<leftarrow> cget spec ''src'';
        (ok, rule) \<leftarrow>
          (case src of
             None \<Rightarrow> Some (True, rule)
           | Some v \<Rightarrow> do {
               c \<leftarrow> parse_src E v ipv6;
               Some (case c of None \<Rightarrow> (False, rule) | Some c \<Rightarrow> (True, push_l3 c rule)) });
        if \<not> ok then Some (False, rule)
        else do {
          fragment \<leftarrow> get_string spec ''fragment'';
          (ok, rule) \<leftarrow>
            (case fragment of
               None \<Rightarrow> Some (True, rule)
             | Some b \<Rightarrow> do {
                 c \<leftarrow> parse_fragment E b;
                 Some (case c of None \<Rightarrow> (False, rule) | Some c \<Rightarrow> (True, push_l3 c rule)) });
          if \<not> ok then Some (False, rule)
          else Some (True, rule\<lparr>fw_ip_version := (if ipv6 then 6 else 4)\<rparr>) } })"

text \<open>An empty vector is released again.\<close>

definition drop_empty_l3 :: "bool \<times> firewall_rule \<Rightarrow> bool \<times> firewall_rule" where
  "drop_empty_l3 r =
     (if fst r \<and> fw_l3_match (snd r) = Some [] then (True, (snd r)\<lparr>fw_l3_match := None\<rparr>) else r)"

definition firewall_rule_parse_ip4 :: "config_env \<Rightarrow> firewall_rule \<Rightarrow> cvalue \<Rightarrow> (bool \<times> firewall_rule) option" where
  "firewall_rule_parse_ip4 E rule spec = map_option drop_empty_l3 (firewall_rule_parse_l3 E rule spec False)"

definition firewall_rule_parse_ip6 :: "config_env \<Rightarrow> firewall_rule \<Rightarrow> cvalue \<Rightarrow> (bool \<times> firewall_rule) option" where
  "firewall_rule_parse_ip6 E rule spec = map_option drop_empty_l3 (firewall_rule_parse_l3 E rule spec True)"

section \<open>Layer 4\<close>

definition firewall_rule_add_l4_proto :: "firewall_rule \<Rightarrow> u8 \<Rightarrow> firewall_rule" where
  "firewall_rule_add_l4_proto rule proto =
     (let rule = (if fw_l3_match rule = None then rule\<lparr>fw_l3_match := Some []\<rparr> else rule)
      in (push_l3 \<lparr>fc_type = FW_L3_PROTO, fc_equals = True, fc_body = C_val (ucast proto)\<rparr> rule)\<lparr>fw_l4_proto := proto\<rparr>)"

definition firewall_rule_parse_l4 ::
  "lwip \<Rightarrow> firewall_rule \<Rightarrow> cvalue \<Rightarrow> u8 \<Rightarrow> (bool \<times> firewall_rule) option" where
  "firewall_rule_parse_l4 L rule spec proto =
     (if \<not> is_tuple spec then Some (False, rule)
      else do {
        let rule = rule\<lparr>fw_l4_match := Some []\<rparr>;
        dest \<leftarrow> cget spec ''dest'';
        (ok, rule) \<leftarrow>
          (case dest of
             None \<Rightarrow> Some (True, rule)
           | Some v \<Rightarrow> do {
               c \<leftarrow> firewall_create_constraint_val L v 2;
               Some (case c of
                  None \<Rightarrow> (False, rule)
                | Some (equals, val) \<Rightarrow>
                    (True, push_l4 \<lparr>fc_type = FW_L4_DEST, fc_equals = equals, fc_body = C_val val\<rparr> rule)) });
        if \<not> ok then Some (False, rule)
        else
          let rule = firewall_rule_add_l4_proto rule proto
          in Some (True, if fw_l4_match rule = Some [] then rule\<lparr>fw_l4_match := None\<rparr> else rule) })"

definition firewall_rule_parse_tcp :: "lwip \<Rightarrow> firewall_rule \<Rightarrow> cvalue \<Rightarrow> (bool \<times> firewall_rule) option" where
  "firewall_rule_parse_tcp L rule spec = firewall_rule_parse_l4 L rule spec (lw_proto_tcp L)"

definition firewall_rule_parse_udp :: "lwip \<Rightarrow> firewall_rule \<Rightarrow> cvalue \<Rightarrow> (bool \<times> firewall_rule) option" where
  "firewall_rule_parse_udp L rule spec = firewall_rule_parse_l4 L rule spec (lw_proto_udp L)"

section \<open>Rules and configuration\<close>

text \<open>An optional part of a rule: \<open>f\<close> runs if the configuration has the part and nothing failed before.\<close>

definition optional_part ::
  "cvalue option \<Rightarrow> (firewall_rule \<Rightarrow> cvalue \<Rightarrow> (bool \<times> firewall_rule) option) \<Rightarrow> firewall_rule \<Rightarrow>
   (bool \<times> firewall_rule) option" where
  "optional_part v f rule = (case v of None \<Rightarrow> Some (True, rule) | Some v \<Rightarrow> f rule v)"

definition parse_action :: "config_env \<Rightarrow> cvalue option \<Rightarrow> firewall_rule \<Rightarrow> (bool \<times> firewall_rule) option" where
  "parse_action E action rule =
     (case action of
        None \<Rightarrow> Some (True, rule\<lparr>fw_drop := Some True\<rparr>)
      | Some (V_string b) \<Rightarrow> do {
          accept \<leftarrow> buffer_streq E b [0x61, 0x63, 0x63, 0x65, 0x70, 0x74];
          if accept then Some (True, rule\<lparr>fw_drop := Some False\<rparr>)
          else do {
            drp \<leftarrow> buffer_streq E b [0x64, 0x72, 0x6f, 0x70];
            Some (if drp then (True, rule\<lparr>fw_drop := Some True\<rparr>) else (False, rule)) } }
      | _ \<Rightarrow> Some (False, rule))"

text \<open>The stages of \<^verbatim>\<open>firewall_create_rule\<close>, each with its own lookup, and the early return between them.\<close>

definition ip4_stage :: "config_env \<Rightarrow> cvalue \<Rightarrow> firewall_rule \<Rightarrow> (bool \<times> firewall_rule) option" where
  "ip4_stage E spec rule = do { ip4 \<leftarrow> cget spec ''ip''; optional_part ip4 (firewall_rule_parse_ip4 E) rule }"

definition ip6_stage :: "config_env \<Rightarrow> cvalue \<Rightarrow> firewall_rule \<Rightarrow> (bool \<times> firewall_rule) option" where
  "ip6_stage E spec rule =
     do { ip4 \<leftarrow> cget spec ''ip'';
          ip6 \<leftarrow> cget spec ''ip6'';
          if ip6 \<noteq> None \<and> ip4 \<noteq> None then Some (False, rule)
          else optional_part ip6 (firewall_rule_parse_ip6 E) rule }"

definition tcp_stage :: "config_env \<Rightarrow> cvalue \<Rightarrow> firewall_rule \<Rightarrow> (bool \<times> firewall_rule) option" where
  "tcp_stage E spec rule =
     do { l4 \<leftarrow> cget spec ''tcp''; optional_part l4 (firewall_rule_parse_tcp (ce_lwip E)) rule }"

definition udp_stage :: "config_env \<Rightarrow> cvalue \<Rightarrow> firewall_rule \<Rightarrow> (bool \<times> firewall_rule) option" where
  "udp_stage E spec rule =
     do { l4 \<leftarrow> cget spec ''udp'';
          if l4 \<noteq> None \<and> fw_l4_proto rule \<noteq> 0 then Some (False, rule)
          else optional_part l4 (firewall_rule_parse_udp (ce_lwip E)) rule }"

definition action_stage :: "config_env \<Rightarrow> cvalue \<Rightarrow> firewall_rule \<Rightarrow> (bool \<times> firewall_rule) option" where
  "action_stage E spec rule = do { action \<leftarrow> cget spec ''action''; parse_action E action rule }"

definition and_then ::
  "(bool \<times> firewall_rule) option \<Rightarrow> (firewall_rule \<Rightarrow> (bool \<times> firewall_rule) option) \<Rightarrow> (bool \<times> firewall_rule) option" where
  "and_then m f = do { (ok, rule) \<leftarrow> m; if ok then f rule else Some (False, rule) }"

text \<open>The rule as far as it has been filled in; the caller holds it in the list of rules.\<close>

definition fill_rule :: "config_env \<Rightarrow> cvalue \<Rightarrow> firewall_rule \<Rightarrow> (bool \<times> firewall_rule) option" where
  "fill_rule E spec rule =
     and_then (and_then (and_then (and_then (ip4_stage E spec rule) (ip6_stage E spec)) (tcp_stage E spec))
       (udp_stage E spec)) (action_stage E spec)"

definition firewall_create_rule ::
  "config_env \<Rightarrow> firewall_rule list \<Rightarrow> cvalue \<Rightarrow> (bool \<times> firewall_rule list) option" where
  "firewall_create_rule E rules spec =
     (if \<not> is_tuple spec then Some (False, rules)
      else do {
        let rule = \<lparr>fw_ip_version = 0, fw_l4_proto = 0, fw_l3_match = None, fw_l4_match = None, fw_drop = None\<rparr>;
        (ok, rule) \<leftarrow> fill_rule E spec rule;
        Some (ok, rules @ [rule]) })"

fun dealloc_all :: "(firewall_constraint \<Rightarrow> u64 list option) \<Rightarrow> firewall_constraint list \<Rightarrow> u64 list option" where
  "dealloc_all f [] = Some []"
| "dealloc_all f (c # cs) = do { x \<leftarrow> f c; xs \<leftarrow> dealloc_all f cs; Some (x @ xs) }"

text \<open>The blocks of the vectors are released with them and not recorded.\<close>

definition firewall_destroy_rule :: "lwip \<Rightarrow> firewall_rule \<Rightarrow> u64 list option" where
  "firewall_destroy_rule L rule =
     do { l3 \<leftarrow> (case fw_l3_match rule of
                   None \<Rightarrow> Some []
                 | Some v \<Rightarrow> dealloc_all
                     (\<lambda>c. if fw_ip_version rule = 4 then firewall_dealloc_ip4_constraint c
                          else if fw_ip_version rule = 6 then firewall_dealloc_ip6_constraint c
                          else firewall_dealloc_l3_constraint c) v);
          l4 \<leftarrow> (case fw_l4_match rule of
                   None \<Rightarrow> Some []
                 | Some v \<Rightarrow> dealloc_all
                     (\<lambda>c. if fw_l4_proto rule = lw_proto_tcp L then firewall_dealloc_tcp_constraint c
                          else if fw_l4_proto rule = lw_proto_udp L then firewall_dealloc_udp_constraint c
                          else firewall_dealloc_l4_constraint c) v);
          Some (l3 @ l4 @ [sizeof_rule]) }"

fun destroy_rules :: "lwip \<Rightarrow> firewall_rule list \<Rightarrow> u64 list option" where
  "destroy_rules L [] = Some []"
| "destroy_rules L (r # rs) = do { x \<leftarrow> firewall_destroy_rule L r; xs \<leftarrow> destroy_rules L rs; Some (x @ xs) }"

partial_function (option) create_rules ::
  "config_env \<Rightarrow> cvalue \<Rightarrow> nat \<Rightarrow> firewall_rule list \<Rightarrow> (bool \<times> firewall_rule list) option" where
  "create_rules E specs i rules =
     do { spec \<leftarrow> cget_at specs i;
          case spec of
            None \<Rightarrow> Some (True, rules)
          | Some s \<Rightarrow> do {
              (ok, rules) \<leftarrow> firewall_create_rule E rules s;
              if \<not> ok then Some (False, rules) else create_rules E specs (i + 1) rules } }"

datatype klib_init = KLIB_INIT_FAILED | KLIB_INIT_OK

text \<open>The status, the rules of the installed filter if one is installed, and the released blocks.\<close>

definition firewall_init :: "config_env \<Rightarrow> cvalue \<Rightarrow> (klib_init \<times> firewall_rule list option \<times> u64 list) option" where
  "firewall_init E root =
     do { config \<leftarrow> cget root ''firewall'';
          case config of
            None \<Rightarrow> Some (KLIB_INIT_OK, None, [])
          | Some config \<Rightarrow>
              if \<not> is_tuple config then Some (KLIB_INIT_FAILED, None, [])
              else do {
                rules \<leftarrow> cget config ''rules'';
                case rules of
                  None \<Rightarrow> Some (KLIB_INIT_OK, None, [])
                | Some specs \<Rightarrow>
                    if \<not> is_composite specs then Some (KLIB_INIT_FAILED, None, [])
                    else do {
                      (ok, rules) \<leftarrow> create_rules E specs 0 [];
                      if ok then Some (KLIB_INIT_OK, if rules = [] then None else Some rules, [])
                      else do { freed \<leftarrow> destroy_rules (ce_lwip E) rules; Some (KLIB_INIT_FAILED, None, freed) } } } }"

end
