(* ===== verification/Firewall_Match.thy ===== *)
theory Firewall_Match
  imports Firewall
begin

text \<open>
  What a constraint on an address means and that matching is safe: for rules of the right form and
  packets of the minimal size no read leaves the packet, no constraint is used with the wrong form,
  and the verdict does not depend on the locals that the code leaves uninitialised.
\<close>

section \<open>Address prefixes\<close>

text \<open>Bit \<open>i\<close> of an address in network order, and agreement on the first \<open>n\<close> bits.\<close>

definition net_bit :: "u8 list \<Rightarrow> nat \<Rightarrow> bool" where
  "net_bit xs i = bit (xs ! (i div 8)) (7 - i mod 8)"

definition prefix_agrees :: "nat \<Rightarrow> u8 list \<Rightarrow> u8 list \<Rightarrow> bool" where
  "prefix_agrees n xs ys \<longleftrightarrow> (\<forall>i<n. net_bit xs i = net_bit ys i)"

lemma byte_eq_iff: "(x :: u8) = y \<longleftrightarrow> (\<forall>j<8. bit x (7 - j) = bit y (7 - j))"
proof
  assume h: "\<forall>j<8. bit x (7 - j) = bit y (7 - j)"
  show "x = y"
  proof (rule bit_word_eqI)
    fix m assume "m < LENGTH(8)"
    then show "bit x m = bit y m" using h [rule_format, of "7 - m"] by simp
  qed
qed simp

lemma masked_byte_eq_iff:
  assumes "0 < k" "k \<le> 8"
  shows "(x :: u8) AND NOT (mask (8 - k)) = y AND NOT (mask (8 - k)) \<longleftrightarrow> (\<forall>j<k. bit x (7 - j) = bit y (7 - j))"
proof -
  have "(x AND NOT (mask (8 - k)) = y AND NOT (mask (8 - k))) \<longleftrightarrow>
      (\<forall>j<8. bit (x AND NOT (mask (8 - k))) (7 - j) = bit (y AND NOT (mask (8 - k))) (7 - j))"
    by (rule byte_eq_iff)
  also have "\<dots> \<longleftrightarrow> (\<forall>j<8. j < k \<longrightarrow> bit x (7 - j) = bit y (7 - j))"
  proof (intro all_cong1 imp_cong refl)
    fix j :: nat assume "j < 8"
    then have "(7 - j < 8 - k) = (\<not> j < k)" using assms by arith
    then show "(bit (x AND NOT (mask (8 - k))) (7 - j) = bit (y AND NOT (mask (8 - k))) (7 - j)) =
        (j < k \<longrightarrow> bit x (7 - j) = bit y (7 - j))"
      by (auto simp: bit_simps)
  qed
  also have "\<dots> \<longleftrightarrow> (\<forall>j<k. bit x (7 - j) = bit y (7 - j))" using assms by auto
  finally show ?thesis .
qed

lemma all_less_add: "(\<forall>i<a + k. P i) \<longleftrightarrow> (\<forall>i<a. P i) \<and> (\<forall>j<k. P (a + j))" for a k :: nat
proof
  assume h: "(\<forall>i<a. P i) \<and> (\<forall>j<k. P (a + j))"
  show "\<forall>i<a + k. P i"
  proof (intro allI impI)
    fix i assume "i < a + k"
    then show "P i" using h by (cases "i < a") (auto dest: spec [of _ "i - a"])
  qed
qed simp

lemma prefix_agrees_split:
  "prefix_agrees (8 * n + k) xs ys \<longleftrightarrow>
     (\<forall>m<n. xs ! m = ys ! m) \<and> (\<forall>j<k. net_bit xs (8 * n + j) = net_bit ys (8 * n + j))"
proof -
  have "(\<forall>i<8 * n. net_bit xs i = net_bit ys i) \<longleftrightarrow> (\<forall>m<n. xs ! m = ys ! m)"
  proof
    assume h: "\<forall>i<8 * n. net_bit xs i = net_bit ys i"
    show "\<forall>m<n. xs ! m = ys ! m"
    proof (intro allI impI)
      fix m assume "m < n"
      have "bit (xs ! m) (7 - j) = bit (ys ! m) (7 - j)" if "j < 8" for j
        using h [rule_format, of "8 * m + j"] \<open>m < n\<close> that by (simp add: net_bit_def)
      then show "xs ! m = ys ! m" using byte_eq_iff by blast
    qed
  next
    assume "\<forall>m<n. xs ! m = ys ! m"
    then show "\<forall>i<8 * n. net_bit xs i = net_bit ys i" by (auto simp: net_bit_def less_mult_imp_div_less mult.commute)
  qed
  moreover have "(\<forall>i<8 * n + k. net_bit xs i = net_bit ys i) \<longleftrightarrow>
      (\<forall>i<8 * n. net_bit xs i = net_bit ys i) \<and> (\<forall>j<k. net_bit xs (8 * n + j) = net_bit ys (8 * n + j))"
    by (rule all_less_add)
  ultimately show ?thesis unfolding prefix_agrees_def by blast
qed

lemma firewall_match_buf_correct:
  assumes "fc_body c = C_buf len cbuf" "off + length cbuf \<le> length pkt" "length cbuf = (unat len + 7) div 8"
  shows "firewall_match_buf pkt off c =
    Some (if fc_equals c then prefix_agrees (unat len) (drop off pkt) cbuf
          else unat len mod 8 = 0 \<or> \<not> prefix_agrees (unat len) (drop off pkt) cbuf)"
proof -
  define n k where "n = unat len div 8" and "k = unat len mod 8"
  have len: "unat len = 8 * n + k" by (simp add: n_def k_def)
  have k: "k < 8" by (simp add: k_def)
  have "len AND 7 = take_bit 3 len" by (simp add: take_bit_eq_mask mask_eq_exp_minus_1)
  then have kb: "unat (len AND 7) = k" by (simp add: k_def take_bit_eq_mod unat_mod)
  have nb: "unat (len div 8) = n" by (simp add: n_def unat_div)
  have cb: "n + (if k = 0 then 0 else 1) = length cbuf"
  proof -
    have "(k + 7) div 8 = (if k = 0 then 0 else 1)" using k by presburger
    then show ?thesis using assms(3) len div_mult_self4 [of 8 n "k + 7"] by (simp add: add.assoc)
  qed
  let ?bytes = "take n (drop off pkt) = take n cbuf"
  let ?bits = "pkt ! (off + n) AND NOT (mask (8 - k)) = cbuf ! n AND NOT (mask (8 - k))"
  have bytes: "?bytes \<longleftrightarrow> (\<forall>m<n. drop off pkt ! m = cbuf ! m)"
    using cb assms(2) by (simp add: list_eq_iff_nth_eq)
  have bits: "(\<forall>j<k. net_bit (drop off pkt) (8 * n + j) = net_bit cbuf (8 * n + j)) \<longleftrightarrow> ?bits" if "k \<noteq> 0"
  proof -
    have "net_bit xs (8 * n + j) = bit (xs ! n) (7 - j)" if "j < k" for xs j using that k by (simp add: net_bit_def)
    moreover have "drop off pkt ! n = pkt ! (off + n)" using cb assms(2) that by (simp add: nth_drop)
    ultimately show ?thesis using masked_byte_eq_iff [of k "pkt ! (off + n)" "cbuf ! n"] k that by simp
  qed
  have agrees: "prefix_agrees (unat len) (drop off pkt) cbuf \<longleftrightarrow> ?bytes \<and> (k \<noteq> 0 \<longrightarrow> ?bits)"
    unfolding len prefix_agrees_split bytes using bits by (cases "k = 0") simp_all
  have reads: "peek pkt off n = Some (take n (drop off pkt))" "peek cbuf 0 n = Some (take n cbuf)"
    "k \<noteq> 0 \<Longrightarrow> load_byte pkt (off + n) = Some (pkt ! (off + n))" "k \<noteq> 0 \<Longrightarrow> load_byte cbuf n = Some (cbuf ! n)"
    using cb assms(2) by (auto simp: peek_def load_byte_def split: if_splits)
  show ?thesis
    unfolding firewall_match_buf_def assms(1) constraint_body.case kb nb Let_def agrees k_def [symmetric]
    using reads by (cases "n = 0"; cases "k = 0"; cases ?bytes) simp_all
qed

section \<open>Rules of the right form\<close>

text \<open>A constraint whose body fits its type; a prefix is not longer than an address of the version.\<close>

definition l3_ok :: "u8 \<Rightarrow> firewall_constraint \<Rightarrow> bool" where
  "l3_ok ver c \<longleftrightarrow>
     (case fc_body c of
        C_buf len buf \<Rightarrow> fc_type c = FW_L3_SRC \<and> (ver = 4 \<or> ver = 6) \<and> 0 < unat len \<and>
          unat len \<le> (if ver = 4 then 32 else 128) \<and> length buf = (unat len + 7) div 8
      | C_val v \<Rightarrow> fc_type c = FW_L3_FRAG \<or> fc_type c = FW_L3_PROTO)"

definition l4_ok :: "firewall_constraint \<Rightarrow> bool" where
  "l4_ok c \<longleftrightarrow> fc_type c = FW_L4_DEST \<and> (\<exists>v. fc_body c = C_val v)"

definition proto_constraint :: "u8 \<Rightarrow> firewall_constraint" where
  "proto_constraint proto = \<lparr>fc_type = FW_L3_PROTO, fc_equals = True, fc_body = C_val (ucast proto)\<rparr>"

definition l3_list_ok :: "u8 \<Rightarrow> firewall_constraint list \<Rightarrow> bool" where
  "l3_list_ok ver cs \<longleftrightarrow> (\<forall>c\<in>set cs. l3_ok ver c \<and> fc_type c \<noteq> FW_L3_PROTO)"

text \<open>
  A rule without a transport protocol has no constraint on it; a rule with one has it as the last
  constraint of layer 3.
\<close>

definition wf_match :: "lwip \<Rightarrow> firewall_rule \<Rightarrow> bool" where
  "wf_match L r \<longleftrightarrow>
     fw_ip_version r \<in> {0, 4, 6} \<and>
     (if fw_l4_proto r = 0 then
        fw_l4_match r = None \<and> (\<forall>cs. fw_l3_match r = Some cs \<longrightarrow> l3_list_ok (fw_ip_version r) cs)
      else
        fw_l4_proto r \<in> {lw_proto_tcp L, lw_proto_udp L} \<and>
        (\<exists>cs. fw_l3_match r = Some (cs @ [proto_constraint (fw_l4_proto r)]) \<and> l3_list_ok (fw_ip_version r) cs) \<and>
        (\<forall>cs. fw_l4_match r = Some cs \<longrightarrow> (\<forall>c\<in>set cs. l4_ok c)))"

definition wf_rule :: "lwip \<Rightarrow> firewall_rule \<Rightarrow> bool" where
  "wf_rule L r \<longleftrightarrow> wf_match L r \<and> fw_drop r \<noteq> None"

text \<open>What the code relies on in lwIP: fields lie inside their headers, and the constants differ.\<close>

definition ext_ok :: "ext_layout \<Rightarrow> bool" where
  "ext_ok x \<longleftrightarrow> xl_hlen x < xl_size x \<and> xl_nexth x < 8"

definition lwip_ok :: "lwip \<Rightarrow> bool" where
  "lwip_ok L \<longleftrightarrow>
     (\<forall>p. 0 < length p \<longrightarrow> lw_version L p \<noteq> None) \<and>
     (\<forall>p. 20 \<le> length p \<longrightarrow> lw_iph_hl_bytes L p \<noteq> None \<and> lw_iph_offset L p \<noteq> None \<and> lw_iph_proto L p \<noteq> None) \<and>
     lw_ip4_src L + 4 \<le> 20 \<and> lw_ip6_src L + 16 \<le> lw_ip6_hlen L \<and> lw_ip6_nexth L < lw_ip6_hlen L \<and>
     ext_ok (lw_hbh L) \<and> ext_ok (lw_dest L) \<and> ext_ok (lw_rout L) \<and> lw_frag_nexth L < 8 \<and>
     (\<forall>p. 8 \<le> length p \<longrightarrow> lw_frag_offset L p \<noteq> None) \<and>
     (\<forall>p. lw_tcp_size L \<le> length p \<longrightarrow> lw_tcp_dest L p \<noteq> None) \<and>
     (\<forall>p. lw_udp_size L \<le> length p \<longrightarrow> lw_udp_dest L p \<noteq> None) \<and>
     lw_nexth_fragment L \<noteq> 0 \<and> lw_nexth_fragment L \<noteq> lw_nexth_none L \<and>
     lw_proto_tcp L \<noteq> 0 \<and> lw_proto_udp L \<noteq> 0"

lemmas fw_types = FW_L3_SRC_def FW_L3_FRAG_def FW_L3_PROTO_def FW_L4_DEST_def

lemma match_val_total: "fc_body c = C_val v \<Longrightarrow> firewall_match_val x c = Some ((x = v) = fc_equals c)"
  by (simp add: firewall_match_val_def)

lemma match_buf_total:
  assumes "l3_ok ver c" "fc_type c = FW_L3_SRC" "off + (if ver = 4 then 4 else 16) \<le> length pkt"
  shows "firewall_match_buf pkt off c \<noteq> None"
proof -
  obtain len buf where b: "fc_body c = C_buf len buf" "unat len \<le> (if ver = 4 then 32 else 128)"
      "length buf = (unat len + 7) div 8"
    using assms(1,2) by (auto simp: l3_ok_def fw_types split: constraint_body.splits if_splits)
  have "length buf \<le> (if ver = 4 then 4 else 16)" using b(2,3) by (auto split: if_splits)
  then have "off + length buf \<le> length pkt" using assms(3) by linarith
  from firewall_match_buf_correct [OF b(1) this b(3)] show ?thesis by simp
qed

lemma all_match_total: "(\<And>c. c \<in> set cs \<Longrightarrow> f c \<noteq> None) \<Longrightarrow> all_match f cs \<noteq> None"
proof (induction cs)
  case (Cons c cs)
  then obtain ok where "f c = Some ok" by fastforce
  then show ?case using Cons by auto
qed simp

section \<open>IPv6 extension headers\<close>

lemma known_ext_total:
  assumes "ext_ok x" "off + len \<le> length pkt"
  shows "\<exists>e. known_ext pkt off len x = Some e \<and> e \<noteq> Ext_other \<and>
    (\<forall>hlen nexth. e = Ext hlen nexth \<longrightarrow> 8 \<le> hlen \<and> off \<le> nexth \<and> nexth < off + 8)"
  using assms by (auto simp: known_ext_def ext_ok_def load_byte_def)

lemma ext_at_total:
  assumes "lwip_ok L" "off + len \<le> length pkt"
  shows "\<exists>e. ext_at L pkt off len hdr = Some e \<and> (hdr = lw_nexth_fragment L \<longrightarrow> e \<noteq> Ext_other) \<and>
    (\<forall>hlen nexth. e = Ext hlen nexth \<longrightarrow> 8 \<le> hlen \<and> off \<le> nexth \<and> nexth < off + 8)"
proof -
  have ext: "ext_ok (lw_hbh L)" "ext_ok (lw_dest L)" "ext_ok (lw_rout L)" "lw_frag_nexth L < 8"
    using assms(1) by (simp_all add: lwip_ok_def)
  show ?thesis
    using known_ext_total [OF ext(1) assms(2)] known_ext_total [OF ext(2) assms(2)]
      known_ext_total [OF ext(3) assms(2)] ext(4)
    by (auto simp: ext_at_def)
qed

lemma ip6_hdr_walk_total:
  "\<lbrakk>lwip_ok L; off + len = length pkt\<rbrakk> \<Longrightarrow>
   \<exists>t st. ip6_hdr_walk L pkt hdr_type hdr off len = Some (t, st) \<and> (st = None \<longrightarrow> t = 0) \<and>
     (\<forall>p. st = Some (Some p) \<longrightarrow> p \<le> length pkt \<and>
       (t = lw_nexth_fragment L \<and> hdr_type = lw_nexth_fragment L \<longrightarrow> p + 8 \<le> length pkt))"
proof (induction L pkt hdr_type hdr off len rule: ip6_hdr_walk.induct)
  case (1 L pkt hdr_type hdr off len)
  obtain e where e: "ext_at L pkt off len hdr = Some e" "hdr = lw_nexth_fragment L \<longrightarrow> e \<noteq> Ext_other"
      "\<forall>hlen nexth. e = Ext hlen nexth \<longrightarrow> 8 \<le> hlen \<and> off \<le> nexth \<and> nexth < off + 8"
    using ext_at_total [OF 1(2), of off len pkt hdr] 1(3) by auto
  have distinct: "lw_nexth_fragment L \<noteq> lw_nexth_none L" using 1(2) by (simp add: lwip_ok_def)
  show ?case
  proof (cases "hdr = lw_nexth_none L")
    case True
    then show ?thesis using 1(3) distinct by (subst ip6_hdr_walk.simps) auto
  next
    case other: False
    show ?thesis
    proof (cases e)
      case Ext_short
      then show ?thesis using other e(1) by (subst ip6_hdr_walk.simps) simp
    next
      case Ext_other
      then show ?thesis using other e(1,2) 1(3) by (subst ip6_hdr_walk.simps) auto
    next
      case (Ext hlen nexth)
      then have h: "8 \<le> hlen" "off \<le> nexth" "nexth < off + 8" using e(3) by simp_all
      show ?thesis
      proof (cases "len < hlen \<or> hdr = hdr_type")
        case True
        then show ?thesis using other e(1) Ext h 1(3) by (subst ip6_hdr_walk.simps) auto
      next
        case False
        then have "nexth < length pkt" using h 1(3) by linarith
        then have l: "load_byte pkt nexth = Some (pkt ! nexth)" by (simp add: load_byte_def)
        have "off + hlen + (len - hlen) = length pkt" using False 1(3) by simp
        then show ?thesis
          using 1(1) [OF other e(1) Ext, of "pkt ! nexth"] False h l 1(2) other e(1) Ext
          by (subst ip6_hdr_walk.simps) auto
      qed
    qed
  qed
qed

lemma ip6_get_hdr_total:
  assumes "lwip_ok L" "lw_ip6_hlen L \<le> length pkt"
  shows "\<exists>t st. firewall_ip6_get_hdr L pkt hdr_type = Some (t, st) \<and> (st = None \<longrightarrow> t = 0) \<and>
     (\<forall>p. st = Some (Some p) \<longrightarrow> p \<le> length pkt \<and>
       (t = lw_nexth_fragment L \<and> hdr_type = lw_nexth_fragment L \<longrightarrow> p + 8 \<le> length pkt))"
proof -
  have "lw_ip6_nexth L < length pkt" using assms by (auto simp: lwip_ok_def)
  then have "load_byte pkt (lw_ip6_nexth L) = Some (pkt ! lw_ip6_nexth L)" by (simp add: load_byte_def)
  then show ?thesis
    using ip6_hdr_walk_total [OF assms(1), of "lw_ip6_hlen L" "length pkt - lw_ip6_hlen L" pkt hdr_type] assms(2)
    by (simp add: firewall_ip6_get_hdr_def)
qed

text \<open>Whether a packet is a fragment does not depend on the uninitialised pointer.\<close>

lemma ip6_is_fragment_total:
  assumes "lwip_ok L" "lw_ip6_hlen L \<le> length pkt"
  shows "\<exists>frag. \<forall>f0. firewall_ip6_is_fragment L pkt f0 = Some frag"
proof -
  obtain t st where st: "firewall_ip6_get_hdr L pkt (lw_nexth_fragment L) = Some (t, st)" "st = None \<longrightarrow> t = 0"
      "\<forall>p. st = Some (Some p) \<longrightarrow> p \<le> length pkt \<and> (t = lw_nexth_fragment L \<longrightarrow> p + 8 \<le> length pkt)"
    using ip6_get_hdr_total [OF assms, of "lw_nexth_fragment L"] by auto
  have nz: "lw_nexth_fragment L \<noteq> 0" using assms(1) by (simp add: lwip_ok_def)
  show ?thesis
  proof (cases "t = lw_nexth_fragment L")
    case True
    then obtain q where q: "st = Some q" using st(2) nz by auto
    show ?thesis
    proof (cases q)
      case (Some p)
      then have "8 \<le> length (drop p pkt)" using st(3) q True by auto
      then have "lw_frag_offset L (drop p pkt) \<noteq> None" using assms(1) unfolding lwip_ok_def by blast
      then show ?thesis using st(1) q Some True by (auto simp: firewall_ip6_is_fragment_def)
    qed (use st(1) q True in \<open>auto simp: firewall_ip6_is_fragment_def\<close>)
  qed (use st(1) in \<open>auto simp: firewall_ip6_is_fragment_def\<close>)
qed

section \<open>Layer 3\<close>

lemma ip6_constraints_append:
  "ip6_constraints L pkt f0 (cs @ ds) l4 =
     (case ip6_constraints L pkt f0 cs l4 of
        None \<Rightarrow> None
      | Some (ok, l4') \<Rightarrow> if ok then ip6_constraints L pkt f0 ds l4' else Some (False, l4'))"
  by (induction cs arbitrary: l4) (auto simp: Let_def split: Option.bind_splits option.splits)

lemma ip6_plain_constraints:
  "\<lbrakk>lwip_ok L; lw_ip6_hlen L \<le> length pkt; l3_list_ok ver cs; ver \<noteq> 4\<rbrakk> \<Longrightarrow>
   \<exists>ok. \<forall>f0 l4. ip6_constraints L pkt f0 cs l4 = Some (ok, l4)"
proof (induction cs)
  case (Cons c cs)
  then obtain rest where rest: "\<forall>f0 l4. ip6_constraints L pkt f0 cs l4 = Some (rest, l4)"
    by (auto simp: l3_list_ok_def)
  have c: "l3_ok ver c" "fc_type c \<noteq> FW_L3_PROTO" using Cons.prems(3) by (simp_all add: l3_list_ok_def)
  obtain frag where frag: "\<forall>f0. firewall_ip6_is_fragment L pkt f0 = Some frag"
    using ip6_is_fragment_total [OF Cons.prems(1,2)] by blast
  show ?case
  proof (cases "fc_type c = FW_L3_SRC")
    case True
    have "lw_ip6_src L + 16 \<le> length pkt" using Cons.prems(1,2) by (auto simp: lwip_ok_def)
    then obtain m where "firewall_match_buf pkt (lw_ip6_src L) c = Some m"
      using match_buf_total [OF c(1) True, of "lw_ip6_src L" pkt] Cons.prems(4) by auto
    then show ?thesis using True rest by auto
  next
    case False
    then obtain v where "fc_body c = C_val v" "fc_type c = FW_L3_FRAG"
      using c by (auto simp: l3_ok_def split: constraint_body.splits)
    then show ?thesis using False rest frag match_val_total [of c v] by auto
  qed
qed auto

lemma ucast_byte_eq: "(ucast (x :: u8) :: u64) = ucast y \<longleftrightarrow> x = y"
proof
  assume eq: "(ucast x :: u64) = ucast y"
  have again: "(ucast (ucast z :: u64) :: u8) = z" for z :: u8 by (rule bit_word_eqI) (auto simp: bit_simps)
  show "x = y" using arg_cong [OF eq, of "\<lambda>w. ucast w :: u8"] by (simp only: again)
qed simp

lemma ip6_proto_constraint:
  assumes "lwip_ok L" "lw_ip6_hlen L \<le> length pkt" "proto \<noteq> 0"
  shows "\<exists>ok p. \<forall>f0 l4. \<exists>l4'. ip6_constraints L pkt f0 [proto_constraint proto] l4 = Some (ok, l4') \<and>
    (ok \<longrightarrow> l4' = p \<and> (\<forall>q. p = Some q \<longrightarrow> q \<le> length pkt))"
proof -
  obtain t st where st: "firewall_ip6_get_hdr L pkt (lw_nexth_none L) = Some (t, st)" "st = None \<longrightarrow> t = 0"
      "\<forall>p. st = Some (Some p) \<longrightarrow> p \<le> length pkt"
    using ip6_get_hdr_total [OF assms(1,2), of "lw_nexth_none L"] by auto
  obtain frag where frag: "\<forall>f0. firewall_ip6_is_fragment L pkt f0 = Some frag"
    using ip6_is_fragment_total [OF assms(1,2)] by blast
  have val: "firewall_match_val (ucast t) (proto_constraint proto) = Some (t = proto)"
    by (simp add: firewall_match_val_def proto_constraint_def ucast_byte_eq)
  have types: "fc_type (proto_constraint proto) = FW_L3_PROTO" by (simp add: proto_constraint_def)
  show ?thesis
  proof (cases "st = None \<or> st = Some None \<or> t \<noteq> proto")
    case True
    then have "\<forall>f0 l4. \<exists>l4'. ip6_constraints L pkt f0 [proto_constraint proto] l4 = Some (False, l4')"
      using st(1,2) val assms(3) types by (auto simp: fw_types split: option.splits)
    then show ?thesis by blast
  next
    case False
    then obtain p where p: "st = Some (Some p)" "t = proto" by (metis not_None_eq)
    then have "\<forall>f0 l4. ip6_constraints L pkt f0 [proto_constraint proto] l4 = Some (True, if frag then None else Some p)"
      using st(1) val frag types by (auto simp: fw_types)
    then show ?thesis using st(3) p(1) by (intro exI [of _ True] exI [of _ "if frag then None else Some p"]) auto
  qed
qed

lemma ip4_constraints_total:
  assumes "lwip_ok L" "20 \<le> length pkt" "\<forall>c\<in>set cs. l3_ok ver c" "ver \<noteq> 6"
  shows "all_match (ip4_constraint L pkt) cs \<noteq> None"
proof (rule all_match_total)
  fix c assume "c \<in> set cs"
  then have c: "l3_ok ver c" using assms(3) by blast
  obtain off proto where reads: "lw_iph_offset L pkt = Some off" "lw_iph_proto L pkt = Some proto"
    using assms(1,2) unfolding lwip_ok_def by blast
  have src: "lw_ip4_src L + 4 \<le> length pkt" using assms(1,2) by (auto simp: lwip_ok_def)
  show "ip4_constraint L pkt c \<noteq> None"
  proof (cases "fc_body c")
    case (C_buf len buf)
    then have "fc_type c = FW_L3_SRC" "ver = 4" using c assms(4) by (auto simp: l3_ok_def)
    then show ?thesis using match_buf_total [OF c, of "lw_ip4_src L" pkt] src by (simp add: ip4_constraint_def)
  next
    case (C_val v)
    then have "fc_type c = FW_L3_FRAG \<or> fc_type c = FW_L3_PROTO" using c by (simp add: l3_ok_def)
    then show ?thesis using match_val_total [OF C_val] reads by (auto simp: ip4_constraint_def ip4_is_fragment_def fw_types)
  qed
qed

text \<open>The smallest packets the filter is called with: a version, and for IPv4 a whole fixed header.\<close>

definition packet_ok :: "lwip \<Rightarrow> u8 list \<Rightarrow> bool" where
  "packet_ok L pkt \<longleftrightarrow> 0 < length pkt \<and> (lw_version L pkt = Some 4 \<longrightarrow> 20 \<le> length pkt)"

section \<open>The verdict\<close>

lemma l4_match_total:
  assumes "lwip_ok L" "\<forall>c\<in>set cs. l4_ok c"
  shows "firewall_tcp_match L cs hdr \<noteq> None" "firewall_udp_match L cs hdr \<noteq> None"
proof -
  have "all_match (l4_constraint dest hdr) cs \<noteq> None" if "dest hdr \<noteq> None" for dest
    by (rule all_match_total) (use assms(2) that in \<open>auto simp: l4_constraint_def l4_ok_def firewall_match_val_def\<close>)
  then show "firewall_tcp_match L cs hdr \<noteq> None" "firewall_udp_match L cs hdr \<noteq> None"
    using assms(1) by (auto simp: firewall_tcp_match_def firewall_udp_match_def lwip_ok_def)
qed

text \<open>The result of the layer 3 functions, with a pointer that is fixed once the rule has a protocol.\<close>

lemma l3_match_total:
  assumes "lwip_ok L" "wf_match L r" "packet_ok L pkt" "lw_version L pkt = Some ver"
    "fw_ip_version r = 0 \<or> fw_ip_version r = ver" "fw_l3_match r = Some cs"
  shows "\<exists>ok p. \<forall>l4 f0. \<exists>l4'. (if ver = 4 then firewall_ip4_match L cs pkt l4 else firewall_ip6_match L f0 cs pkt l4) = Some (ok, l4') \<and>
    (ok \<and> fw_l4_proto r \<noteq> 0 \<longrightarrow> l4' = p)"
proof -
  define v where "v = fw_ip_version r"
  obtain cs0 where cs: "l3_list_ok v cs0" "if fw_l4_proto r = 0 then cs = cs0 else cs = cs0 @ [proto_constraint (fw_l4_proto r)]"
    using assms(2,6) by (auto simp: wf_match_def v_def split: if_splits)
  show ?thesis
  proof (cases "ver = 4")
    case True
    then have v: "v \<noteq> 6" "20 \<le> length pkt" using assms(3-5) by (auto simp: v_def packet_ok_def)
    have "l3_ok v (proto_constraint proto)" for proto by (simp add: l3_ok_def proto_constraint_def)
    then have "\<forall>c\<in>set cs. l3_ok v c" using cs by (auto simp: l3_list_ok_def split: if_splits)
    then obtain m where m: "all_match (ip4_constraint L pkt) cs = Some m"
      using ip4_constraints_total [OF assms(1) v(2), of cs v] v(1) by blast
    obtain hl off where "lw_iph_hl_bytes L pkt = Some hl" "lw_iph_offset L pkt = Some off"
      using assms(1) v(2) unfolding lwip_ok_def by blast
    then show ?thesis using m True
      by (intro exI [of _ "\<not> length pkt < hl \<and> m"] exI [of _ "if off AND lw_ip_offmask L = 0 then Some hl else None"])
        (auto simp: firewall_ip4_match_def ip4_is_fragment_def)
  next
    case False
    then have v: "v \<noteq> 4" using assms(5) by (auto simp: v_def)
    show ?thesis
    proof (cases "length pkt < lw_ip6_hlen L")
      case True
      then show ?thesis using False by (auto simp: firewall_ip6_match_def)
    next
      case long: False
      then have len: "lw_ip6_hlen L \<le> length pkt" by simp
      obtain m where m: "\<forall>f0 l4. ip6_constraints L pkt f0 cs0 l4 = Some (m, l4)"
        using ip6_plain_constraints [OF assms(1) len cs(1) v] by blast
      show ?thesis
      proof (cases "fw_l4_proto r = 0")
        case True
        then show ?thesis using cs(2) m False long by (auto simp: firewall_ip6_match_def)
      next
        case proto: False
        then obtain ok p where ok: "\<forall>f0 l4. \<exists>l4'. ip6_constraints L pkt f0 [proto_constraint (fw_l4_proto r)] l4 = Some (ok, l4') \<and>
            (ok \<longrightarrow> l4' = p)"
          using ip6_proto_constraint [OF assms(1) len, of "fw_l4_proto r"] by metis
        then have "\<forall>f0 l4. \<exists>l4'. ip6_constraints L pkt f0 cs l4 = Some (m \<and> ok, l4') \<and> (m \<and> ok \<longrightarrow> l4' = p)"
          using cs(2) proto m by (auto simp: ip6_constraints_append simp del: ip6_constraints.simps(2))
        then show ?thesis using False long
          by (intro exI [of _ "m \<and> ok"] exI [of _ p]) (auto simp: firewall_ip6_match_def)
      qed
    qed
  qed
qed

lemma firewall_match_total:
  assumes "lwip_ok L" "wf_match L r" "packet_ok L pkt"
  shows "\<exists>m. \<forall>l4 f0. firewall_match L l4 f0 pkt r = Some m"
proof -
  obtain ver where ver: "lw_version L pkt = Some ver" using assms(1,3) by (auto simp: lwip_ok_def packet_ok_def)
  show ?thesis
  proof (cases "fw_ip_version r \<noteq> 0 \<and> fw_ip_version r \<noteq> ver \<or> fw_l3_match r = None")
    case True
    then have "firewall_match L l4 f0 pkt r = Some (\<not> (fw_ip_version r \<noteq> 0 \<and> fw_ip_version r \<noteq> ver))" for l4 f0
      using ver by (cases "fw_ip_version r \<noteq> 0 \<and> fw_ip_version r \<noteq> ver") (simp_all add: firewall_match_def)
    then show ?thesis by blast
  next
    case False
    then obtain cs where cs: "fw_l3_match r = Some cs" by auto
    obtain ok p where ok: "\<forall>l4 f0. \<exists>l4'. (if ver = 4 then firewall_ip4_match L cs pkt l4 else firewall_ip6_match L f0 cs pkt l4) = Some (ok, l4') \<and>
        (ok \<and> fw_l4_proto r \<noteq> 0 \<longrightarrow> l4' = p)"
      using l3_match_total [OF assms ver _ cs] False by blast
    define after where "after = (\<lambda>l4_hdr. case fw_l4_match r of None \<Rightarrow> Some True
        | Some l4 \<Rightarrow> (case l4_hdr of None \<Rightarrow> Some False
            | Some q \<Rightarrow> if fw_l4_proto r = lw_proto_tcp L then firewall_tcp_match L l4 (drop q pkt)
                else if fw_l4_proto r = lw_proto_udp L then firewall_udp_match L l4 (drop q pkt) else Some False))"
    have "after p \<noteq> None"
    proof (cases "fw_l4_match r")
      case (Some l4)
      then have "\<forall>c\<in>set l4. l4_ok c" using assms(2) by (auto simp: wf_match_def split: if_splits)
      then show ?thesis using l4_match_total [OF assms(1), of l4] Some by (auto simp: after_def split: option.splits)
    qed (simp add: after_def)
    then obtain a where a: "after p = Some a" by blast
    have same: "after l4' = after p" if "fw_l4_proto r \<noteq> 0 \<longrightarrow> l4' = p" for l4'
      using that assms(2) by (cases "fw_l4_proto r = 0") (auto simp: after_def wf_match_def)
    have "firewall_match L l4 f0 pkt r = Some (if ok then a else False)" for l4 f0
    proof -
      obtain l4' where l4': "(if ver = 4 then firewall_ip4_match L cs pkt l4 else firewall_ip6_match L f0 cs pkt l4) = Some (ok, l4')"
          "ok \<and> fw_l4_proto r \<noteq> 0 \<longrightarrow> l4' = p" using ok by blast
      have "firewall_match L l4 f0 pkt r = (if \<not> ok then Some False else after l4')"
        unfolding firewall_match_def after_def using ver False cs l4'(1)
        by (cases "fw_ip_version r = 0") (simp_all cong: if_cong)
      then show ?thesis using same [of l4'] l4'(2) a by auto
    qed
    then show ?thesis by blast
  qed
qed

lemma firewall_filter_first_match:
  assumes "lwip_ok L" "packet_ok L pkt" "\<forall>r\<in>set rules. wf_rule L r"
  shows "firewall_filter L l4 f0 rules pkt =
    Some (case find (\<lambda>r. firewall_match L None None pkt r = Some True) rules of
            None \<Rightarrow> 1
          | Some r \<Rightarrow> if fw_drop r = Some True then 0 else 1)"
  using assms(3)
proof (induction rules)
  case (Cons r rules)
  then have r: "wf_match L r" "fw_drop r \<noteq> None" by (simp_all add: wf_rule_def)
  obtain m where m: "\<And>l4 f0. firewall_match L l4 f0 pkt r = Some m"
    using firewall_match_total [OF assms(1) r(1) assms(2)] by blast
  obtain d where "fw_drop r = Some d" using r(2) by blast
  then show ?case using m Cons by (cases m) simp_all
qed simp

section \<open>Properties\<close>

text \<open>The layout of the headers as the protocol standards have it.\<close>

definition be16_at :: "nat \<Rightarrow> u8 list \<Rightarrow> u16 option" where
  "be16_at i p = (if i + 2 \<le> length p then Some (le_word (take 2 (drop i p))) else None)"

definition standard_lwip :: lwip where
  "standard_lwip =
     \<lparr>lw_version = (\<lambda>p. map_option (drop_bit 4) (load_byte p 0)),
      lw_iph_hl_bytes = (\<lambda>p. map_option (\<lambda>b. 4 * unat (b AND 0xf)) (load_byte p 0)),
      lw_iph_offset = be16_at 6, lw_iph_proto = (\<lambda>p. load_byte p 9), lw_ip_offmask = 0xff1f,
      lw_ip4_src = 12, lw_ip6_src = 8, lw_ip6_hlen = 40, lw_ip6_nexth = 6,
      lw_nexth_none = 59, lw_nexth_hopbyhop = 0, lw_nexth_destopts = 60, lw_nexth_routing = 43,
      lw_nexth_fragment = 44,
      lw_hbh = \<lparr>xl_size = 2, xl_hlen = 1, xl_nexth = 0\<rparr>, lw_dest = \<lparr>xl_size = 2, xl_hlen = 1, xl_nexth = 0\<rparr>,
      lw_rout = \<lparr>xl_size = 4, xl_hlen = 1, xl_nexth = 0\<rparr>, lw_frag_nexth = 0,
      lw_frag_offset = be16_at 2, lw_frag_offset_mask = 0xf8ff,
      lw_tcp_size = 20, lw_tcp_dest = be16_at 2, lw_udp_size = 8, lw_udp_dest = be16_at 2,
      lw_proto_tcp = 6, lw_proto_udp = 17,
      lw_htons = (\<lambda>w. push_bit 8 w OR drop_bit 8 w),
      lw_htonl = (\<lambda>w. be_word (le_bytes 4 w)),
      lw_ip4addr_aton = (\<lambda>s. if length s = 4 then Some s else None),
      lw_ip6addr_aton = (\<lambda>s. if length s = 16 then Some s else None)\<rparr>"

lemma standard_lwip_ok: "lwip_ok standard_lwip"
  by (auto simp: lwip_ok_def ext_ok_def standard_lwip_def load_byte_def be16_at_def)


definition sample_rule :: firewall_rule where
  "sample_rule = \<lparr>fw_ip_version = 4, fw_l4_proto = 6,
     fw_l3_match = Some [\<lparr>fc_type = FW_L3_SRC, fc_equals = True, fc_body = C_buf 12 [10, 16]\<rparr>, proto_constraint 6],
     fw_l4_match = Some [\<lparr>fc_type = FW_L4_DEST, fc_equals = True, fc_body = C_val 0x5000\<rparr>], fw_drop = Some True\<rparr>"

definition sample_packet :: "u8 list" where
  "sample_packet = [0x45, 0, 0, 40, 0, 0, 0, 0, 64, 6, 0, 0, 10, 31, 0, 1, 10, 0, 0, 2,
     0x30, 0x39, 0, 80, 0, 0, 0, 0, 0, 0, 0, 0, 0x50, 2, 0, 0, 0, 0, 0, 0]"


text \<open>
  Property C38. What a constraint on an address accepts. A positive constraint holds exactly if the
  first \<^verbatim>\<open>len\<close> bits of the address agree with the configured prefix. A negated constraint is the
  complement of that only for prefixes that do not end at a byte boundary: with \<^verbatim>\<open>len\<close> a multiple of
  eight, as in \<^verbatim>\<open>!10.0.0.0/8\<close>, it holds for every address, the excluded ones included.
\<close>

theorem firewall_match_buf_prefix:
  assumes "fc_body c = C_buf len cbuf" "off + length cbuf \<le> length pkt" "length cbuf = (unat len + 7) div 8"
  shows "firewall_match_buf pkt off c =
    Some (if fc_equals c then prefix_agrees (unat len) (drop off pkt) cbuf
          else unat len mod 8 = 0 \<or> \<not> prefix_agrees (unat len) (drop off pkt) cbuf)"
  by (rule firewall_match_buf_correct [OF assms])

theorem firewall_match_buf_prefix_witness:
  "firewall_match_buf [10, 1, 2, 3] 0 \<lparr>fc_type = FW_L3_SRC, fc_equals = False, fc_body = C_buf 8 [10]\<rparr> = Some True"
  using firewall_match_buf_prefix [of "\<lparr>fc_type = FW_L3_SRC, fc_equals = False, fc_body = C_buf 8 [10]\<rparr>" 8 "[10]" 0 "[10, 1, 2, 3]"]
  by simp

end
