(* ===== verification/Firewall_Rules.thy ===== *)
theory Firewall_Rules
  imports Firewall_Config Firewall_Match
begin

text \<open>
  Every rule that the configuration gives has the form that matching relies on, and what is built
  before an error is found is released block by block with the sizes it was allocated with.
\<close>

section \<open>Sizes\<close>

lemma unat_pad_8:
  assumes "0 < unat l" "unat l \<le> 2 ^ 60"
  shows "unat (pad l 8 div 8) = (unat l + 7) div 8"
proof -
  have u: "unat (l - 1) = unat l - 1" using assms(1) by (subst unat_sub) (simp_all add: word_le_nat_alt)
  have "bit ((l - 1) AND NOT (mask 3)) k = bit (push_bit 3 (drop_bit 3 (l - 1))) k" for k
    using bit_imp_le_length [of "l - 1" k] by (auto simp: bit_simps)
  then have "(l - 1) AND NOT (mask 3) = push_bit 3 (drop_bit 3 (l - 1))" by (rule bit_word_eqI)
  moreover have "(8 :: u64) - 1 = mask 3" by (simp add: mask_eq_exp_minus_1)
  ultimately have p: "pad l 8 = (l - 1) div 8 * 8 + 8" by (simp add: pad_def push_bit_eq_mult drop_bit_eq_div)
  have q: "unat ((l - 1) div 8 * 8) = (unat l - 1) div 8 * 8" using assms u by (simp add: unat_word_ariths unat_div)
  have "(unat l - 1) div 8 * 8 \<le> unat l - 1" by simp
  then have "unat (pad l 8) = (unat l - 1) div 8 * 8 + 8" unfolding p using q assms(2) unat_add_u64 [of "(l - 1) div 8 * 8" 8] by simp
  moreover have "(unat l + 7) div 8 = (unat l - 1) div 8 + 1" using assms(1) by (subst div_add_self2 [symmetric]) simp_all
  ultimately show ?thesis by (simp add: unat_div)
qed

text \<open>The form of a constraint, whether or not the rest of its rule was accepted.\<close>

definition l3_shape :: "firewall_constraint \<Rightarrow> bool" where
  "l3_shape c \<longleftrightarrow>
     (case fc_body c of
        C_buf len buf \<Rightarrow> fc_type c = FW_L3_SRC \<and> length buf = unat (pad len 8 div 8)
      | C_val v \<Rightarrow> fc_type c = FW_L3_FRAG \<or> fc_type c = FW_L3_PROTO)"

definition rule_shape :: "firewall_rule \<Rightarrow> bool" where
  "rule_shape r \<longleftrightarrow>
     (\<forall>cs. fw_l3_match r = Some cs \<longrightarrow> (\<forall>c\<in>set cs. l3_shape c)) \<and>
     (\<forall>cs. fw_l4_match r = Some cs \<longrightarrow> (\<forall>c\<in>set cs. l4_ok c))"

text \<open>A rule whose transport layer has not been parsed.\<close>

definition l3_rule :: "firewall_rule \<Rightarrow> bool" where
  "l3_rule r \<longleftrightarrow>
     fw_l4_proto r = 0 \<and> fw_l4_match r = None \<and> fw_ip_version r \<in> {0, 4, 6} \<and>
     (\<forall>cs. fw_l3_match r = Some cs \<longrightarrow> l3_list_ok (fw_ip_version r) cs)"

lemma l3_rule_wf: "l3_rule r \<Longrightarrow> wf_match L r"
  by (simp add: l3_rule_def wf_match_def)

section \<open>Layer 3\<close>

lemma parse_src_form:
  assumes "parse_src E v ipv6 = Some (Some c)"
  shows "l3_shape c \<and> l3_ok (if ipv6 then 6 else 4) c \<and> fc_type c \<noteq> FW_L3_PROTO"
proof -
  obtain nm addr buf eq where c: "c = \<lparr>fc_type = FW_L3_SRC, fc_equals = eq, fc_body = C_buf nm buf\<rparr>"
      "peek addr 0 (unat (pad nm 8 div 8)) = Some buf" "nm \<noteq> 0" "\<not> nm > (if ipv6 then 128 else 32)"
    using assms
    by (auto simp: parse_src_def parse_netmask_def Let_def
        split: cvalue.splits Option.bind_splits option.splits if_splits)
  have "length buf = unat (pad nm 8 div 8)" using peek_length [OF c(2)] .
  moreover have nm: "0 < unat nm" "unat nm \<le> (if ipv6 then 128 else 32)"
    using c(3,4) by (auto simp: unat_gt_0 word_less_nat_alt not_less split: if_splits)
  moreover have "unat nm \<le> 2 ^ 60" using nm(2) by (auto split: if_splits)
  ultimately show ?thesis using unat_pad_8 [of nm] c(1) by (auto simp: l3_shape_def l3_ok_def fw_types)
qed

lemma parse_fragment_form:
  assumes "parse_fragment E b = Some (Some c)"
  shows "l3_shape c \<and> l3_ok ver c \<and> fc_type c \<noteq> FW_L3_PROTO"
  using assms by (auto simp: parse_fragment_def l3_shape_def l3_ok_def fw_types split: Option.bind_splits if_splits)

lemma push_l3_simps [simp]:
  "fw_l3_match r = Some cs \<Longrightarrow> push_l3 c r = r\<lparr>fw_l3_match := Some (cs @ [c])\<rparr>"
  by (simp add: push_l3_def)

lemma parse_l3_form:
  assumes "firewall_rule_parse_l3 E r spec ipv6 = Some (ok, r')" "l3_rule r" "rule_shape r"
  shows "rule_shape r' \<and> fw_l4_proto r' = 0 \<and> (ok \<longrightarrow> l3_rule r')"
proof -
  let ?v = "if ipv6 then 6 else 4 :: u8"
  let ?good = "\<lambda>q. \<exists>cs. q = r\<lparr>fw_l3_match := Some cs\<rparr> \<and> (\<forall>c\<in>set cs. l3_shape c \<and> l3_ok ?v c \<and> fc_type c \<noteq> FW_L3_PROTO)"
  have good: "rule_shape q \<and> fw_l4_proto q = 0 \<and> l3_rule (q\<lparr>fw_ip_version := ?v\<rparr>) \<and> rule_shape (q\<lparr>fw_ip_version := ?v\<rparr>)" if "?good q" for q
    using that assms(2,3) by (auto simp: rule_shape_def l3_rule_def l3_list_ok_def)
  have push: "?good (push_l3 c q)" if q: "?good q" and c: "l3_shape c \<and> l3_ok ?v c \<and> fc_type c \<noteq> FW_L3_PROTO" for c q
  proof -
    obtain cs where "q = r\<lparr>fw_l3_match := Some cs\<rparr>" "\<forall>c\<in>set cs. l3_shape c \<and> l3_ok ?v c \<and> fc_type c \<noteq> FW_L3_PROTO"
      using q by blast
    then show ?thesis using c by (intro exI [of _ "cs @ [c]"]) auto
  qed
  show ?thesis
  proof (cases "is_tuple spec")
    case False
    then show ?thesis using assms by (auto simp: firewall_rule_parse_l3_def l3_rule_def)
  next
    case True
    define r0 where "r0 = r\<lparr>fw_l3_match := Some []\<rparr>"
    have r0: "?good r0" unfolding r0_def by (rule exI [of _ "[]"]) simp
    obtain src where src: "cget spec ''src'' = Some src"
      using True by (auto simp: is_tuple_def cget_def split: cvalue.splits)
    obtain ok1 r1 where r1: "(case src of None \<Rightarrow> Some (True, r0)
           | Some v \<Rightarrow> do { c \<leftarrow> parse_src E v ipv6; Some (case c of None \<Rightarrow> (False, r0) | Some c \<Rightarrow> (True, push_l3 c r0)) }) = Some (ok1, r1)"
      using assms(1) True src unfolding r0_def by (auto simp: firewall_rule_parse_l3_def Let_def split: Option.bind_splits)
    have g1: "?good r1"
      using r1 r0 push [OF r0] parse_src_form [of E _ ipv6] by (auto split: option.splits Option.bind_splits)
    show ?thesis
    proof (cases ok1)
      case False
      then have "ok = False" "r' = r1"
        using assms(1) True src r1 unfolding r0_def by (auto simp: firewall_rule_parse_l3_def Let_def)
      then show ?thesis using good [OF g1] by simp
    next
      case ok1: True
      obtain frag where frag: "get_string spec ''fragment'' = Some frag"
        using True by (auto simp: get_string_def is_tuple_def cget_def split: cvalue.splits)
      obtain ok2 r2 where r2: "(case frag of None \<Rightarrow> Some (True, r1)
             | Some b \<Rightarrow> do { c \<leftarrow> parse_fragment E b; Some (case c of None \<Rightarrow> (False, r1) | Some c \<Rightarrow> (True, push_l3 c r1)) }) = Some (ok2, r2)"
          "(ok, r') = (if ok2 then (True, r2\<lparr>fw_ip_version := ?v\<rparr>) else (False, r2))"
        using assms(1) True src r1 ok1 frag unfolding r0_def
        by (auto simp: firewall_rule_parse_l3_def Let_def split: Option.bind_splits if_splits)
      have "?good r2"
        using r2(1) g1 push [OF g1] parse_fragment_form [of E] by (auto split: option.splits Option.bind_splits)
      then show ?thesis using good [of r2] r2(2) by (auto split: if_splits)
    qed
  qed
qed

lemma parse_ip_form:
  assumes "firewall_rule_parse_ip4 E r spec = Some (ok, r') \<or> firewall_rule_parse_ip6 E r spec = Some (ok, r')"
    "l3_rule r" "rule_shape r"
  shows "rule_shape r' \<and> (ok \<longrightarrow> l3_rule r')"
proof -
  obtain ipv6 ok1 r1 where r1: "firewall_rule_parse_l3 E r spec ipv6 = Some (ok1, r1)" "(ok, r') = drop_empty_l3 (ok1, r1)"
    using assms(1) by (auto simp: firewall_rule_parse_ip4_def firewall_rule_parse_ip6_def)
  then have "rule_shape r1" "ok1 \<longrightarrow> l3_rule r1" using parse_l3_form [OF r1(1) assms(2,3)] by simp_all
  then show ?thesis using r1(2) by (auto simp: drop_empty_l3_def rule_shape_def l3_rule_def split: if_splits)
qed

section \<open>Layer 4\<close>

lemma add_l4_proto_form:
  assumes "l3_rule r0" "rule_shape r" "r = r0\<lparr>fw_l4_match := m\<rparr>"
    "proto \<in> {lw_proto_tcp L, lw_proto_udp L}" "proto \<noteq> 0"
  shows "rule_shape (firewall_rule_add_l4_proto r proto) \<and> wf_match L (firewall_rule_add_l4_proto r proto) \<and>
    fw_l4_proto (firewall_rule_add_l4_proto r proto) = proto \<and> fw_l4_match (firewall_rule_add_l4_proto r proto) = m"
proof -
  have c: "l3_shape (proto_constraint proto)" by (simp add: l3_shape_def proto_constraint_def)
  obtain cs where cs: "fw_l3_match r = None \<and> cs = [] \<or> fw_l3_match r = Some cs" by (cases "fw_l3_match r") auto
  then have eq: "firewall_rule_add_l4_proto r proto = r\<lparr>fw_l3_match := Some (cs @ [proto_constraint proto]), fw_l4_proto := proto\<rparr>"
    by (auto simp: firewall_rule_add_l4_proto_def proto_constraint_def)
  have "l3_list_ok (fw_ip_version r) cs" "fw_ip_version r \<in> {0, 4, 6}"
    using cs assms(1,3) by (auto simp: l3_rule_def l3_list_ok_def)
  moreover have "\<forall>c\<in>set cs. l3_shape c" using cs assms(2) by (auto simp: rule_shape_def)
  ultimately show ?thesis
    using assms(2-5) c unfolding eq wf_match_def by (auto simp: rule_shape_def)
qed

lemma parse_l4_form:
  assumes "firewall_rule_parse_l4 L r spec proto = Some (ok, r')" "l3_rule r" "rule_shape r"
    "proto \<in> {lw_proto_tcp L, lw_proto_udp L}" "proto \<noteq> 0"
  shows "rule_shape r' \<and> (ok \<longrightarrow> wf_match L r' \<and> fw_l4_proto r' = proto)"
proof (cases "is_tuple spec")
  case False
  then show ?thesis using assms by (simp add: firewall_rule_parse_l4_def)
next
  case True
  define r0 where "r0 = r\<lparr>fw_l4_match := Some []\<rparr>"
  have shape0: "rule_shape r0" using assms(3) by (simp add: r0_def rule_shape_def)
  obtain dest where dest: "cget spec ''dest'' = Some dest"
    using True by (auto simp: is_tuple_def cget_def split: cvalue.splits)
  let ?body = "(case dest of None \<Rightarrow> Some (True, r0)
       | Some v \<Rightarrow> do { c \<leftarrow> firewall_create_constraint_val L v 2;
           Some (case c of None \<Rightarrow> (False, r0)
             | Some (equals, val) \<Rightarrow> (True, push_l4 \<lparr>fc_type = FW_L4_DEST, fc_equals = equals, fc_body = C_val val\<rparr> r0)) })"
  obtain ok1 r1 where r1: "?body = Some (ok1, r1)"
    using assms(1) True dest unfolding r0_def by (auto simp: firewall_rule_parse_l4_def Let_def split: Option.bind_splits)
  have r1': "rule_shape r1 \<and> (\<exists>m. r1 = r\<lparr>fw_l4_match := m\<rparr>)"
    using r1 shape0 assms(3)
    by (auto simp: r0_def push_l4_def rule_shape_def l4_ok_def split: option.splits Option.bind_splits)
  show ?thesis
  proof (cases ok1)
    case False
    then show ?thesis using assms(1) True dest r1 r1' unfolding r0_def by (auto simp: firewall_rule_parse_l4_def Let_def)
  next
    case ok: True
    let ?r = "firewall_rule_add_l4_proto r1 proto"
    have "(ok, r') = (True, if fw_l4_match ?r = Some [] then ?r\<lparr>fw_l4_match := None\<rparr> else ?r)"
      using assms(1) True dest r1 ok unfolding r0_def by (auto simp: firewall_rule_parse_l4_def Let_def)
    moreover have "rule_shape ?r \<and> wf_match L ?r \<and> fw_l4_proto ?r = proto"
      using add_l4_proto_form [OF assms(2) _ _ assms(4,5)] r1' by blast
    ultimately show ?thesis using assms(5) by (auto simp: rule_shape_def wf_match_def split: if_splits)
  qed
qed

section \<open>Rules\<close>

lemma parse_action_form:
  assumes "parse_action E action r = Some (ok, r')" "wf_match L r" "rule_shape r"
  shows "rule_shape r' \<and> (ok \<longrightarrow> wf_rule L r')"
proof -
  have "\<exists>d. r' = r\<lparr>fw_drop := d\<rparr>" "ok \<longrightarrow> fw_drop r' \<noteq> None"
    using assms(1) exI [of "\<lambda>d. r = r\<lparr>fw_drop := d\<rparr>" "fw_drop r"]
    by (auto simp: parse_action_def split: option.splits cvalue.splits Option.bind_splits if_splits)
  then show ?thesis using assms(2,3) by (auto simp: rule_shape_def wf_rule_def wf_match_def)
qed

text \<open>Each stage keeps the form of the constraints, and gives a stronger form if it succeeds.\<close>

lemma and_then_form:
  assumes "and_then m f = Some (ok, r')"
    "\<And>ok r. m = Some (ok, r) \<Longrightarrow> rule_shape r \<and> (ok \<longrightarrow> P r)"
    "\<And>ok r r'. rule_shape r \<Longrightarrow> P r \<Longrightarrow> f r = Some (ok, r') \<Longrightarrow> rule_shape r' \<and> (ok \<longrightarrow> Q r')"
  shows "rule_shape r' \<and> (ok \<longrightarrow> Q r')"
  using assms by (auto simp: and_then_def split: Option.bind_splits if_splits)

lemma optional_part_form:
  assumes "optional_part v f r = Some (ok, r')" "rule_shape r" "Q r"
    "\<And>w. f r w = Some (ok, r') \<Longrightarrow> rule_shape r' \<and> (ok \<longrightarrow> Q r')"
  shows "rule_shape r' \<and> (ok \<longrightarrow> Q r')"
  using assms by (auto simp: optional_part_def split: option.splits)

lemma ip_stages_form:
  assumes "ip4_stage E spec r = Some (ok, r') \<or> ip6_stage E spec r = Some (ok, r')" "rule_shape r" "l3_rule r"
  shows "rule_shape r' \<and> (ok \<longrightarrow> l3_rule r')"
proof -
  consider v where "optional_part v (firewall_rule_parse_ip4 E) r = Some (ok, r')"
    | v where "optional_part v (firewall_rule_parse_ip6 E) r = Some (ok, r')" | "ok = False" "r' = r"
    using assms(1) by (auto simp: ip4_stage_def ip6_stage_def split: Option.bind_splits if_splits)
  then show ?thesis
  proof cases
    case 1
    show ?thesis
      by (rule optional_part_form [where Q = l3_rule, OF 1 assms(2,3)]) (rule parse_ip_form [OF disjI1 assms(3,2)], assumption)
  next
    case 2
    show ?thesis
      by (rule optional_part_form [where Q = l3_rule, OF 2 assms(2,3)]) (rule parse_ip_form [OF disjI2 assms(3,2)], assumption)
  qed (use assms in simp)
qed

definition l4_rule :: "lwip \<Rightarrow> firewall_rule \<Rightarrow> bool" where
  "l4_rule L r \<longleftrightarrow> wf_match L r \<and> (fw_l4_proto r = 0 \<longrightarrow> l3_rule r)"

lemma l4_rule_l3: "l3_rule r \<Longrightarrow> l4_rule L r"
  by (simp add: l4_rule_def l3_rule_wf)

lemma l4_stages_form:
  assumes "tcp_stage E spec r = Some (ok, r') \<and> l3_rule r \<or> udp_stage E spec r = Some (ok, r') \<and> l4_rule (ce_lwip E) r"
    "rule_shape r" and nz: "lw_proto_tcp (ce_lwip E) \<noteq> 0" "lw_proto_udp (ce_lwip E) \<noteq> 0"
  shows "rule_shape r' \<and> (ok \<longrightarrow> l4_rule (ce_lwip E) r')"
proof -
  let ?L = "ce_lwip E"
  have parsed: "rule_shape r' \<and> (ok \<longrightarrow> l4_rule ?L r')"
    if "firewall_rule_parse_l4 ?L r w proto = Some (ok, r')" "l3_rule r" "proto \<in> {lw_proto_tcp ?L, lw_proto_udp ?L}" for w proto
    using parse_l4_form [OF that(1,2) assms(2) that(3)] that(3) nz by (auto simp: l4_rule_def)
  have same: "l4_rule ?L r" using assms(1) l4_rule_l3 by blast
  consider v where "optional_part v (firewall_rule_parse_tcp ?L) r = Some (ok, r')" "l3_rule r"
    | v where "optional_part v (firewall_rule_parse_udp ?L) r = Some (ok, r')" "v = None \<or> l3_rule r" | "ok = False" "r' = r"
    using assms(1)
  proof (elim disjE conjE)
    assume "udp_stage E spec r = Some (ok, r')" "l4_rule ?L r"
    then obtain l4 where l4: "cget spec ''udp'' = Some l4"
        "(if l4 \<noteq> None \<and> fw_l4_proto r \<noteq> 0 then Some (False, r) else optional_part l4 (firewall_rule_parse_udp ?L) r) = Some (ok, r')"
      by (cases "cget spec ''udp''") (auto simp: udp_stage_def)
    show thesis
    proof (cases "l4 \<noteq> None \<and> fw_l4_proto r \<noteq> 0")
      case True
      then show thesis using l4(2) that(3) by simp
    next
      case False
      then have "optional_part l4 (firewall_rule_parse_udp ?L) r = Some (ok, r')" "l4 = None \<or> l3_rule r"
        using l4(2) \<open>l4_rule ?L r\<close> by (auto simp: l4_rule_def split: if_splits)
      then show thesis by (rule that(2))
    qed
  next
    assume "tcp_stage E spec r = Some (ok, r')" "l3_rule r"
    then show thesis using that(1) by (cases "cget spec ''tcp''") (auto simp: tcp_stage_def)
  qed
  then show ?thesis
  proof cases
    case 1
    show ?thesis
      by (rule optional_part_form [where Q = "l4_rule ?L", OF 1(1) assms(2) same])
        (rule parsed [OF _ 1(2), of _ "lw_proto_tcp ?L"], simp_all add: firewall_rule_parse_tcp_def)
  next
    case 2
    then show ?thesis
    proof (cases v)
      case (Some w)
      then have "firewall_rule_parse_l4 ?L r w (lw_proto_udp ?L) = Some (ok, r')" "l3_rule r"
        using 2 by (simp_all add: optional_part_def firewall_rule_parse_udp_def)
      then show ?thesis using parsed by blast
    qed (use 2 same assms(2) in \<open>simp add: optional_part_def\<close>)
  qed (use same assms(2) in simp)
qed

lemma fill_rule_form:
  assumes "fill_rule E spec r = Some (ok, r')" "l3_rule r" "rule_shape r"
    and nz: "lw_proto_tcp (ce_lwip E) \<noteq> 0" "lw_proto_udp (ce_lwip E) \<noteq> 0"
  shows "rule_shape r' \<and> (ok \<longrightarrow> wf_rule (ce_lwip E) r')"
proof -
  let ?L = "ce_lwip E"
  have 1: "rule_shape q \<and> (ok \<longrightarrow> l3_rule q)" if "ip4_stage E spec r = Some (ok, q)" for ok q
    by (rule ip_stages_form [OF disjI1 [OF that] assms(3,2)])
  have 2: "rule_shape q \<and> (ok \<longrightarrow> l3_rule q)" if "and_then (ip4_stage E spec r) (ip6_stage E spec) = Some (ok, q)" for ok q
    by (rule and_then_form [where P = l3_rule, OF that 1]) (assumption, rule ip_stages_form [OF disjI2], assumption+)
  have 3: "rule_shape q \<and> (ok \<longrightarrow> l4_rule ?L q)"
    if "and_then (and_then (ip4_stage E spec r) (ip6_stage E spec)) (tcp_stage E spec) = Some (ok, q)" for ok q
    by (rule and_then_form [where P = l3_rule, OF that 2]) (assumption, rule l4_stages_form [OF disjI1 [OF conjI] _ nz], assumption+)
  have 4: "rule_shape q \<and> (ok \<longrightarrow> l4_rule ?L q)"
    if "and_then (and_then (and_then (ip4_stage E spec r) (ip6_stage E spec)) (tcp_stage E spec)) (udp_stage E spec) = Some (ok, q)" for ok q
    by (rule and_then_form [where P = "l4_rule ?L", OF that 3]) (assumption, rule l4_stages_form [OF disjI2 [OF conjI] _ nz], assumption+)
  show ?thesis
    using assms(1) unfolding fill_rule_def
    by (rule and_then_form [where P = "l4_rule ?L", OF _ 4])
      (assumption, auto simp: action_stage_def l4_rule_def split: Option.bind_splits dest: parse_action_form)
qed

lemma create_rule_form:
  assumes "firewall_create_rule E rules spec = Some (ok, rules')" "\<forall>r\<in>set rules. rule_shape r \<and> wf_rule (ce_lwip E) r"
    "lw_proto_tcp (ce_lwip E) \<noteq> 0" "lw_proto_udp (ce_lwip E) \<noteq> 0"
  shows "(\<forall>r\<in>set rules'. rule_shape r) \<and> (ok \<longrightarrow> (\<forall>r\<in>set rules'. wf_rule (ce_lwip E) r))"
proof (cases "is_tuple spec")
  case True
  let ?r = "\<lparr>fw_ip_version = 0, fw_l4_proto = 0, fw_l3_match = None, fw_l4_match = None, fw_drop = None\<rparr>"
  obtain r' where r': "fill_rule E spec ?r = Some (ok, r')" "rules' = rules @ [r']"
    using assms(1) True by (auto simp: firewall_create_rule_def Let_def split: Option.bind_splits)
  have "l3_rule ?r" "rule_shape ?r" by (simp_all add: l3_rule_def rule_shape_def)
  from fill_rule_form [OF r'(1) this assms(3,4)] show ?thesis using r'(2) assms(2) by auto
qed (use assms in \<open>auto simp: firewall_create_rule_def\<close>)

lemma create_rules_form:
  assumes "create_rules E specs i rules = Some (ok, rules')" "\<forall>r\<in>set rules. rule_shape r \<and> wf_rule (ce_lwip E) r"
    "lw_proto_tcp (ce_lwip E) \<noteq> 0" "lw_proto_udp (ce_lwip E) \<noteq> 0"
  shows "(\<forall>r\<in>set rules'. rule_shape r) \<and> (ok \<longrightarrow> (\<forall>r\<in>set rules'. wf_rule (ce_lwip E) r))"
proof -
  let ?P = "\<lambda>E specs i rules y.
     (\<forall>r\<in>set rules. rule_shape r \<and> wf_rule (ce_lwip E) r) \<and> lw_proto_tcp (ce_lwip E) \<noteq> 0 \<and> lw_proto_udp (ce_lwip E) \<noteq> 0 \<longrightarrow>
     (\<forall>r\<in>set (snd y). rule_shape r) \<and> (fst y \<longrightarrow> (\<forall>r\<in>set (snd y). wf_rule (ce_lwip E) r))"
  have "?P E specs i rules (ok, rules')"
  proof (rule create_rules.raw_induct [OF _ assms(1), where P = ?P])
    fix loop and E :: config_env and specs i rules and y :: "bool \<times> firewall_rule list"
    assume IH: "\<And>E specs i rules y. loop E specs i rules = Some y \<Longrightarrow> ?P E specs i rules y"
      and step: "(do { spec \<leftarrow> cget_at specs i;
          case spec of None \<Rightarrow> Some (True, rules)
          | Some s \<Rightarrow> do { (ok, rules) \<leftarrow> firewall_create_rule E rules s;
              if \<not> ok then Some (False, rules) else loop E specs (i + 1) rules } }) = Some y"
    show "?P E specs i rules y"
    proof
      assume pre: "(\<forall>r\<in>set rules. rule_shape r \<and> wf_rule (ce_lwip E) r) \<and> lw_proto_tcp (ce_lwip E) \<noteq> 0 \<and> lw_proto_udp (ce_lwip E) \<noteq> 0"
      obtain spec where spec: "cget_at specs i = Some spec" using step by (auto split: Option.bind_splits)
      show "(\<forall>r\<in>set (snd y). rule_shape r) \<and> (fst y \<longrightarrow> (\<forall>r\<in>set (snd y). wf_rule (ce_lwip E) r))"
      proof (cases spec)
        case None
        then show ?thesis using step pre spec by auto
      next
        case (Some s)
        obtain ok1 rules1 where r1: "firewall_create_rule E rules s = Some (ok1, rules1)"
          using step spec Some by (auto split: Option.bind_splits)
        have form: "(\<forall>r\<in>set rules1. rule_shape r) \<and> (ok1 \<longrightarrow> (\<forall>r\<in>set rules1. wf_rule (ce_lwip E) r))"
          using create_rule_form [OF r1] pre by blast
        show ?thesis
        proof (cases ok1)
          case True
          then have "loop E specs (i + 1) rules1 = Some y" using step spec Some r1 by simp
          from IH [OF this] show ?thesis using form True pre by blast
        next
          case False
          then show ?thesis using step spec Some r1 form by auto
        qed
      qed
    qed
  qed
  then show ?thesis using assms(2-4) by simp
qed

section \<open>Release\<close>

text \<open>The blocks that a rule and its constraints were allocated with.\<close>

definition constraint_block :: "firewall_constraint \<Rightarrow> u64" where
  "constraint_block c =
     (case fc_body c of C_val _ \<Rightarrow> sizeof_constraint_val | C_buf _ buf \<Rightarrow> sizeof_constraint_buf + of_nat (length buf))"

definition rule_blocks :: "firewall_rule \<Rightarrow> u64 list" where
  "rule_blocks r =
     map constraint_block (case fw_l3_match r of None \<Rightarrow> [] | Some cs \<Rightarrow> cs) @
     map constraint_block (case fw_l4_match r of None \<Rightarrow> [] | Some cs \<Rightarrow> cs) @ [sizeof_rule]"

lemma dealloc_all_blocks:
  "(\<And>c. c \<in> set cs \<Longrightarrow> f c = Some [constraint_block c]) \<Longrightarrow> dealloc_all f cs = Some (map constraint_block cs)"
  by (induction cs) simp_all

lemmas dealloc_wrappers = firewall_dealloc_ip4_constraint_def firewall_dealloc_ip6_constraint_def
  firewall_dealloc_tcp_constraint_def firewall_dealloc_udp_constraint_def

lemma destroy_rule_blocks:
  assumes "rule_shape r"
  shows "firewall_destroy_rule L r = Some (rule_blocks r)"
proof -
  have "firewall_dealloc_l3_constraint c = Some [constraint_block c]" if "l3_shape c" for c
    using that by (auto simp: l3_shape_def firewall_dealloc_l3_constraint_def constraint_block_def fw_types split: constraint_body.splits)
  moreover have "firewall_dealloc_l4_constraint c = Some [constraint_block c]" if "l4_ok c" for c
    using that by (auto simp: l4_ok_def firewall_dealloc_l4_constraint_def constraint_block_def)
  moreover have "(\<lambda>c. if fw_ip_version r = 4 then firewall_dealloc_ip4_constraint c
        else if fw_ip_version r = 6 then firewall_dealloc_ip6_constraint c
        else firewall_dealloc_l3_constraint c) = firewall_dealloc_l3_constraint"
    "(\<lambda>c. if fw_l4_proto r = lw_proto_tcp L then firewall_dealloc_tcp_constraint c
        else if fw_l4_proto r = lw_proto_udp L then firewall_dealloc_udp_constraint c
        else firewall_dealloc_l4_constraint c) = firewall_dealloc_l4_constraint"
    by (simp_all add: dealloc_wrappers fun_eq_iff)
  ultimately show ?thesis
    using assms dealloc_all_blocks [of _ firewall_dealloc_l3_constraint] dealloc_all_blocks [of _ firewall_dealloc_l4_constraint]
    by (auto simp: firewall_destroy_rule_def rule_blocks_def rule_shape_def split: option.splits)
qed

lemma destroy_rules_blocks: "\<forall>r\<in>set rs. rule_shape r \<Longrightarrow> destroy_rules L rs = Some (concat (map rule_blocks rs))"
  by (induction rs) (simp_all add: destroy_rule_blocks)

text \<open>A vector of specifications has as many rounds as entries.\<close>

lemma create_rules_vector:
  "create_rules E (V_vector vs) i rules =
     (if i < length vs then do {
        (ok, rules) \<leftarrow> firewall_create_rule E rules (vs ! i);
        if \<not> ok then Some (False, rules) else create_rules E (V_vector vs) (i + 1) rules }
      else Some (True, rules))"
  by (subst create_rules.simps) (simp add: cget_at_def)

section \<open>Property\<close>


definition sample_env :: config_env where
  "sample_env = \<lparr>ce_lwip = standard_lwip, ce_heap = sample_heap, ce_buf = 0, ce_lit = 64\<rparr>"

definition config_string :: "u8 list \<Rightarrow> cvalue" where
  "config_string s = V_string (alloca_wrap_buffer sample_heap s (of_nat (length s)))"

definition sample_config :: cvalue where
  "sample_config = V_tuple [(''firewall'', V_tuple [(''rules'', V_vector [V_tuple
     [(''ip'', V_tuple [(''src'', config_string [10, 0, 0, 0, 0x2f, 0x31, 0x32])]), (''tcp'', V_tuple [])]])])]"

declare create_rules.simps [code]

declare parse_int_loop.simps [code]

definition sample_rules :: "firewall_rule list" where
  "sample_rules = [\<lparr>fw_ip_version = 4, fw_l4_proto = 6,
     fw_l3_match = Some [\<lparr>fc_type = 0, fc_equals = True, fc_body = C_buf 12 [10, 0]\<rparr>,
       \<lparr>fc_type = 2, fc_equals = True, fc_body = C_val 6\<rparr>],
     fw_l4_match = None, fw_drop = Some True\<rparr>]"


end
