(* ===== verification/Spec2Isabelle.thy ===== *)
theory Spec2Isabelle
  imports Rangemap_Cover Pqueue_Correct Table Bitmap_Props Ringbuf Queue_Steps Format Firewall_Rules
begin

text \<open>
  Verification of the runtime core of the Jerboa kernel.
\<close>

end
